(* ===== verification/Prelude.thy ===== *)
theory Prelude
  imports Main "HOL-Library.Word"
begin

text \<open>
  Shared vocabulary of the development: the machine integer types of the kernel, the
  outcome of code that can panic, checked arithmetic as the \<^verbatim>\<open>dev\<close> profile compiles it, and
  the generic lemmas on lists and words that the component theories use.
\<close>

unbundle bit_operations_syntax

type_synonym u8 = "8 word"
type_synonym u32 = "32 word"
type_synonym u64 = "64 word"

subsection \<open>Faults\<close>

text \<open>
  The kernel is built with \<^verbatim>\<open>panic = "abort"\<close>; a panic, a wild pointer access and a spin that
  can never end are the ways a kernel path fails to return. They are values of \<open>fault\<close>, so
  that every such path of the source is a branch of the model.
\<close>

datatype fault =
    Overflow             \<comment> \<open>checked integer arithmetic failed\<close>
  | DivByZero            \<comment> \<open>integer division or remainder by zero\<close>
  | IndexOutOfBounds     \<comment> \<open>slice or array index out of range\<close>
  | ExpectFailed         \<comment> \<open>\<open>unwrap\<close>, \<open>expect\<close> or \<open>assert\<close>\<close>
  | WildAccess           \<comment> \<open>raw pointer access outside the object it belongs to\<close>
  | SelfDeadlock         \<comment> \<open>a spinlock taken again by its only possible releaser\<close>

type_synonym 'a res = "fault + 'a"

definition rbind :: "('e + 'a) \<Rightarrow> ('a \<Rightarrow> 'e + 'b) \<Rightarrow> 'e + 'b" where
  "rbind m f = (case m of Inl e \<Rightarrow> Inl e | Inr x \<Rightarrow> f x)"

lemma rbind_simps [simp]:
  "rbind (Inl e) f = Inl e"
  "rbind (Inr x) f = f x"
  by (simp_all add: rbind_def)

lemma rbind_eq_Inr [simp]: "rbind m f = Inr y \<longleftrightarrow> (\<exists>x. m = Inr x \<and> f x = Inr y)"
  by (cases m) simp_all

lemma rbind_eq_Inl: "rbind m f = Inl e \<longleftrightarrow> m = Inl e \<or> (\<exists>x. m = Inr x \<and> f x = Inl e)"
  by (cases m) simp_all

text \<open>Checked arithmetic of \<^verbatim>\<open>u64\<close>/\<^verbatim>\<open>usize\<close> values held as natural numbers.\<close>

definition U64_LIMIT :: nat where
  "U64_LIMIT = 2 ^ 64"

definition add_u64 :: "nat \<Rightarrow> nat \<Rightarrow> nat res" where
  "add_u64 a b = (if a + b < U64_LIMIT then Inr (a + b) else Inl Overflow)"

definition mul_u64 :: "nat \<Rightarrow> nat \<Rightarrow> nat res" where
  "mul_u64 a b = (if a * b < U64_LIMIT then Inr (a * b) else Inl Overflow)"

lemma add_u64_Inr [simp]: "add_u64 a b = Inr c \<longleftrightarrow> c = a + b \<and> a + b < U64_LIMIT"
  by (auto simp: add_u64_def)

lemma mul_u64_Inr [simp]: "mul_u64 a b = Inr c \<longleftrightarrow> c = a * b \<and> a * b < U64_LIMIT"
  by (auto simp: mul_u64_def)

lemma add_u64_ok: "a + b < U64_LIMIT \<Longrightarrow> add_u64 a b = Inr (a + b)"
  by simp

lemma mul_u64_ok: "a * b < U64_LIMIT \<Longrightarrow> mul_u64 a b = Inr (a * b)"
  by simp

subsection \<open>Words\<close>

lemma xor_cancel_right [simp]: "((a :: 'a::len word) XOR c = b XOR c) = (a = b)"
  by (metis xor.assoc xor.right_neutral xor_self_eq)

lemma xor_cancel_left [simp]: "((c :: 'a::len word) XOR a = c XOR b) = (a = b)"
  by (simp add: xor.commute [of c])

subsection \<open>Byte-addressed memory\<close>

text \<open>
  Memory as the raw pointers of the kernel see it: a byte at every address. The 64-bit
  accesses of \<^verbatim>\<open>ptr::read\<close>/\<^verbatim>\<open>ptr::write\<close> are little-endian.
\<close>

type_synonym memory = "nat \<Rightarrow> u8"

definition byte_of :: "u64 \<Rightarrow> nat \<Rightarrow> u8" where
  "byte_of v k = ucast (drop_bit (8 * k) v)"

definition store_u64 :: "memory \<Rightarrow> nat \<Rightarrow> u64 \<Rightarrow> memory" where
  "store_u64 m a v = (\<lambda>x. if a \<le> x \<and> x < a + 8 then byte_of v (x - a) else m x)"

definition load_u64 :: "memory \<Rightarrow> nat \<Rightarrow> u64" where
  "load_u64 m a = foldr (\<lambda>k w. push_bit 8 w OR ucast (m (a + k))) [0..<8] 0"

lemma load_u64_cong: "(\<And>k. k < 8 \<Longrightarrow> m (a + k) = m' (a + k)) \<Longrightarrow> load_u64 m a = load_u64 m' a"
  unfolding load_u64_def by (rule foldr_cong) auto

lemma bit_byte_join:
  "bit (push_bit 8 w OR ucast (byte_of v k)) i \<longleftrightarrow>
     (if i < 8 then bit v (8 * k + i) else i < 64 \<and> bit w (i - 8))"
  for w v :: u64
  by (auto simp: byte_of_def bit_simps dest: bit_imp_le_length)

lemma foldr_byte_join:
  "bit (foldr (\<lambda>k w. push_bit 8 w OR ucast (byte_of v k)) [j..<8] (0 :: u64)) i \<longleftrightarrow> bit (v :: u64) (8 * j + i)"
  if "j \<le> 8"
  using that
proof (induction j arbitrary: i rule: inc_induct)
  case base
  then show ?case by (auto dest: bit_imp_le_length)
next
  case (step n)
  have up: "[n..<8] = n # [Suc n..<8]" using step.hyps by (simp add: upt_rec)
  show ?case
    unfolding up foldr.simps comp_apply bit_byte_join step.IH
    using bit_imp_le_length [of v "8 * n + i"] by auto
qed

lemma load_store_u64 [simp]: "load_u64 (store_u64 m a v) a = v"
proof -
  have "load_u64 (store_u64 m a v) a =
        foldr (\<lambda>k w. push_bit 8 w OR ucast (byte_of v k)) [0..<8] 0"
    unfolding load_u64_def by (rule foldr_cong) (auto simp: store_u64_def)
  then show ?thesis
    by (intro bit_eqI) (simp only: foldr_byte_join [of 0, simplified])
qed

lemma store_u64_other [simp]: "x < a \<or> a + 8 \<le> x \<Longrightarrow> store_u64 m a v x = m x"
  by (auto simp: store_u64_def)

lemma load_store_u64_other: "b + 8 \<le> a \<or> a + 8 \<le> b \<Longrightarrow> load_u64 (store_u64 m a v) b = load_u64 m b"
  by (rule load_u64_cong) auto

text \<open>Block copies (\<^verbatim>\<open>copy_nonoverlapping\<close>, \<^verbatim>\<open>write_bytes\<close>, \<^verbatim>\<open>copy_from_slice\<close>).\<close>

definition read_bytes :: "memory \<Rightarrow> nat \<Rightarrow> nat \<Rightarrow> u8 list" where
  "read_bytes m a n = map m [a ..< a + n]"

definition write_bytes :: "memory \<Rightarrow> nat \<Rightarrow> u8 list \<Rightarrow> memory" where
  "write_bytes m a bs = (\<lambda>x. if a \<le> x \<and> x < a + length bs then bs ! (x - a) else m x)"

definition overwrite :: "'a list \<Rightarrow> nat \<Rightarrow> 'a list \<Rightarrow> 'a list" where
  "overwrite xs i ys = take i xs @ ys @ drop (i + length ys) xs"

lemma length_read_bytes [simp]: "length (read_bytes m a n) = n"
  by (simp add: read_bytes_def)

lemma read_bytes_nth [simp]: "i < n \<Longrightarrow> read_bytes m a n ! i = m (a + i)"
  by (simp add: read_bytes_def)

lemma read_bytes_cong: "(\<And>x. a \<le> x \<Longrightarrow> x < a + n \<Longrightarrow> m x = m' x) \<Longrightarrow> read_bytes m a n = read_bytes m' a n"
  by (simp add: read_bytes_def)

lemma write_bytes_other [simp]: "x < a \<or> a + length bs \<le> x \<Longrightarrow> write_bytes m a bs x = m x"
  by (auto simp: write_bytes_def)

lemma read_write_bytes [simp]: "read_bytes (write_bytes m a bs) a (length bs) = bs"
  by (rule nth_equalityI) (auto simp: write_bytes_def)

lemma read_write_bytes_other:
  "b + n \<le> a \<or> a + length bs \<le> b \<Longrightarrow> read_bytes (write_bytes m a bs) b n = read_bytes m b n"
  by (rule read_bytes_cong) auto

lemma read_bytes_append: "read_bytes m a (n + k) = read_bytes m a n @ read_bytes m (a + n) k"
  by (rule nth_equalityI) (auto simp: nth_append)

lemma length_overwrite [simp]: "i + length ys \<le> length xs \<Longrightarrow> length (overwrite xs i ys) = length xs"
  by (simp add: overwrite_def)

lemma nth_overwrite:
  "i + length ys \<le> length xs \<Longrightarrow> k < length xs \<Longrightarrow>
   overwrite xs i ys ! k = (if i \<le> k \<and> k < i + length ys then ys ! (k - i) else xs ! k)"
  by (auto simp: overwrite_def nth_append min_def)

lemma overwrite_Nil [simp]: "overwrite xs i [] = xs"
  by (simp add: overwrite_def)

lemma overwrite_overwrite:
  assumes "i + length ys + length zs \<le> length xs"
  shows "overwrite (overwrite xs i ys) (i + length ys) zs = overwrite xs i (ys @ zs)"
proof (rule nth_equalityI)
  show "length (overwrite (overwrite xs i ys) (i + length ys) zs) = length (overwrite xs i (ys @ zs))"
    using assms by simp
  fix k assume "k < length (overwrite (overwrite xs i ys) (i + length ys) zs)"
  then show "overwrite (overwrite xs i ys) (i + length ys) zs ! k = overwrite xs i (ys @ zs) ! k"
    using assms by (auto simp: nth_overwrite nth_append)
qed

lemma take_drop_overwrite: "i + length ys \<le> length xs \<Longrightarrow> take (length ys) (drop i (overwrite xs i ys)) = ys"
  by (simp add: overwrite_def min_def)

end
