(* ===== verification/Frames.thy ===== *)
theory Frames
  imports Prelude
begin

text \<open>
  Physical frame allocation: the boot-time allocator of \<^verbatim>\<open>memory/frame_allocator.rs\<close> and the
  intrusive free list of \<^verbatim>\<open>memory/free_list.rs\<close>, whose next pointers live in the free frames
  themselves. A frame is named by its start address. \<^verbatim>\<open>PhysFrame\<close> belongs to the x86_64
  crate, so the two operations the code uses of it are the parameter \<open>phys_ops\<close>, with their
  documented behaviour as the hypothesis \<open>phys_laws\<close>.
\<close>

record phys_ops =
  containing_address :: "nat \<Rightarrow> nat"   \<comment> \<open>\<^verbatim>\<open>PhysFrame::containing_address\<close>\<close>
  frame_plus_one :: "nat \<Rightarrow> nat"       \<comment> \<open>\<^verbatim>\<open>frame + 1\<close>\<close>

definition phys_laws :: "phys_ops \<Rightarrow> bool" where
  "phys_laws x \<longleftrightarrow> (\<forall>a. containing_address x a = a - a mod 4096) \<and>
                   (\<forall>f. frame_plus_one x f = f + 4096)"

datatype region_kind = Usable | OtherKind nat

record region =
  r_start :: nat
  r_end :: nat
  r_kind :: region_kind

subsection \<open>The boot allocator\<close>

record boot_alloc =
  ba_regions :: "region list"
  ba_region_idx :: nat
  ba_cursor :: "nat option"
  ba_consumed :: nat

function seek_to_first_usable_frame :: "phys_ops \<Rightarrow> boot_alloc \<Rightarrow> boot_alloc res" where
  "seek_to_first_usable_frame x b =
     (if ba_region_idx b < length (ba_regions b) then
        let region = ba_regions b ! ba_region_idx b;
            skip = seek_to_first_usable_frame x
                     (b\<lparr>ba_region_idx := ba_region_idx b + 1, ba_cursor := None\<rparr>)
        in if r_kind region = Usable then
             if r_end region = 0 then Inl Overflow
             else
               let start_frame = containing_address x (r_start region);
                   end_frame = containing_address x (r_end region - 1);
                   candidate = (case ba_cursor b of Some c \<Rightarrow> c | None \<Rightarrow> start_frame)
               in if candidate \<le> end_frame then Inr (b\<lparr>ba_cursor := Some candidate\<rparr>) else skip
           else skip
      else Inr (b\<lparr>ba_cursor := None\<rparr>))"
  by pat_completeness auto
termination
  by (relation "measure (\<lambda>(x, b). length (ba_regions b) - ba_region_idx b)") auto

declare seek_to_first_usable_frame.simps [simp del]

definition boot_new :: "phys_ops \<Rightarrow> region list \<Rightarrow> boot_alloc res" where
  "boot_new x regions = seek_to_first_usable_frame x
     \<lparr>ba_regions = regions, ba_region_idx = 0, ba_cursor = None, ba_consumed = 0\<rparr>"

definition boot_allocate :: "phys_ops \<Rightarrow> boot_alloc \<Rightarrow> (nat option \<times> boot_alloc) res" where
  "boot_allocate x b =
     (case ba_cursor b of
        None \<Rightarrow> Inr (None, b)
      | Some frame \<Rightarrow>
          rbind (add_u64 (ba_consumed b) 1) (\<lambda>n.
          rbind (seek_to_first_usable_frame x
                   (b\<lparr>ba_cursor := Some (frame_plus_one x frame), ba_consumed := n\<rparr>)) (\<lambda>b'.
          Inr (Some frame, b'))))"

definition boot_deallocate :: "boot_alloc \<Rightarrow> nat \<Rightarrow> boot_alloc" where
  "boot_deallocate b frame = b"

definition boot_frames_consumed :: "boot_alloc \<Rightarrow> nat" where
  "boot_frames_consumed b = ba_consumed b"

subsection \<open>The free list\<close>

record free_list =
  fl_head :: "nat option"
  fl_count :: nat
  fl_offset :: nat

definition fl_empty :: free_list where
  "fl_empty = \<lparr>fl_head = None, fl_count = 0, fl_offset = 0\<rparr>"

definition frame_to_virt :: "free_list \<Rightarrow> nat \<Rightarrow> nat res" where
  "frame_to_virt s frame = add_u64 (fl_offset s) frame"

definition fl_allocate :: "phys_ops \<Rightarrow> free_list \<times> memory \<Rightarrow> (nat option \<times> free_list \<times> memory) res" where
  "fl_allocate x sm = (let (s, m) = sm in
     case fl_head s of
       None \<Rightarrow> Inr (None, s, m)
     | Some head_phys \<Rightarrow>
         rbind (add_u64 (fl_offset s) head_phys) (\<lambda>head_virt.
         let next_phys = unat (load_u64 m head_virt);
             head' = (if next_phys = 0 then None else Some next_phys)
         in if fl_count s = 0 then Inl Overflow
            else Inr (Some (containing_address x head_phys),
                      s\<lparr>fl_head := head', fl_count := fl_count s - 1\<rparr>, m)))"

definition fl_deallocate :: "free_list \<times> memory \<Rightarrow> nat \<Rightarrow> (free_list \<times> memory) res" where
  "fl_deallocate sm frame = (let (s, m) = sm in
     rbind (frame_to_virt s frame) (\<lambda>virt.
     let old_head = (case fl_head s of None \<Rightarrow> 0 | Some h \<Rightarrow> h);
         m' = store_u64 m virt (word_of_nat old_head)
     in rbind (add_u64 (fl_count s) 1) (\<lambda>n.
        Inr (s\<lparr>fl_head := Some frame, fl_count := n\<rparr>, m'))))"

function fl_init_region ::
  "phys_ops \<Rightarrow> nat \<Rightarrow> nat \<Rightarrow> nat \<Rightarrow> free_list \<times> memory \<Rightarrow> (nat \<times> free_list \<times> memory) res" where
  "fl_init_region x addr end skip sm =
     (if addr + 4096 \<le> end then
        if skip > 0 then fl_init_region x (addr + 4096) end (skip - 1) sm
        else rbind (fl_deallocate sm (containing_address x addr)) (\<lambda>sm'.
             fl_init_region x (addr + 4096) end skip sm')
      else Inr (skip, sm))"
  by pat_completeness auto
termination
  by (relation "measure (\<lambda>(x, addr, end, skip, sm). end - addr)") auto

declare fl_init_region.simps [simp del]

fun fl_init_regions ::
  "phys_ops \<Rightarrow> region list \<Rightarrow> nat \<Rightarrow> free_list \<times> memory \<Rightarrow> (free_list \<times> memory) res" where
  "fl_init_regions x [] skip sm = Inr sm"
| "fl_init_regions x (r # rs) skip sm =
     (if r_kind r \<noteq> Usable then fl_init_regions x rs skip sm
      else rbind (fl_init_region x (r_start r) (r_end r) skip sm) (\<lambda>(skip', sm').
           fl_init_regions x rs skip' sm'))"

definition fl_init ::
  "phys_ops \<Rightarrow> region list \<Rightarrow> nat \<Rightarrow> nat \<Rightarrow> free_list \<times> memory \<Rightarrow> (free_list \<times> memory) res" where
  "fl_init x regions phys_offset skip sm =
     (let (s, m) = sm in fl_init_regions x regions skip (s\<lparr>fl_offset := phys_offset\<rparr>, m))"

definition fl_free_count :: "free_list \<Rightarrow> nat" where
  "fl_free_count s = fl_count s"

subsection \<open>The frames of the memory map\<close>

function frames_from :: "nat \<Rightarrow> nat \<Rightarrow> nat list" where
  "frames_from a e = (if a + 4096 \<le> e then a # frames_from (a + 4096) e else [])"
  by pat_completeness auto
termination
  by (relation "measure (\<lambda>(a, e). e - a)") auto

declare frames_from.simps [simp del]

definition usable_frames :: "region list \<Rightarrow> nat list" where
  "usable_frames rs = concat (map (\<lambda>r. frames_from (r_start r) (r_end r)) (filter (\<lambda>r. r_kind r = Usable) rs))"

definition page_aligned :: "region \<Rightarrow> bool" where
  "page_aligned r \<longleftrightarrow> 4096 dvd r_start r \<and> 4096 dvd r_end r \<and> 0 < r_end r"

lemma usable_frames_simps [simp]:
  "usable_frames [] = []"
  "usable_frames (r # rs) =
     (if r_kind r = Usable then frames_from (r_start r) (r_end r) else []) @ usable_frames rs"
  by (simp_all add: usable_frames_def)

lemma frames_from_Cons: "a + 4096 \<le> e \<Longrightarrow> frames_from a e = a # frames_from (a + 4096) e"
  and frames_from_Nil: "\<not> a + 4096 \<le> e \<Longrightarrow> frames_from a e = []"
  by (simp_all add: frames_from.simps [of a e])

lemma frames_from_aligned: "4096 dvd a \<Longrightarrow> f \<in> set (frames_from a e) \<Longrightarrow> 4096 dvd f"
proof (induction a e rule: frames_from.induct)
  case (1 a e)
  show ?case
  proof (cases "a + 4096 \<le> e")
    case True
    have "4096 dvd (a + 4096)" using "1.prems"(1) by simp
    with True "1.IH" "1.prems" show ?thesis by (auto simp: frames_from_Cons)
  next
    case False
    with "1.prems" show ?thesis by (simp add: frames_from_Nil)
  qed
qed

subsection \<open>The interface: a source of frames\<close>

fun allocate_n :: "('s \<Rightarrow> (nat option \<times> 's) res) \<Rightarrow> nat \<Rightarrow> 's \<Rightarrow> (nat list \<times> 's) res" where
  "allocate_n alloc 0 s = Inr ([], s)"
| "allocate_n alloc (Suc n) s =
     rbind (alloc s) (\<lambda>(r, s').
       case r of None \<Rightarrow> Inl ExpectFailed
               | Some f \<Rightarrow> rbind (allocate_n alloc n s') (\<lambda>(fs, s''). Inr (f # fs, s'')))"

locale frame_source =
  fixes alloc :: "'s \<Rightarrow> (nat option \<times> 's) res"
    and rep :: "'s \<Rightarrow> nat list \<Rightarrow> bool"
  assumes alloc_Nil: "rep s [] \<Longrightarrow> alloc s = Inr (None, s)"
    and alloc_Cons: "rep s (f # fs) \<Longrightarrow> \<exists>s'. alloc s = Inr (Some f, s') \<and> rep s' fs"
begin

lemma allocate_n_take:
  "rep s fs \<Longrightarrow> n \<le> length fs \<Longrightarrow>
   \<exists>s'. allocate_n alloc n s = Inr (take n fs, s') \<and> rep s' (drop n fs)"
proof (induction n arbitrary: s fs)
  case 0
  then show ?case by simp
next
  case (Suc n)
  then obtain f gs where fs: "fs = f # gs" by (cases fs) auto
  with Suc.prems obtain s1 where s1: "alloc s = Inr (Some f, s1)" "rep s1 gs"
    using alloc_Cons by blast
  with Suc.IH [of s1 gs] Suc.prems(2) fs show ?case by auto
qed

lemma allocate_n_exhausted: "rep s fs \<Longrightarrow> length fs < n \<Longrightarrow> allocate_n alloc n s = Inl ExpectFailed"
proof (induction n arbitrary: s fs)
  case 0
  then show ?case by simp
next
  case (Suc n)
  show ?case
  proof (cases fs)
    case Nil
    with Suc.prems show ?thesis by (simp add: alloc_Nil)
  next
    case (Cons f gs)
    with Suc.prems obtain s1 where "alloc s = Inr (Some f, s1)" "rep s1 gs"
      using alloc_Cons by blast
    with Suc.IH [of s1 gs] Suc.prems(2) Cons show ?thesis by simp
  qed
qed

end

locale frame_pool = frame_source +
  fixes dealloc :: "'s \<Rightarrow> nat \<Rightarrow> 's res"
    and returnable :: "'s \<Rightarrow> nat \<Rightarrow> bool"
  assumes dealloc_push:
    "rep s fs \<Longrightarrow> f \<notin> set fs \<Longrightarrow> returnable s f \<Longrightarrow> \<exists>s'. dealloc s f = Inr s' \<and> rep s' (f # fs)"
begin

lemma dealloc_then_alloc:
  assumes "rep s fs" and "f \<notin> set fs" and "returnable s f"
  shows "\<exists>s' s''. dealloc s f = Inr s' \<and> alloc s' = Inr (Some f, s'') \<and> rep s'' fs"
  using dealloc_push [OF assms] alloc_Cons by blast

end

subsection \<open>The boot allocator hands out the usable frames in order\<close>

definition boot_pending :: "boot_alloc \<Rightarrow> nat list" where
  "boot_pending b =
     (if ba_region_idx b < length (ba_regions b) then
        (case ba_cursor b of
           None \<Rightarrow> usable_frames (drop (ba_region_idx b) (ba_regions b))
         | Some c \<Rightarrow>
             (let r = ba_regions b ! ba_region_idx b
              in if r_kind r = Usable then frames_from c (r_end r) else []) @
             usable_frames (drop (ba_region_idx b + 1) (ba_regions b)))
      else [])"

definition boot_regions_ok :: "region list \<Rightarrow> bool" where
  "boot_regions_ok rs \<longleftrightarrow> (\<forall>r\<in>set rs. r_kind r = Usable \<longrightarrow> page_aligned r)"

definition boot_settled :: "boot_alloc \<Rightarrow> bool" where
  "boot_settled b \<longleftrightarrow>
     (case ba_cursor b of
        None \<Rightarrow> ba_region_idx b \<ge> length (ba_regions b)
      | Some c \<Rightarrow> ba_region_idx b < length (ba_regions b) \<and>
                  r_kind (ba_regions b ! ba_region_idx b) = Usable \<and>
                  c + 4096 \<le> r_end (ba_regions b ! ba_region_idx b))"

definition cursor_aligned :: "boot_alloc \<Rightarrow> bool" where
  "cursor_aligned b \<longleftrightarrow> (case ba_cursor b of None \<Rightarrow> True | Some c \<Rightarrow> 4096 dvd c)"

lemma last_frame_of_region:
  assumes "phys_laws x" and "page_aligned r" and "4096 dvd c"
  shows "c \<le> containing_address x (r_end r - 1) \<longleftrightarrow> c + 4096 \<le> r_end r"
proof -
  obtain k where k: "r_end r = 4096 * k" "0 < k"
    using assms(2) by (auto simp: page_aligned_def elim!: dvdE)
  then have "r_end r - 1 = 4096 * (k - 1) + 4095" by (cases k) auto
  then have "containing_address x (r_end r - 1) = 4096 * (k - 1)"
    using assms(1) by (simp add: phys_laws_def)
  moreover obtain j where "c = 4096 * j"
    using assms(3) by (elim dvdE)
  ultimately show ?thesis using k by auto
qed

lemma containing_aligned: "phys_laws x \<Longrightarrow> 4096 dvd a \<Longrightarrow> containing_address x a = a"
  by (simp add: phys_laws_def)

lemma seek_advance:
  assumes "ba_region_idx b < length (ba_regions b)"
    and "r_kind (ba_regions b ! ba_region_idx b) = Usable \<Longrightarrow>
         \<not> (case ba_cursor b of Some c \<Rightarrow> c | None \<Rightarrow> r_start (ba_regions b ! ba_region_idx b)) + 4096
           \<le> r_end (ba_regions b ! ba_region_idx b)"
  shows "boot_pending (b\<lparr>ba_region_idx := ba_region_idx b + 1, ba_cursor := None\<rparr>) = boot_pending b"
proof -
  let ?i = "ba_region_idx b" and ?rs = "ba_regions b"
  have "drop ?i ?rs = ?rs ! ?i # drop (Suc ?i) ?rs"
    using assms(1) by (simp add: Cons_nth_drop_Suc)
  then show ?thesis
    using assms by (auto simp: boot_pending_def Let_def frames_from_Nil split: option.splits)
qed

definition seek_post :: "boot_alloc \<Rightarrow> boot_alloc \<Rightarrow> bool" where
  "seek_post b b' \<longleftrightarrow> boot_settled b' \<and> cursor_aligned b' \<and> boot_pending b' = boot_pending b \<and>
     ba_regions b' = ba_regions b \<and> ba_consumed b' = ba_consumed b"

lemma seek_settles:
  "phys_laws x \<Longrightarrow> boot_regions_ok (ba_regions b) \<Longrightarrow> cursor_aligned b \<Longrightarrow>
         \<exists>b'. seek_to_first_usable_frame x b = Inr b' \<and> seek_post b b'"
proof (induction x b rule: seek_to_first_usable_frame.induct)
  case (1 x b)
  note x = "1.prems"(1)
  let ?i = "ba_region_idx b" and ?rs = "ba_regions b"
  let ?r = "?rs ! ?i"
  let ?next = "b\<lparr>ba_region_idx := ?i + 1, ba_cursor := None\<rparr>"
  let ?cand = "case ba_cursor b of Some c \<Rightarrow> c | None \<Rightarrow> r_start ?r"
  show ?case
  proof (cases "?i < length ?rs")
    case False
    then show ?thesis
      by (auto simp: seek_to_first_usable_frame.simps [of x b] seek_post_def boot_settled_def
          cursor_aligned_def boot_pending_def)
  next
    case idx: True
    have ok: "r_kind ?r = Usable \<Longrightarrow> page_aligned ?r"
      using idx "1.prems"(2) by (simp add: boot_regions_ok_def)
    have cand_al: "4096 dvd ?cand" if "r_kind ?r = Usable"
      using ok [OF that] "1.prems"(3) by (auto simp: cursor_aligned_def page_aligned_def split: option.splits)
    have cand_eq: "(case ba_cursor b of Some c \<Rightarrow> c | None \<Rightarrow> containing_address x (r_start ?r)) = ?cand"
      if "r_kind ?r = Usable"
      using ok [OF that] x by (auto simp: page_aligned_def containing_aligned split: option.splits)
    show ?thesis
    proof (cases "r_kind ?r = Usable \<and> ?cand + 4096 \<le> r_end ?r")
      case True
      have "?cand \<le> containing_address x (r_end ?r - 1)"
        using last_frame_of_region [OF x ok cand_al] True by simp
      then have "seek_to_first_usable_frame x b = Inr (b\<lparr>ba_cursor := Some ?cand\<rparr>)"
        using idx True ok cand_eq
        by (simp add: seek_to_first_usable_frame.simps [of x b] Let_def page_aligned_def)
      moreover have "seek_post b (b\<lparr>ba_cursor := Some ?cand\<rparr>)"
        using idx True cand_al
        by (auto simp: seek_post_def boot_settled_def cursor_aligned_def boot_pending_def
            Cons_nth_drop_Suc [symmetric] split: option.splits)
      ultimately show ?thesis by blast
    next
      case False
      have seek: "seek_to_first_usable_frame x b = seek_to_first_usable_frame x ?next"
        using idx False ok cand_eq last_frame_of_region [OF x ok cand_al]
        by (auto simp: seek_to_first_usable_frame.simps [of x b] Let_def page_aligned_def)
      have "\<exists>b'. seek_to_first_usable_frame x ?next = Inr b' \<and> seek_post ?next b'"
        using "1.IH" [OF idx refl x] "1.prems"(2) by (simp add: cursor_aligned_def)
      moreover have "boot_pending ?next = boot_pending b"
        using seek_advance [OF idx] False by blast
      ultimately show ?thesis unfolding seek seek_post_def by auto
    qed
  qed
qed

definition boot_rep :: "phys_ops \<Rightarrow> boot_alloc \<Rightarrow> nat list \<Rightarrow> bool" where
  "boot_rep x b fs \<longleftrightarrow> phys_laws x \<and> boot_regions_ok (ba_regions b) \<and> cursor_aligned b \<and>
     boot_settled b \<and> boot_pending b = fs \<and> ba_consumed b + length fs < U64_LIMIT"

lemma boot_settled_pending:
  "boot_settled b \<Longrightarrow> boot_pending b =
     (case ba_cursor b of
        None \<Rightarrow> []
      | Some c \<Rightarrow> c # boot_pending (b\<lparr>ba_cursor := Some (c + 4096), ba_consumed := n\<rparr>))"
  by (auto simp: boot_settled_def boot_pending_def frames_from_Cons split: option.splits)

lemma boot_allocate_Cons:
  assumes "boot_rep x b (f # fs)"
  shows "\<exists>b'. boot_allocate x b = Inr (Some f, b') \<and> boot_rep x b' fs \<and>
              ba_consumed b' = ba_consumed b + 1"
proof -
  have x: "phys_laws x" and settled: "boot_settled b" and pend: "boot_pending b = f # fs"
    using assms by (auto simp: boot_rep_def)
  then obtain c where c: "ba_cursor b = Some c"
    using boot_settled_pending [OF settled, of 0] by (cases "ba_cursor b") auto
  let ?b1 = "b\<lparr>ba_cursor := Some (c + 4096), ba_consumed := ba_consumed b + 1\<rparr>"
  have cf: "c = f" and pend1: "boot_pending ?b1 = fs"
    using boot_settled_pending [OF settled, of "ba_consumed b + 1"] pend c by auto
  have "cursor_aligned ?b1" "boot_regions_ok (ba_regions ?b1)"
    using assms c by (auto simp: boot_rep_def cursor_aligned_def)
  then obtain b' where b': "seek_to_first_usable_frame x ?b1 = Inr b'" "seek_post ?b1 b'"
    using seek_settles [OF x] by blast
  have "boot_allocate x b = Inr (Some f, b')"
    using assms c cf b'(1) x by (simp add: boot_allocate_def boot_rep_def phys_laws_def add_u64_def)
  moreover have "boot_rep x b' fs"
    using assms b'(2) pend1 by (auto simp: boot_rep_def seek_post_def)
  ultimately show ?thesis using b'(2) by (auto simp: seek_post_def)
qed

lemma boot_allocate_Nil:
  assumes "boot_rep x b []"
  shows "boot_allocate x b = Inr (None, b)"
proof -
  have "ba_cursor b = None"
    using assms boot_settled_pending [of b 0] by (cases "ba_cursor b") (auto simp: boot_rep_def)
  then show ?thesis by (simp add: boot_allocate_def)
qed

lemma boot_new_rep:
  assumes "phys_laws x" and "boot_regions_ok rs" and "length (usable_frames rs) < U64_LIMIT"
  shows "\<exists>b. boot_new x rs = Inr b \<and> boot_rep x b (usable_frames rs) \<and> ba_consumed b = 0"
proof -
  let ?b0 = "\<lparr>ba_regions = rs, ba_region_idx = 0, ba_cursor = None, ba_consumed = 0\<rparr>"
  have "boot_pending ?b0 = usable_frames rs" by (cases rs) (simp_all add: boot_pending_def)
  then show ?thesis
    using seek_settles [of x ?b0] assms
    by (auto simp: boot_new_def boot_rep_def seek_post_def cursor_aligned_def)
qed

interpretation boot: frame_source "boot_allocate x" "boot_rep x" for x
proof unfold_locales
  show "boot_allocate x b = Inr (None, b)" if "boot_rep x b []" for b
    using that by (rule boot_allocate_Nil)
  show "\<exists>b'. boot_allocate x b = Inr (Some f, b') \<and> boot_rep x b' fs" if "boot_rep x b (f # fs)" for b f fs
    using boot_allocate_Cons [OF that] by blast
qed

lemma boot_allocate_n_consumed:
  "boot_rep x b fs \<Longrightarrow> n \<le> length fs \<Longrightarrow>
   \<exists>b'. allocate_n (boot_allocate x) n b = Inr (take n fs, b') \<and> boot_rep x b' (drop n fs) \<and>
        ba_consumed b' = ba_consumed b + n"
proof (induction n arbitrary: b fs)
  case 0
  then show ?case by simp
next
  case (Suc n)
  then obtain f gs where fs: "fs = f # gs" by (cases fs) auto
  with Suc.prems obtain b1 where b1: "boot_allocate x b = Inr (Some f, b1)" "boot_rep x b1 gs"
      "ba_consumed b1 = ba_consumed b + 1"
    using boot_allocate_Cons by blast
  with Suc.IH [of b1 gs] Suc.prems(2) fs show ?case by auto
qed

subsection \<open>The free list as a list of frames\<close>

definition fl_next :: "memory \<Rightarrow> nat \<Rightarrow> nat \<Rightarrow> nat option" where
  "fl_next m off f = (let n = unat (load_u64 m (off + f)) in if n = 0 then None else Some n)"

fun fl_chain :: "memory \<Rightarrow> nat \<Rightarrow> nat option \<Rightarrow> nat list \<Rightarrow> bool" where
  "fl_chain m off h [] \<longleftrightarrow> h = None"
| "fl_chain m off h (f # fs) \<longleftrightarrow> h = Some f \<and> fl_chain m off (fl_next m off f) fs"

definition frame_ok :: "nat \<Rightarrow> nat \<Rightarrow> bool" where
  "frame_ok off f \<longleftrightarrow> f \<noteq> 0 \<and> 4096 dvd f \<and> off + f < U64_LIMIT"

definition fl_rep :: "phys_ops \<Rightarrow> free_list \<times> memory \<Rightarrow> nat list \<Rightarrow> bool" where
  "fl_rep x sm fs \<longleftrightarrow> (let (s, m) = sm in
     phys_laws x \<and> fl_chain m (fl_offset s) (fl_head s) fs \<and> distinct fs \<and>
     (\<forall>f\<in>set fs. frame_ok (fl_offset s) f) \<and> fl_count s = length fs)"

definition fl_returnable :: "free_list \<times> memory \<Rightarrow> nat \<Rightarrow> bool" where
  "fl_returnable sm f \<longleftrightarrow> frame_ok (fl_offset (fst sm)) f"

lemma frames_apart: "frame_ok off f \<Longrightarrow> frame_ok off g \<Longrightarrow> f \<noteq> g \<Longrightarrow> f + 4096 \<le> g \<or> g + 4096 \<le> f"
proof -
  assume "frame_ok off f" "frame_ok off g" "f \<noteq> g"
  then obtain i j where "f = 4096 * i" "g = 4096 * j" "i \<noteq> j"
    by (auto simp: frame_ok_def elim!: dvdE)
  then show ?thesis by auto
qed

lemma fl_chain_store:
  "(\<forall>f\<in>set fs. frame_ok off f) \<Longrightarrow> frame_ok off g \<Longrightarrow> g \<notin> set fs \<Longrightarrow>
   fl_chain (store_u64 m (off + g) v) off h fs = fl_chain m off h fs"
proof (induction fs arbitrary: h)
  case Nil
  then show ?case by simp
next
  case (Cons f fs)
  then have "f + 4096 \<le> g \<or> g + 4096 \<le> f" using frames_apart [of off f g] by auto
  then have "fl_next (store_u64 m (off + g) v) off f = fl_next m off f"
    unfolding fl_next_def by (subst load_store_u64_other) auto
  with Cons show ?case by simp
qed

lemma frames_bounded:
  assumes "distinct fs" and "\<forall>f\<in>set fs. frame_ok off f"
  shows "length fs \<le> 2 ^ 52"
proof -
  have "set fs \<subseteq> (\<lambda>k. 4096 * k) ` {..<2 ^ 52}"
  proof
    fix f assume "f \<in> set fs"
    with assms(2) obtain k where "f = 4096 * k" "off + f < 2 ^ 64"
      by (auto simp: frame_ok_def U64_LIMIT_def elim!: dvdE)
    then show "f \<in> (\<lambda>k. 4096 * k) ` {..<2 ^ 52}" by auto
  qed
  then have "card (set fs) \<le> card ((\<lambda>k. 4096 * k) ` {..<(2 :: nat) ^ 52})"
    by (intro card_mono) auto
  also have "\<dots> \<le> 2 ^ 52" using card_image_le [of "{..<(2 :: nat) ^ 52}" "\<lambda>k. 4096 * k"] by simp
  finally show ?thesis using assms(1) by (simp add: distinct_card)
qed

lemma unat_frame: "frame_ok off f \<Longrightarrow> unat (word_of_nat f :: u64) = f"
  by (auto simp: frame_ok_def U64_LIMIT_def unat_of_nat)

lemma fl_allocate_Nil: "fl_rep x sm [] \<Longrightarrow> fl_allocate x sm = Inr (None, sm)"
  by (auto simp: fl_rep_def fl_allocate_def)

lemma fl_allocate_Cons:
  assumes "fl_rep x sm (f # fs)"
  shows "\<exists>sm'. fl_allocate x sm = Inr (Some f, sm') \<and> fl_rep x sm' fs \<and>
               fl_offset (fst sm') = fl_offset (fst sm) \<and> snd sm' = snd sm"
proof -
  obtain s m where sm: "sm = (s, m)" by force
  let ?s' = "s\<lparr>fl_head := fl_next m (fl_offset s) f, fl_count := length fs\<rparr>"
  have "fl_allocate x sm = Inr (Some f, ?s', m)"
    using assms sm
    by (auto simp: fl_allocate_def fl_rep_def fl_next_def frame_ok_def add_u64_def containing_aligned Let_def)
  moreover have "fl_rep x (?s', m) fs" using assms sm by (simp add: fl_rep_def)
  ultimately show ?thesis using sm by (intro exI [of _ "(?s', m)"]) simp
qed

lemma fl_deallocate_push:
  assumes "fl_rep x sm fs" and "f \<notin> set fs" and "fl_returnable sm f"
  shows "\<exists>sm'. fl_deallocate sm f = Inr sm' \<and> fl_rep x sm' (f # fs) \<and>
               fl_offset (fst sm') = fl_offset (fst sm)"
proof -
  obtain s m where sm: "sm = (s, m)" by force
  let ?off = "fl_offset s"
  let ?old = "case fl_head s of None \<Rightarrow> 0 | Some h \<Rightarrow> h"
  let ?m' = "store_u64 m (?off + f) (word_of_nat ?old)"
  let ?s' = "s\<lparr>fl_head := Some f, fl_count := fl_count s + 1\<rparr>"
  have f: "frame_ok ?off f" and oks: "\<forall>g\<in>set fs. frame_ok ?off g" and dist: "distinct fs"
    and chain: "fl_chain m ?off (fl_head s) fs" and cnt: "fl_count s = length fs"
    using assms sm by (auto simp: fl_rep_def fl_returnable_def)
  have "length fs \<le> 2 ^ 52" using dist oks by (rule frames_bounded)
  then have "fl_deallocate sm f = Inr (?s', ?m')"
    using sm f cnt by (simp add: fl_deallocate_def frame_to_virt_def frame_ok_def add_u64_def U64_LIMIT_def Let_def)
  moreover have "fl_next ?m' ?off f = fl_head s"
    using chain oks by (cases fs) (auto simp: fl_next_def unat_frame Let_def frame_ok_def)
  then have "fl_rep x (?s', ?m') (f # fs)"
    using assms sm f oks chain cnt fl_chain_store [OF oks f] by (simp add: fl_rep_def)
  ultimately show ?thesis using sm by (intro exI [of _ "(?s', ?m')"]) simp
qed

lemma fl_chain_cong:
  "(\<And>f k. f \<in> set fs \<Longrightarrow> k < 8 \<Longrightarrow> m' (off + f + k) = m (off + f + k)) \<Longrightarrow>
   fl_chain m' off h fs = fl_chain m off h fs"
proof (induction fs arbitrary: h)
  case Nil
  then show ?case by simp
next
  case (Cons f fs)
  have "load_u64 m' (off + f) = load_u64 m (off + f)" using Cons.prems by (intro load_u64_cong) simp
  then have "fl_next m' off f = fl_next m off f" by (simp add: fl_next_def)
  then show ?case using Cons by simp
qed

lemma fl_rep_memory:
  assumes "fl_rep x (s, m) fs"
    and "\<And>f a. f \<in> set fs \<Longrightarrow> fl_offset s + f \<le> a \<Longrightarrow> a < fl_offset s + f + 4096 \<Longrightarrow> m' a = m a"
  shows "fl_rep x (s, m') fs"
  using assms(1) fl_chain_cong [of fs m' "fl_offset s" m "fl_head s"] assms(2) by (simp add: fl_rep_def)

interpretation fl: frame_pool "fl_allocate x" "fl_rep x" fl_deallocate fl_returnable for x
proof unfold_locales
  show "fl_allocate x s = Inr (None, s)" if "fl_rep x s []" for s
    using that by (rule fl_allocate_Nil)
  show "\<exists>s'. fl_allocate x s = Inr (Some f, s') \<and> fl_rep x s' fs" if "fl_rep x s (f # fs)" for s f fs
    using fl_allocate_Cons [OF that] by blast
  show "\<exists>s'. fl_deallocate s f = Inr s' \<and> fl_rep x s' (f # fs)"
    if "fl_rep x s fs" "f \<notin> set fs" "fl_returnable s f" for s fs f
    using fl_deallocate_push [OF that] by blast
qed

text \<open>The same contract with the physical-memory offset made explicit, for the clients that map frames.\<close>

definition fl_rep_at :: "phys_ops \<Rightarrow> nat \<Rightarrow> free_list \<times> memory \<Rightarrow> nat list \<Rightarrow> bool" where
  "fl_rep_at x off sm fs \<longleftrightarrow> fl_rep x sm fs \<and> fl_offset (fst sm) = off"

interpretation fla: frame_pool "fl_allocate x" "fl_rep_at x off" fl_deallocate fl_returnable for x off
proof unfold_locales
  show "fl_allocate x s = Inr (None, s)" if "fl_rep_at x off s []" for s
    using that fl_allocate_Nil by (simp add: fl_rep_at_def)
  show "\<exists>s'. fl_allocate x s = Inr (Some f, s') \<and> fl_rep_at x off s' fs" if "fl_rep_at x off s (f # fs)" for s f fs
    using that fl_allocate_Cons [of x s f fs] unfolding fl_rep_at_def by metis
  show "\<exists>s'. fl_deallocate s f = Inr s' \<and> fl_rep_at x off s' (f # fs)"
    if "fl_rep_at x off s fs" "f \<notin> set fs" "fl_returnable s f" for s fs f
    using that fl_deallocate_push [of x s fs f] unfolding fl_rep_at_def by metis
qed

lemma fl_rep_at_memory:
  assumes "fl_rep_at x off (s, m) fs"
    and "\<And>f a. f \<in> set fs \<Longrightarrow> off + f \<le> a \<Longrightarrow> a < off + f + 4096 \<Longrightarrow> m' a = m a"
  shows "fl_rep_at x off (s, m') fs"
  using assms fl_rep_memory [of x s m fs m'] by (simp add: fl_rep_at_def)

subsection \<open>Initialisation from the memory map\<close>

lemma fl_init_region_frames:
  "fl_rep x sm fs \<Longrightarrow> 4096 dvd a \<Longrightarrow>
   distinct (frames_from a e) \<Longrightarrow> set (frames_from a e) \<inter> set fs = {} \<Longrightarrow>
   \<forall>f\<in>set (frames_from a e). frame_ok (fl_offset (fst sm)) f \<Longrightarrow>
   \<exists>sm'. fl_init_region x a e skip sm = Inr (skip - length (frames_from a e), sm') \<and>
         fl_rep x sm' (rev (drop skip (frames_from a e)) @ fs) \<and>
         fl_offset (fst sm') = fl_offset (fst sm)"
proof (induction x a e skip sm arbitrary: fs rule: fl_init_region.induct)
  case (1 x a e skip sm)
  show ?case
  proof (cases "a + 4096 \<le> e")
    case False
    with "1.prems" show ?thesis by (simp add: fl_init_region.simps [of x a e] frames_from_Nil)
  next
    case True
    note Cons = frames_from_Cons [OF True]
    have x: "phys_laws x" using "1.prems"(1) by (simp add: fl_rep_def split: prod.splits)
    have al: "4096 dvd a + 4096" using "1.prems"(2) by simp
    show ?thesis
    proof (cases "skip > 0")
      case skip: True
      then show ?thesis
        using "1.IH"(1) [OF True skip "1.prems"(1) al] "1.prems"(3-5)
        by (cases skip) (auto simp: fl_init_region.simps [of x a e] Cons True)
    next
      case False
      have "a \<notin> set fs" "fl_returnable sm a"
        using "1.prems"(4,5) by (auto simp: Cons fl_returnable_def)
      then obtain sm1 where sm1: "fl_deallocate sm a = Inr sm1" "fl_rep x sm1 (a # fs)"
          "fl_offset (fst sm1) = fl_offset (fst sm)"
        using fl_deallocate_push [OF "1.prems"(1)] by blast
      then show ?thesis
        using "1.IH"(2) [OF True False, of sm1 "a # fs"] "1.prems"(2-5) al False
        by (auto simp: fl_init_region.simps [of x a e] Cons True containing_aligned [OF x])
    qed
  qed
qed

lemma fl_init_regions_frames:
  "fl_rep x sm fs \<Longrightarrow> boot_regions_ok rs \<Longrightarrow>
   distinct (usable_frames rs) \<Longrightarrow> set (usable_frames rs) \<inter> set fs = {} \<Longrightarrow>
   \<forall>f\<in>set (usable_frames rs). frame_ok (fl_offset (fst sm)) f \<Longrightarrow>
   \<exists>sm'. fl_init_regions x rs skip sm = Inr sm' \<and>
         fl_rep x sm' (rev (drop skip (usable_frames rs)) @ fs) \<and> fl_offset (fst sm') = fl_offset (fst sm)"
proof (induction rs arbitrary: skip sm fs)
  case Nil
  then show ?case by simp
next
  case (Cons r rs)
  have ok: "boot_regions_ok rs" using Cons.prems(2) by (simp add: boot_regions_ok_def)
  show ?case
  proof (cases "r_kind r = Usable")
    case False
    with Cons ok show ?thesis by simp
  next
    case True
    let ?F = "frames_from (r_start r) (r_end r)"
    have "4096 dvd r_start r" using Cons.prems(2) True by (simp add: boot_regions_ok_def page_aligned_def)
    then obtain sm1 where sm1: "fl_init_region x (r_start r) (r_end r) skip sm = Inr (skip - length ?F, sm1)"
        "fl_rep x sm1 (rev (drop skip ?F) @ fs)" "fl_offset (fst sm1) = fl_offset (fst sm)"
      using fl_init_region_frames [OF Cons.prems(1), of "r_start r" "r_end r" skip] Cons.prems(3-5) True
      by (auto simp: Int_Un_distrib2)
    have "set (usable_frames rs) \<inter> set (rev (drop skip ?F) @ fs) = {}"
      using Cons.prems(3,4) True set_drop_subset [of skip ?F] by auto
    then show ?thesis
      using Cons.IH [OF sm1(2) ok] Cons.prems(3,5) True sm1 by (auto simp: drop_append)
  qed
qed

lemma fl_rep_empty: "phys_laws x \<Longrightarrow> fl_rep x (fl_empty\<lparr>fl_offset := off\<rparr>, m) []"
  by (simp add: fl_rep_def fl_empty_def)

definition map_ok :: "region list \<Rightarrow> nat \<Rightarrow> bool" where
  "map_ok rs off \<longleftrightarrow> boot_regions_ok rs \<and> distinct (usable_frames rs) \<and>
     (\<forall>f\<in>set (usable_frames rs). frame_ok off f)"

lemma map_ok_length: "map_ok rs off \<Longrightarrow> length (usable_frames rs) < U64_LIMIT"
  using frames_bounded [of "usable_frames rs" off] by (auto simp: map_ok_def U64_LIMIT_def)

subsection \<open>Properties\<close>

text \<open>
  Hand-over from the boot allocator to the free list: on a page-aligned memory map, after
  any number \<open>n\<close> of boot allocations (heap pages and page tables), initialising the free list with
  \<^verbatim>\<open>skip = frames_consumed()\<close> succeeds and pools exactly the usable frames that were not handed
  out; no frame is owned twice and none is lost.
\<close>

theorem boot_handover:
  assumes x: "phys_laws x" and map: "map_ok rs off" and n: "n \<le> length (usable_frames rs)"
  shows "\<exists>b b' taken sm fs.
     boot_new x rs = Inr b \<and> allocate_n (boot_allocate x) n b = Inr (taken, b') \<and>
     fl_init x rs off (boot_frames_consumed b') (fl_empty, m) = Inr sm \<and>
     fl_rep x sm fs \<and> length taken = n \<and> set taken \<inter> set fs = {} \<and>
     set taken \<union> set fs = set (usable_frames rs)"
proof -
  let ?U = "usable_frames rs"
  have ok: "boot_regions_ok rs" and dist: "distinct ?U" and fok: "\<forall>f\<in>set ?U. frame_ok off f"
    using map by (auto simp: map_ok_def)
  obtain b where b: "boot_new x rs = Inr b" "boot_rep x b ?U" "ba_consumed b = 0"
    using boot_new_rep [OF x ok map_ok_length [OF map]] by blast
  obtain b' where b': "allocate_n (boot_allocate x) n b = Inr (take n ?U, b')" "ba_consumed b' = n"
    using boot_allocate_n_consumed [OF b(2) n] b(3) by auto
  obtain sm where sm: "fl_init x rs off n (fl_empty, m) = Inr sm" "fl_rep x sm (rev (drop n ?U))"
    using fl_init_regions_frames [OF fl_rep_empty [OF x, of off m] ok dist, of n] fok
    by (auto simp: fl_init_def)
  have "set (take n ?U) \<inter> set (drop n ?U) = {}" using dist by (rule set_take_disj_set_drop_if_distinct) simp
  moreover have "set (take n ?U) \<union> set (drop n ?U) = set ?U"
    by (metis append_take_drop_id set_append)
  ultimately show ?thesis
    using b b' sm n by (intro exI [of _ b] exI [of _ b'] exI [of _ "take n ?U"] exI [of _ sm]
        exI [of _ "rev (drop n ?U)"]) (simp add: boot_frames_consumed_def)
qed

definition example_phys :: phys_ops where
  "example_phys = \<lparr>containing_address = (\<lambda>a. a - a mod 4096), frame_plus_one = (\<lambda>f. f + 4096)\<rparr>"

definition example_map :: "region list" where
  "example_map = [\<lparr>r_start = 4096, r_end = 12288, r_kind = Usable\<rparr>,
                  \<lparr>r_start = 12288, r_end = 16384, r_kind = OtherKind 1\<rparr>,
                  \<lparr>r_start = 16384, r_end = 24576, r_kind = Usable\<rparr>]"

lemma example_phys_laws: "phys_laws example_phys"
  by (simp add: phys_laws_def example_phys_def)

lemma example_frames: "usable_frames example_map = [4096, 8192, 16384, 20480]"
  by (simp add: example_map_def frames_from_Cons frames_from_Nil)

lemma example_map_ok: "map_ok example_map 0xFFFF800000000000"
  unfolding map_ok_def example_frames
  by (simp add: frame_ok_def U64_LIMIT_def boot_regions_ok_def page_aligned_def example_map_def)

lemma example_pool: "\<exists>sm. fl_rep_at example_phys 0xFFFF800000000000 sm [20480, 16384, 8192, 4096]"
proof -
  have "boot_regions_ok example_map" "distinct (usable_frames example_map)"
    "\<forall>f\<in>set (usable_frames example_map). frame_ok 0xFFFF800000000000 f"
    using example_map_ok by (auto simp: map_ok_def)
  then show ?thesis
    using fl_init_regions_frames [OF fl_rep_empty [OF example_phys_laws, of "0xFFFF800000000000" "\<lambda>_. 0"], of example_map 0]
    by (auto simp: fl_rep_at_def example_frames)
qed

theorem boot_handover_witness:
  "\<exists>b b' taken sm fs.
     boot_new example_phys example_map = Inr b \<and>
     allocate_n (boot_allocate example_phys) 3 b = Inr (taken, b') \<and>
     fl_init example_phys example_map 0xFFFF800000000000 (boot_frames_consumed b') (fl_empty, (\<lambda>_. 0)) = Inr sm \<and>
     fl_rep example_phys sm fs \<and> length taken = 3 \<and> set taken \<inter> set fs = {} \<and>
     set taken \<union> set fs = set (usable_frames example_map)"
  by (rule boot_handover [OF example_phys_laws example_map_ok]) (simp add: example_frames)

text \<open>
  C18. The free list refines a stack of frames: from a state whose chain through memory is
  \<open>fs\<close>, returning a frame that is not in the pool and then allocating \<open>n + 1\<close> frames yields that
  frame first and then the first \<open>n\<close> of \<open>fs\<close>, leaves the rest in order, and keeps
  \<^verbatim>\<open>free_count\<close> equal to the number of pooled frames.
\<close>

theorem free_list_stack:
  assumes "fl_rep x sm fs" and "f \<notin> set fs" and "fl_returnable sm f" and "n \<le> length fs"
  shows "\<exists>sm' sm''. fl_deallocate sm f = Inr sm' \<and> fl_free_count (fst sm') = length fs + 1 \<and>
     allocate_n (fl_allocate x) (Suc n) sm' = Inr (f # take n fs, sm'') \<and>
     fl_rep x sm'' (drop n fs) \<and> fl_free_count (fst sm'') = length fs - n"
proof -
  obtain sm' where sm': "fl_deallocate sm f = Inr sm'" "fl_rep x sm' (f # fs)"
    using fl.dealloc_push [OF assms(1-3)] by blast
  then obtain sm'' where "allocate_n (fl_allocate x) (Suc n) sm' = Inr (take (Suc n) (f # fs), sm'')"
      "fl_rep x sm'' (drop (Suc n) (f # fs))"
    using fl.allocate_n_take [OF sm'(2), of "Suc n"] assms(4) by auto
  with sm' show ?thesis
    by (auto simp: fl_free_count_def fl_rep_def split: prod.splits)
qed

theorem free_list_stack_witness:
  "\<exists>sm' sm''. fl_deallocate (fl_empty, (\<lambda>_. 0)) 8192 = Inr sm' \<and>
     fl_free_count (fst sm') = length ([] :: nat list) + 1 \<and>
     allocate_n (fl_allocate example_phys) (Suc 0) sm' = Inr (8192 # take 0 [], sm'') \<and>
     fl_rep example_phys sm'' (drop 0 []) \<and> fl_free_count (fst sm'') = length ([] :: nat list) - 0"
proof (rule free_list_stack)
  show "fl_rep example_phys (fl_empty, (\<lambda>_. 0)) []"
    by (simp add: fl_rep_def fl_empty_def example_phys_laws)
qed (simp_all add: fl_returnable_def frame_ok_def fl_empty_def U64_LIMIT_def)

end
