(* ===== verification/Paging.thy ===== *)
theory Paging
  imports Frames
begin

text \<open>
  The page mapper of \<^verbatim>\<open>arch/paging.rs\<close>. Page tables and their walks belong to the x86_64 crate:
  the record \<open>pt_ops\<close> holds the operations the kernel calls, as a parameter over an abstract
  page table \<open>'pt\<close> and frame allocator \<open>'fa\<close>. Their documented behaviour is the hypothesis
  \<open>pt_laws\<close>, stated through a view of the table as a finite map from pages to frames and flags.
  Pages and frames are named by their start addresses.
\<close>

datatype pflag = PRESENT | WRITABLE | USER_ACCESSIBLE | ACCESSED | DIRTY

type_synonym pflags = "pflag set"

record ('pt, 'fa) pt_ops =
  page_of :: "nat \<Rightarrow> nat"                      \<comment> \<open>\<^verbatim>\<open>Page::containing_address\<close>\<close>
  page_range_inclusive :: "nat \<Rightarrow> nat \<Rightarrow> nat list"
  map_to :: "'pt \<Rightarrow> nat \<Rightarrow> nat \<Rightarrow> pflags \<Rightarrow> 'fa \<Rightarrow> ('pt \<times> 'fa) option"
  unmap :: "'pt \<Rightarrow> nat \<Rightarrow> (nat \<times> 'pt) option"
  translate :: "'pt \<Rightarrow> nat \<Rightarrow> (nat \<times> pflags) option"   \<comment> \<open>physical address and leaf flags\<close>
  update_flags :: "'pt \<Rightarrow> nat \<Rightarrow> pflags \<Rightarrow> 'pt option"

definition PHYS_MEM_OFFSET :: nat where
  "PHYS_MEM_OFFSET = 0xFFFF800000000000"

definition map_page :: "('pt, 'fa) pt_ops \<Rightarrow> 'pt \<Rightarrow> nat \<Rightarrow> nat \<Rightarrow> pflags \<Rightarrow> 'fa \<Rightarrow> ('pt \<times> 'fa) res" where
  "map_page P pt page frame flags fa =
     (case map_to P pt page frame flags fa of None \<Rightarrow> Inl ExpectFailed | Some r \<Rightarrow> Inr r)"

definition unmap_page :: "('pt, 'fa) pt_ops \<Rightarrow> 'pt \<Rightarrow> nat \<Rightarrow> (nat \<times> 'pt) res" where
  "unmap_page P pt page = (case unmap P pt page of None \<Rightarrow> Inl ExpectFailed | Some r \<Rightarrow> Inr r)"

definition translate_addr :: "('pt, 'fa) pt_ops \<Rightarrow> 'pt \<Rightarrow> nat \<Rightarrow> nat option" where
  "translate_addr P pt virt = map_option fst (translate P pt virt)"

definition page_flags :: "('pt, 'fa) pt_ops \<Rightarrow> 'pt \<Rightarrow> nat \<Rightarrow> pflags option" where
  "page_flags P pt addr = map_option snd (translate P pt addr)"

definition remap_flags :: "('pt, 'fa) pt_ops \<Rightarrow> 'pt \<Rightarrow> nat \<Rightarrow> pflags \<Rightarrow> 'pt res" where
  "remap_flags P pt page new_flags =
     (case update_flags P pt page new_flags of None \<Rightarrow> Inl ExpectFailed | Some pt' \<Rightarrow> Inr pt')"

definition clear_accessed :: "('pt, 'fa) pt_ops \<Rightarrow> 'pt \<Rightarrow> nat \<Rightarrow> 'pt" where
  "clear_accessed P pt page =
     (case page_flags P pt page of
        None \<Rightarrow> pt
      | Some flags \<Rightarrow>
          if ACCESSED \<in> flags then
            (case update_flags P pt page (flags - {ACCESSED}) of None \<Rightarrow> pt | Some pt' \<Rightarrow> pt')
          else pt)"

text \<open>
  The mapping loop shared by \<^verbatim>\<open>heap::init\<close> and \<^verbatim>\<open>RamDisk::new\<close>: one fresh frame per page.
\<close>

fun map_range :: "('pt, 'fa) pt_ops \<Rightarrow> ('fa \<Rightarrow> (nat option \<times> 'fa) res) \<Rightarrow> pflags \<Rightarrow> nat list \<Rightarrow>
    'pt \<Rightarrow> 'fa \<Rightarrow> (nat list \<times> 'pt \<times> 'fa) res" where
  "map_range P alloc flags [] pt fa = Inr ([], pt, fa)"
| "map_range P alloc flags (page # pages) pt fa =
     rbind (alloc fa) (\<lambda>(r, fa1).
       case r of
         None \<Rightarrow> Inl ExpectFailed
       | Some frame \<Rightarrow>
           rbind (map_page P pt page frame flags fa1) (\<lambda>(pt1, fa2).
           rbind (map_range P alloc flags pages pt1 fa2) (\<lambda>(frames, pt2, fa3).
           Inr (frame # frames, pt2, fa3))))"

subsection \<open>Documented behaviour of the page tables\<close>

type_synonym pt_view = "nat \<rightharpoonup> nat \<times> pflags"

definition page_start :: "nat \<Rightarrow> nat" where
  "page_start a = a - a mod 4096"

text \<open>
  \<open>rep fa fs\<close> says that the allocator will hand out the frames \<open>fs\<close> in this order; mapping a
  page may take some of them for intermediate tables, at most three.
\<close>

definition pt_laws ::
  "('pt, 'fa) pt_ops \<Rightarrow> ('pt \<Rightarrow> pt_view) \<Rightarrow> ('fa \<Rightarrow> nat list \<Rightarrow> bool) \<Rightarrow> bool" where
  "pt_laws P view rep \<longleftrightarrow>
     (\<forall>a. page_of P a = page_start a) \<and>
     (\<forall>a b. page_range_inclusive P a b = map (\<lambda>k. a + 4096 * k) [0 ..< (b + 4096 - a) div 4096]) \<and>
     (\<forall>pt a. translate P pt a =
        (case view pt (page_start a) of None \<Rightarrow> None | Some (f, fl) \<Rightarrow> Some (f + a mod 4096, fl))) \<and>
     (\<forall>pt p. unmap P pt p = None \<longleftrightarrow> view pt p = None) \<and>
     (\<forall>pt p f pt'. unmap P pt p = Some (f, pt') \<longrightarrow>
        (\<exists>fl. view pt p = Some (f, fl)) \<and> view pt' = (view pt)(p := None)) \<and>
     (\<forall>pt p fl. update_flags P pt p fl = None \<longleftrightarrow> view pt p = None) \<and>
     (\<forall>pt p fl pt'. update_flags P pt p fl = Some pt' \<longrightarrow>
        (\<exists>f fl0. view pt p = Some (f, fl0) \<and> view pt' = (view pt)(p \<mapsto> (f, fl)))) \<and>
     (\<forall>pt p f fl fa fs. rep fa fs \<longrightarrow> 3 \<le> length fs \<longrightarrow> view pt p = None \<longrightarrow>
        map_to P pt p f fl fa \<noteq> None) \<and>
     (\<forall>pt p f fl fa pt' fa' fs. rep fa fs \<longrightarrow> map_to P pt p f fl fa = Some (pt', fa') \<longrightarrow>
        view pt p = None \<and> view pt' = (view pt)(p \<mapsto> (f, fl)) \<and> (\<exists>n\<le>3. rep fa' (drop n fs)))"

lemma pt_laws_page_of: "pt_laws P view rep \<Longrightarrow> page_of P a = page_start a"
  by (simp add: pt_laws_def)

lemma pt_laws_range: "pt_laws P view rep \<Longrightarrow>
    page_range_inclusive P a b = map (\<lambda>k. a + 4096 * k) [0 ..< (b + 4096 - a) div 4096]"
  by (simp add: pt_laws_def)

lemma pt_laws_translate: "pt_laws P view rep \<Longrightarrow>
    translate P pt a = (case view pt (page_start a) of None \<Rightarrow> None | Some (f, fl) \<Rightarrow> Some (f + a mod 4096, fl))"
  by (simp add: pt_laws_def)

lemma pt_laws_map:
  assumes "pt_laws P view rep" "rep fa fs" "map_page P pt p f fl fa = Inr (pt', fa')"
  shows "view pt p = None" "view pt' = (view pt)(p \<mapsto> (f, fl))" "\<exists>n\<le>3. rep fa' (drop n fs)"
proof -
  have "map_to P pt p f fl fa = Some (pt', fa')"
    using assms(3) by (auto simp: map_page_def split: option.splits)
  then show "view pt p = None" "view pt' = (view pt)(p \<mapsto> (f, fl))" "\<exists>n\<le>3. rep fa' (drop n fs)"
    using assms(1,2) unfolding pt_laws_def by blast+
qed

lemma pt_laws_map_ok:
  assumes "pt_laws P view rep" "rep fa fs" "3 \<le> length fs" "view pt p = None"
  obtains pt' fa' where "map_page P pt p f fl fa = Inr (pt', fa')"
proof -
  have "map_to P pt p f fl fa \<noteq> None" using assms unfolding pt_laws_def by blast
  then show thesis using that by (auto simp: map_page_def)
qed

lemma pt_laws_unmap:
  assumes "pt_laws P view rep" "view pt p = Some (f, fl)"
  obtains pt' where "unmap_page P pt p = Inr (f, pt')" "view pt' = (view pt)(p := None)"
proof -
  have "unmap P pt p \<noteq> None" using assms unfolding pt_laws_def by (metis option.distinct(1))
  then obtain f' pt' where u: "unmap P pt p = Some (f', pt')" by auto
  moreover have "(\<exists>fl. view pt p = Some (f', fl)) \<and> view pt' = (view pt)(p := None)"
    using assms(1) u unfolding pt_laws_def by metis
  ultimately show thesis using assms(2) that by (auto simp: unmap_page_def)
qed

lemma pt_laws_update:
  assumes "pt_laws P view rep" "view pt p = Some (f, fl0)"
  obtains pt' where "remap_flags P pt p fl = Inr pt'" "view pt' = (view pt)(p \<mapsto> (f, fl))"
proof -
  have "update_flags P pt p fl \<noteq> None" using assms unfolding pt_laws_def by (metis option.distinct(1))
  then obtain pt' where u: "update_flags P pt p fl = Some pt'" by auto
  moreover have "\<exists>f fl0. view pt p = Some (f, fl0) \<and> view pt' = (view pt)(p \<mapsto> (f, fl))"
    using assms(1) u unfolding pt_laws_def by metis
  ultimately show thesis using assms(2) that by (auto simp: remap_flags_def)
qed

lemma page_start_aligned: "4096 dvd page_start a" "4096 dvd a \<Longrightarrow> page_start a = a"
  by (simp_all add: page_start_def dvd_minus_mod)

lemma page_start_div: "page_start a = a div 4096 * 4096"
  by (simp add: page_start_def minus_mod_eq_div_mult)

lemma page_start_mod: "page_start a + a mod 4096 = a"
  by (simp add: page_start_def)

text \<open>The laws are satisfiable: page tables that are their own view.\<close>

definition simple_pt_ops :: "(pt_view, 'fa) pt_ops" where
  "simple_pt_ops = \<lparr>
     page_of = page_start,
     page_range_inclusive = (\<lambda>a b. map (\<lambda>k. a + 4096 * k) [0 ..< (b + 4096 - a) div 4096]),
     map_to = (\<lambda>pt p f fl fa. if pt p = None then Some (pt(p \<mapsto> (f, fl)), fa) else None),
     unmap = (\<lambda>pt p. case pt p of None \<Rightarrow> None | Some (f, fl) \<Rightarrow> Some (f, pt(p := None))),
     translate = (\<lambda>pt a. case pt (page_start a) of None \<Rightarrow> None | Some (f, fl) \<Rightarrow> Some (f + a mod 4096, fl)),
     update_flags = (\<lambda>pt p fl. case pt p of None \<Rightarrow> None | Some (f, fl0) \<Rightarrow> Some (pt(p \<mapsto> (f, fl))))\<rparr>"

lemma simple_pt_laws: "pt_laws simple_pt_ops (\<lambda>pt. pt) rep"
proof -
  have "rep fa fs \<Longrightarrow> \<exists>n\<le>3. rep fa (drop n fs)" for fa fs by (rule exI [of _ 0]) simp
  then show ?thesis
    unfolding pt_laws_def simple_pt_ops_def by (auto split: option.splits if_splits)
qed

subsection \<open>Mapping a range\<close>

context frame_source
begin

lemma map_range_ok:
  assumes "pt_laws P view rep"
  shows "rep fa fs \<Longrightarrow> 4 * length pages \<le> length fs \<Longrightarrow> distinct pages \<Longrightarrow>
    \<forall>p\<in>set pages. view pt p = None \<Longrightarrow>
    \<exists>frames pt' fa' n. map_range P alloc flags pages pt fa = Inr (frames, pt', fa') \<and>
      length frames = length pages \<and> n \<le> 4 * length pages \<and> rep fa' (drop n fs) \<and>
      set frames \<subseteq> set (take n fs) \<and>
      (\<forall>p. view pt' p = (case map_of (zip pages frames) p of None \<Rightarrow> view pt p | Some f \<Rightarrow> Some (f, flags)))"
proof (induction pages arbitrary: fa fs pt)
  case Nil
  then show ?case by (intro exI [of _ "[]"] exI [of _ pt] exI [of _ fa] exI [of _ 0]) simp
next
  case (Cons page pages)
  obtain f gs where fs: "fs = f # gs" using Cons.prems(2) by (cases fs) auto
  obtain fa1 where a: "alloc fa = Inr (Some f, fa1)" "rep fa1 gs"
    using alloc_Cons Cons.prems(1) fs by blast
  obtain pt1 fa2 where m: "map_page P pt page f flags fa1 = Inr (pt1, fa2)"
    using pt_laws_map_ok [OF assms a(2), of pt page f flags] Cons.prems(2,4) fs by auto
  note laws = pt_laws_map [OF assms a(2) m]
  obtain k where k: "k \<le> 3" "rep fa2 (drop k gs)" using laws(3) by blast
  have free: "\<forall>p\<in>set pages. view pt1 p = None" using laws(2) Cons.prems(3,4) by auto
  have enough: "4 * length pages \<le> length (drop k gs)" and "distinct pages"
    using Cons.prems(2,3) fs k(1) by simp_all
  from Cons.IH [OF k(2) this free] obtain frames pt' fa' n where r: "map_range P alloc flags pages pt1 fa2 = Inr (frames, pt', fa')"
    "length frames = length pages" "n \<le> 4 * length pages" "rep fa' (drop n (drop k gs))"
    "set frames \<subseteq> set (take n (drop k gs))"
    "\<forall>p. view pt' p = (case map_of (zip pages frames) p of None \<Rightarrow> view pt1 p | Some f \<Rightarrow> Some (f, flags))"
    by blast
  have "take (n + k) gs = take k gs @ take n (drop k gs)" by (simp add: take_add add.commute)
  then have "set (f # frames) \<subseteq> set (take (Suc (n + k)) fs)" using r(5) by (auto simp: fs)
  moreover have "rep fa' (drop (Suc (n + k)) fs)" using r(4) by (simp add: fs add.commute)
  moreover have "map_of (zip pages frames) page = None"
    using Cons.prems(3) r(2) by (simp add: map_of_zip_is_None)
  ultimately show ?case
    using a m r laws(2) k(1)
    by (intro exI [of _ "f # frames"] exI [of _ pt'] exI [of _ fa'] exI [of _ "Suc (n + k)"])
       (auto split: option.splits)
qed

end

end
