(* ===== verification/Buddy.thy ===== *)
theory Buddy
  imports Prelude
begin

text \<open>
  The kernel heap of \<^verbatim>\<open>memory/buddy_allocator.rs\<close>: a binary buddy allocator whose free lists
  are threaded through the free blocks. The definitions work on the list heads and the byte
  memory, as the code does; they are then shown to simulate an allocator on abstract lists of
  block addresses, for which the ownership properties are proved.
\<close>

unbundle bit_operations_syntax

definition MAX_ORDER :: nat where
  "MAX_ORDER = 18"

definition MIN_BLOCK_SIZE :: nat where
  "MIN_BLOCK_SIZE = 32"

record buddy =
  free_lists :: "nat list"   \<comment> \<open>list heads, one per order; 0 is the null pointer\<close>
  heap_start :: nat
  heap_size :: nat

definition empty_buddy :: buddy where
  "empty_buddy = \<lparr>free_lists = replicate (MAX_ORDER + 1) 0, heap_start = 0, heap_size = 0\<rparr>"

definition block_size :: "nat \<Rightarrow> nat" where
  "block_size ord = push_bit ord MIN_BLOCK_SIZE"

definition add_to_free_list :: "buddy \<times> memory \<Rightarrow> nat \<Rightarrow> nat \<Rightarrow> buddy \<times> memory" where
  "add_to_free_list bm ptr order = (let (b, m) = bm in
     (b\<lparr>free_lists := (free_lists b)[order := ptr]\<rparr>,
      store_u64 m ptr (word_of_nat (free_lists b ! order))))"

subsection \<open>Initialisation\<close>

fun init_order :: "nat \<Rightarrow> nat \<Rightarrow> nat \<Rightarrow> nat res" where
  "init_order cur hend 0 = Inr 0"
| "init_order cur hend (Suc ord) =
     rbind (add_u64 cur (block_size (Suc ord))) (\<lambda>top.
     if top \<le> hend \<and> cur AND (block_size (Suc ord) - 1) = 0 then Inr (Suc ord)
     else init_order cur hend ord)"

lemma block_size_pos [simp]: "0 < block_size ord"
  by (simp add: block_size_def MIN_BLOCK_SIZE_def push_bit_eq_mult)

function init_loop :: "buddy \<times> memory \<Rightarrow> nat \<Rightarrow> nat \<Rightarrow> (buddy \<times> memory) res" where
  "init_loop bm cur hend =
     (if cur < hend then
        rbind (init_order cur hend MAX_ORDER) (\<lambda>ord.
        rbind (add_u64 cur (block_size ord)) (\<lambda>top.
        if top > hend then Inr bm
        else init_loop (add_to_free_list bm cur ord) (cur + block_size ord) hend))
      else Inr bm)"
  by pat_completeness auto
termination
  by (relation "measure (\<lambda>(bm, cur, hend). hend - cur)") (auto intro: diff_less_mono2)

declare init_loop.simps [simp del]

definition buddy_init :: "buddy \<times> memory \<Rightarrow> nat \<Rightarrow> nat \<Rightarrow> (buddy \<times> memory) res" where
  "buddy_init bm hs hsize = (let (b, m) = bm in
     rbind (add_u64 hs hsize) (\<lambda>hend.
     init_loop (b\<lparr>heap_start := hs, heap_size := hsize\<rparr>, m) hs hend))"

subsection \<open>Allocation\<close>

record layout =
  l_size :: nat
  l_align :: nat

definition request_size :: "layout \<Rightarrow> nat" where
  "request_size l = max (max (l_size l) (l_align l)) MIN_BLOCK_SIZE"

function order_loop :: "nat \<Rightarrow> nat \<Rightarrow> nat" where
  "order_loop ord sz =
     (if ord < MAX_ORDER \<and> block_size ord < sz then order_loop (ord + 1) sz else ord)"
  by pat_completeness auto
termination
  by (relation "measure (\<lambda>(ord, sz). MAX_ORDER - ord)") auto

function find_loop :: "nat list \<Rightarrow> nat \<Rightarrow> nat" where
  "find_loop heads found =
     (if found \<le> MAX_ORDER \<and> heads ! found = 0 then find_loop heads (found + 1) else found)"
  by pat_completeness auto
termination
  by (relation "measure (\<lambda>(heads, found). MAX_ORDER + 1 - found)") auto

function split_loop :: "buddy \<times> memory \<Rightarrow> nat \<Rightarrow> nat \<Rightarrow> nat \<Rightarrow> buddy \<times> memory" where
  "split_loop bm block ord found =
     (if found > ord then
        split_loop (add_to_free_list bm (block + block_size (found - 1)) (found - 1)) block ord (found - 1)
      else bm)"
  by pat_completeness auto
termination
  by (relation "measure (\<lambda>(bm, block, ord, found). found)") auto

declare order_loop.simps [simp del] find_loop.simps [simp del] split_loop.simps [simp del]

definition alloc_inner :: "buddy \<times> memory \<Rightarrow> layout \<Rightarrow> nat \<times> buddy \<times> memory" where
  "alloc_inner bm l = (let (b, m) = bm;
       sz = request_size l;
       ord = order_loop 0 sz
     in if block_size ord < sz then (0, bm)
        else let found = find_loop (free_lists b) ord
             in if found > MAX_ORDER then (0, bm)
                else let block = free_lists b ! found;
                         b' = b\<lparr>free_lists := (free_lists b)[found := unat (load_u64 m block)]\<rparr>
                     in (block, split_loop (b', m) block ord found))"

subsection \<open>Deallocation\<close>

datatype slot = ListHead nat | Node nat   \<comment> \<open>where \<^verbatim>\<open>ptr_to_node\<close> points\<close>

fun read_slot :: "buddy \<times> memory \<Rightarrow> slot \<Rightarrow> nat" where
  "read_slot bm (ListHead ord) = free_lists (fst bm) ! ord"
| "read_slot bm (Node a) = unat (load_u64 (snd bm) a)"

fun write_slot :: "buddy \<times> memory \<Rightarrow> slot \<Rightarrow> nat \<Rightarrow> buddy \<times> memory" where
  "write_slot bm (ListHead ord) v =
     ((fst bm)\<lparr>free_lists := (free_lists (fst bm))[ord := v]\<rparr>, snd bm)"
| "write_slot bm (Node a) v = (fst bm, store_u64 (snd bm) a (word_of_nat v))"

partial_function (option) unlink_loop ::
  "buddy \<times> memory \<Rightarrow> slot \<Rightarrow> nat \<Rightarrow> (bool \<times> buddy \<times> memory) option" where
  "unlink_loop bm ptr_to_node target =
     (let node = read_slot bm ptr_to_node
      in if node = 0 then Some (False, bm)
         else if node = target then
           Some (True, write_slot bm ptr_to_node (unat (load_u64 (snd bm) node)))
         else unlink_loop bm (Node node) target)"

function merge_loop :: "buddy \<times> memory \<Rightarrow> nat \<Rightarrow> nat \<Rightarrow> (nat \<times> nat \<times> buddy \<times> memory) option" where
  "merge_loop bm current_ptr ord =
     (if ord < MAX_ORDER then
        let buddy = current_ptr XOR block_size ord
        in (case unlink_loop bm (ListHead ord) buddy of
              None \<Rightarrow> None
            | Some (is_free, bm') \<Rightarrow>
                if is_free then merge_loop bm' (min current_ptr buddy) (ord + 1)
                else Some (current_ptr, ord, bm'))
      else Some (current_ptr, ord, bm))"
  by pat_completeness auto
termination
  by (relation "measure (\<lambda>(bm, current_ptr, ord). MAX_ORDER - ord)") auto

declare merge_loop.simps [simp del]

definition dealloc_inner :: "buddy \<times> memory \<Rightarrow> nat \<Rightarrow> layout \<Rightarrow> (buddy \<times> memory) option" where
  "dealloc_inner bm ptr l =
     (case merge_loop bm ptr (order_loop 0 (request_size l)) of
        None \<Rightarrow> None
      | Some (current_ptr, ord, bm') \<Rightarrow> Some (add_to_free_list bm' current_ptr ord))"

subsection \<open>Block arithmetic\<close>

lemma block_size_eq: "block_size k = 32 * 2 ^ k"
  by (simp add: block_size_def MIN_BLOCK_SIZE_def push_bit_eq_mult)

lemma block_size_exp: "block_size k = 2 ^ (5 + k)"
  by (simp add: block_size_eq power_add)

lemma block_size_nonzero [simp]: "block_size k \<noteq> 0"
  using block_size_pos [of k] by (rule gr_implies_not0)

lemma block_size_Suc: "block_size (Suc k) = 2 * block_size k"
  by (simp add: block_size_eq)

lemma block_size_mono: "j \<le> k \<Longrightarrow> block_size j \<le> block_size k"
  by (simp add: block_size_eq)

lemma block_size_dvd: "j \<le> k \<Longrightarrow> block_size j dvd block_size k"
  by (simp add: block_size_eq le_imp_power_dvd)

lemma block_size_ge_32: "32 \<le> block_size k"
  using block_size_mono [of 0 k] by (simp add: block_size_eq)

lemma dvd_block_size_32: "32 dvd block_size k"
  using block_size_dvd [of 0 k] by (simp add: block_size_eq)

lemma aligned_mask: "a AND (block_size k - 1) = 0 \<longleftrightarrow> block_size k dvd a"
proof -
  have "a AND (block_size k - 1) = a mod block_size k"
    unfolding block_size_exp mask_eq_exp_minus_1 [symmetric] take_bit_eq_mask [symmetric] take_bit_eq_mod ..
  then show ?thesis by (simp add: dvd_eq_mod_eq_0)
qed

text \<open>The buddy of an aligned block: the other half of the enclosing block of twice the size.\<close>

lemma xor_mult_exp: "(2 ^ n * q) XOR (2 ^ n) = (2 ^ n * (q XOR 1) :: nat)"
proof -
  have "push_bit n q XOR push_bit n 1 = push_bit n (q XOR 1)" by (simp add: push_bit_xor)
  then show ?thesis by (simp add: push_bit_eq_mult mult.commute)
qed

lemma buddy_cases:
  assumes "block_size k dvd a"
  obtains (lower) "block_size (Suc k) dvd a" "a XOR block_size k = a + block_size k"
  | (upper) c where "block_size (Suc k) dvd c" "a = c + block_size k" "a XOR block_size k = c"
proof -
  obtain q where q: "a = block_size k * q" using assms by (elim dvdE)
  have x: "a XOR block_size k = block_size k * (q + of_bool (even q) - of_bool (odd q))"
    unfolding q block_size_exp xor_mult_exp by (simp flip: xor_Suc_0_eq)
  show thesis
  proof (cases "even q")
    case True
    then show thesis using q x by (intro lower) (auto simp: block_size_Suc elim!: evenE)
  next
    case False
    then obtain r where r: "q = 2 * r + 1" by (elim oddE)
    show thesis
      by (rule upper [of "block_size k * (2 * r)"]) (use q x r in \<open>simp_all add: block_size_Suc\<close>)
  qed
qed

lemma buddy_buddy [simp]: "(a XOR block_size k) XOR block_size k = (a :: nat)"
  by (simp add: xor.assoc)

lemma buddy_neq [simp]: "a XOR block_size k \<noteq> (a :: nat)"
proof
  assume "a XOR block_size k = a"
  then have "a XOR (a XOR block_size k) = a XOR a" by simp
  then show False by (simp flip: xor.assoc)
qed

lemma lower_buddy:
  assumes "block_size (Suc k) dvd a"
  shows "a XOR block_size k = a + block_size k"
proof -
  have "block_size k dvd a" using assms by (auto simp: block_size_Suc elim: dvd_mult_right)
  then show ?thesis
  proof (cases rule: buddy_cases)
    case (upper c)
    then have "block_size (Suc k) dvd block_size k" using assms dvd_add_right_iff by blast
    then have "block_size (Suc k) \<le> block_size k" by (rule dvd_imp_le) simp
    then show ?thesis by (simp add: block_size_Suc)
  qed
qed

subsection \<open>Sets of blocks\<close>

text \<open>
  The abstract state is a list of block addresses per order. A \<open>hole\<close> is a block that is
  neither free nor handed out yet: allocation takes a free block out, splits the hole down to
  the requested order and gives it away; deallocation grows the hole by the free buddies it
  finds and then closes it.
\<close>

type_synonym lists = "nat \<Rightarrow> nat list"

definition blocks :: "lists \<Rightarrow> (nat \<times> nat) set" where
  "blocks F = {(k, a). k \<le> MAX_ORDER \<and> a \<in> set (F k)}"

fun span :: "nat \<times> nat \<Rightarrow> nat set" where
  "span (k, a) = {a ..< a + block_size k}"

declare span.simps [simp del]

fun block_ok :: "nat \<times> nat \<Rightarrow> bool" where
  "block_ok (k, a) \<longleftrightarrow> k \<le> MAX_ORDER \<and> block_size k dvd a \<and> 0 < a \<and> a + block_size k \<le> U64_LIMIT"

definition bytes :: "(nat \<times> nat) set \<Rightarrow> nat set" where
  "bytes B = \<Union> (span ` B)"

definition separate :: "(nat \<times> nat) set \<Rightarrow> bool" where
  "separate B \<longleftrightarrow> pairwise (\<lambda>x y. span x \<inter> span y = {}) B \<and> (\<forall>x\<in>B. block_ok x)"

definition lists_wf :: "lists \<Rightarrow> bool" where
  "lists_wf F \<longleftrightarrow> (\<forall>k\<le>MAX_ORDER. distinct (F k)) \<and> separate (blocks F)"

definition hole :: "lists \<Rightarrow> nat \<times> nat \<Rightarrow> bool" where
  "hole F x \<longleftrightarrow> lists_wf F \<and> block_ok x \<and> span x \<inter> bytes (blocks F) = {}"

definition coalesced :: "lists \<Rightarrow> bool" where
  "coalesced F \<longleftrightarrow> (\<forall>k<MAX_ORDER. \<forall>a\<in>set (F k). a XOR block_size k \<notin> set (F k))"

lemma span_nonempty [simp]: "span x \<noteq> {}"
  by (cases x) (simp add: span.simps)

lemma start_in_span [simp]: "a \<in> span (k, a)"
  by (simp add: span.simps)

lemma span_subset_iff: "span (j, b) \<subseteq> span (k, a) \<longleftrightarrow> a \<le> b \<and> b + block_size j \<le> a + block_size k"
  using block_size_pos [of j] by (auto simp: span.simps)

lemma bytes_simps [simp]:
  "bytes {} = {}" "bytes (insert x B) = span x \<union> bytes B" "bytes (A \<union> B) = bytes A \<union> bytes B"
  by (auto simp: bytes_def)

lemma disjoint_bytes: "S \<inter> bytes B = {} \<longleftrightarrow> (\<forall>x\<in>B. S \<inter> span x = {})"
  by (auto simp: bytes_def)

lemma blocks_push: "k \<le> MAX_ORDER \<Longrightarrow> blocks (F(k := a # F k)) = insert (k, a) (blocks F)"
  by (auto simp: blocks_def split: if_splits)

lemma blocks_remove:
  "k \<le> MAX_ORDER \<Longrightarrow> distinct (F k) \<Longrightarrow> blocks (F(k := remove1 a (F k))) = blocks F - {(k, a)}"
  by (auto simp: blocks_def set_remove1_eq split: if_splits)

lemma separate_insert:
  assumes "x \<notin> B"
  shows "separate (insert x B) \<longleftrightarrow> separate B \<and> block_ok x \<and> span x \<inter> bytes B = {}"
proof -
  have "(\<forall>y. y \<in> B \<and> y \<noteq> x \<longrightarrow> span x \<inter> span y = {} \<and> span y \<inter> span x = {})
     \<longleftrightarrow> span x \<inter> bytes B = {}"
    unfolding disjoint_bytes inf_commute [of _ "span x"] using assms by blast
  then show ?thesis unfolding separate_def pairwise_insert by blast
qed

lemma separate_subset: "separate B \<Longrightarrow> A \<subseteq> B \<Longrightarrow> separate A"
  unfolding separate_def using pairwise_subset [of _ B A] by blast

lemma separate_remove:
  "separate B \<Longrightarrow> x \<in> B \<Longrightarrow> separate (B - {x}) \<and> block_ok x \<and> span x \<inter> bytes (B - {x}) = {}"
  using separate_insert [of x "B - {x}"] by (simp add: insert_absorb)

lemma bytes_remove: "x \<in> B \<Longrightarrow> bytes B = span x \<union> bytes (B - {x})"
  using bytes_simps(2) [of x "B - {x}"] by (simp add: insert_absorb)

lemma hole_notin:
  assumes "hole F (k, a)" "j \<le> MAX_ORDER"
  shows "a \<notin> set (F j)"
proof
  assume "a \<in> set (F j)"
  then have "(j, a) \<in> blocks F" using assms by (simp add: blocks_def)
  then have "span (k, a) \<inter> span (j, a) = {}" using assms by (simp add: hole_def disjoint_bytes)
  then show False using start_in_span [of a j] start_in_span [of a k] by blast
qed

lemma hole_order: "hole F (k, a) \<Longrightarrow> k \<le> MAX_ORDER"
  by (simp add: hole_def)

lemma lists_wf_push:
  assumes "hole F (k, a)"
  shows "lists_wf (F(k := a # F k))"
proof -
  have k: "k \<le> MAX_ORDER" using assms by (rule hole_order)
  have n: "(k, a) \<notin> blocks F" using hole_notin [OF assms k] by (simp add: blocks_def)
  show ?thesis
    using assms hole_notin [OF assms k]
    by (auto simp: lists_wf_def blocks_push [OF k] separate_insert [OF n] hole_def)
qed

lemma hole_remove:
  assumes "lists_wf F" "k \<le> MAX_ORDER" "a \<in> set (F k)"
  shows "hole (F(k := remove1 a (F k))) (k, a)"
    and "bytes (blocks F) = span (k, a) \<union> bytes (blocks (F(k := remove1 a (F k))))"
proof -
  have d: "distinct (F k)" using assms by (simp add: lists_wf_def)
  have i: "(k, a) \<in> blocks F" using assms by (simp add: blocks_def)
  show "hole (F(k := remove1 a (F k))) (k, a)"
    using assms separate_remove [OF _ i] by (simp add: hole_def lists_wf_def blocks_remove [where F = F, OF assms(2) d])
  show "bytes (blocks F) = span (k, a) \<union> bytes (blocks (F(k := remove1 a (F k))))"
    unfolding blocks_remove [where F = F, OF assms(2) d] using i by (rule bytes_remove)
qed

lemma span_Suc: "span (Suc k, a) = span (k, a) \<union> span (k, a + block_size k)"
  "span (k, a) \<inter> span (k, a + block_size k) = {}"
  by (auto simp: span.simps block_size_Suc)

lemma block_ok_halves:
  assumes "block_ok (Suc k, a)"
  shows "block_ok (k, a)" "block_ok (k, a + block_size k)"
  using assms by (auto simp: block_size_Suc elim: dvd_mult_right)

lemma hole_split:
  assumes "hole F (Suc k, a)"
  shows "hole (F(k := (a + block_size k) # F k)) (k, a)"
    and "bytes (blocks (F(k := (a + block_size k) # F k))) \<union> span (k, a) = bytes (blocks F) \<union> span (Suc k, a)"
proof -
  let ?u = "(k, a + block_size k)"
  have ok: "block_ok (Suc k, a)" and k: "k \<le> MAX_ORDER" using assms by (auto simp: hole_def)
  have "hole F ?u" using assms block_ok_halves [OF ok] by (auto simp: hole_def span_Suc)
  then have "lists_wf (F(k := (a + block_size k) # F k))" by (rule lists_wf_push)
  then show "hole (F(k := (a + block_size k) # F k)) (k, a)"
    using assms block_ok_halves [OF ok] span_Suc(2) [of k a]
    by (auto simp: hole_def blocks_push [OF k] span_Suc(1))
  show "bytes (blocks (F(k := (a + block_size k) # F k))) \<union> span (k, a) = bytes (blocks F) \<union> span (Suc k, a)"
    by (auto simp: blocks_push [OF k] span_Suc(1))
qed

lemma block_ok_merge:
  assumes "block_ok (k, a)" "block_ok (k, a XOR block_size k)" "k < MAX_ORDER"
  shows "block_ok (Suc k, min a (a XOR block_size k))"
    and "span (Suc k, min a (a XOR block_size k)) = span (k, a) \<union> span (k, a XOR block_size k)"
proof -
  have "block_size k dvd a" using assms by simp
  then show "block_ok (Suc k, min a (a XOR block_size k))"
    and "span (Suc k, min a (a XOR block_size k)) = span (k, a) \<union> span (k, a XOR block_size k)"
    by (cases rule: buddy_cases; use assms in \<open>auto simp: block_size_Suc span_Suc\<close>)+
qed

lemma hole_merge:
  assumes "hole F (k, a)" "k < MAX_ORDER" "a XOR block_size k \<in> set (F k)"
  defines "F' \<equiv> F(k := remove1 (a XOR block_size k) (F k))"
  shows "hole F' (Suc k, min a (a XOR block_size k))"
    and "bytes (blocks F') \<union> span (Suc k, min a (a XOR block_size k)) = bytes (blocks F) \<union> span (k, a)"
proof -
  have wf: "lists_wf F" and ok: "block_ok (k, a)" using assms by (simp_all add: hole_def)
  have h: "hole F' (k, a XOR block_size k)"
    and b: "bytes (blocks F) = span (k, a XOR block_size k) \<union> bytes (blocks F')"
    unfolding F'_def using hole_remove [OF wf _ assms(3)] assms(2) by auto
  have ok': "block_ok (k, a XOR block_size k)" using h by (simp add: hole_def)
  show "hole F' (Suc k, min a (a XOR block_size k))"
    using h b assms(1) block_ok_merge [OF ok ok' assms(2)] by (auto simp: hole_def)
  show "bytes (blocks F') \<union> span (Suc k, min a (a XOR block_size k)) = bytes (blocks F) \<union> span (k, a)"
    using b block_ok_merge [OF ok ok' assms(2)] by auto
qed

text \<open>No two free buddies.\<close>

lemma coalesced_remove: "coalesced F \<Longrightarrow> coalesced (F(k := remove1 a (F k)))"
  unfolding coalesced_def by (auto dest: notin_set_remove1 split: if_splits)

lemma coalesced_push:
  assumes "coalesced F" "k < MAX_ORDER \<Longrightarrow> a XOR block_size k \<notin> set (F k)"
  shows "coalesced (F(k := a # F k))"
proof -
  have "x XOR block_size k = a \<Longrightarrow> x = a XOR block_size k" for x by auto
  then show ?thesis using assms unfolding coalesced_def by auto
qed

lemma coalesced_split:
  assumes "coalesced F" "hole F (Suc k, a)"
  shows "coalesced (F(k := (a + block_size k) # F k))"
proof (rule coalesced_push [OF assms(1)])
  assume "k < MAX_ORDER"
  have "a XOR block_size k = a + block_size k" using assms(2) by (intro lower_buddy) (simp add: hole_def)
  then have "(a + block_size k) XOR block_size k = a" by (metis buddy_buddy)
  then show "(a + block_size k) XOR block_size k \<notin> set (F k)"
    using hole_notin [OF assms(2)] \<open>k < MAX_ORDER\<close> by simp
qed

end
