(* ===== verification/BuddyHeap.thy ===== *)
theory BuddyHeap
  imports Buddy
begin

text \<open>
  The buddy allocator of \<^theory_text>\<open>Buddy\<close> refines lists of blocks; what the kernel heap promises its
  clients.
\<close>

subsection \<open>Intrusive lists represent lists of addresses\<close>

primrec chain :: "memory \<Rightarrow> nat list \<Rightarrow> nat \<Rightarrow> bool" where
  "chain m [] p \<longleftrightarrow> p = 0"
| "chain m (a # as) p \<longleftrightarrow> p = a \<and> a \<noteq> 0 \<and> chain m as (unat (load_u64 m a))"

definition node_ok :: "nat \<Rightarrow> bool" where
  "node_ok a \<longleftrightarrow> 32 dvd a \<and> a < U64_LIMIT"

definition lists_rep :: "buddy \<times> memory \<Rightarrow> lists \<Rightarrow> bool" where
  "lists_rep bm F \<longleftrightarrow> length (free_lists (fst bm)) = MAX_ORDER + 1 \<and>
     (\<forall>k\<le>MAX_ORDER. chain (snd bm) (F k) (free_lists (fst bm) ! k))"

lemma unat_word_of_nat_u64 [simp]: "a < U64_LIMIT \<Longrightarrow> unat (word_of_nat a :: u64) = a"
  by (simp add: U64_LIMIT_def unat_of_nat)

lemma node_ok_apart: "node_ok a \<Longrightarrow> node_ok b \<Longrightarrow> a \<noteq> b \<Longrightarrow> a + 8 \<le> b \<or> b + 8 \<le> a"
  by (auto simp: node_ok_def elim!: dvdE)

lemma load_other_node: "node_ok a \<Longrightarrow> node_ok b \<Longrightarrow> a \<noteq> b \<Longrightarrow> load_u64 (store_u64 m a v) b = load_u64 m b"
  using node_ok_apart [of a b] by (intro load_store_u64_other) auto

lemma chain_cong: "(\<And>a. a \<in> set xs \<Longrightarrow> load_u64 m' a = load_u64 m a) \<Longrightarrow> chain m' xs p = chain m xs p"
  by (induction xs arbitrary: p) auto

lemma chain_store:
  "node_ok a \<Longrightarrow> a \<notin> set xs \<Longrightarrow> \<forall>x\<in>set xs. node_ok x \<Longrightarrow> chain (store_u64 m a v) xs p = chain m xs p"
  by (rule chain_cong, rule load_other_node) auto

lemma chain_head_bound: "chain m xs p \<Longrightarrow> \<forall>x\<in>set xs. node_ok x \<Longrightarrow> p < U64_LIMIT"
  by (cases xs) (auto simp: node_ok_def U64_LIMIT_def)

lemma block_ok_node: "block_ok (k, a) \<Longrightarrow> node_ok a"
  using dvd_trans [OF dvd_block_size_32 [of k], of a] block_size_ge_32 [of k] by (simp add: node_ok_def)

lemma wf_nodes: "lists_wf F \<Longrightarrow> k \<le> MAX_ORDER \<Longrightarrow> \<forall>a\<in>set (F k). node_ok a"
  unfolding lists_wf_def separate_def blocks_def using block_ok_node by blast

lemma add_to_free_list_rep:
  assumes r: "lists_rep bm F" and h: "hole F (k, a)"
  shows "lists_rep (add_to_free_list bm a k) (F(k := a # F k))"
proof -
  obtain b m where bm [simp]: "bm = (b, m)" by (cases bm)
  have k: "k \<le> MAX_ORDER" using h by (rule hole_order)
  have wf: "lists_wf F" and a: "node_ok a" "a \<noteq> 0"
    using h block_ok_node by (auto simp: hole_def)
  have keep: "chain (store_u64 m a v) (F j) p = chain m (F j) p" if "j \<le> MAX_ORDER" for j v p
    using that by (intro chain_store a wf_nodes [OF wf] hole_notin [OF h])
  have "free_lists b ! k < U64_LIMIT"
    using r k wf_nodes [OF wf k] by (intro chain_head_bound) (auto simp: lists_rep_def)
  then show ?thesis
    using r k a keep by (auto simp: lists_rep_def add_to_free_list_def nth_list_update)
qed

text \<open>Searching a list for the buddy and unlinking it through the slot that points to it.\<close>

fun pred_slot :: "slot \<Rightarrow> nat list \<Rightarrow> nat \<Rightarrow> slot" where
  "pred_slot s [] t = s"
| "pred_slot s (x # xs) t = (if x = t then s else pred_slot (Node x) xs t)"

lemma unlink_loop_result:
  "chain (snd bm) xs (read_slot bm s) \<Longrightarrow> t \<noteq> 0 \<Longrightarrow>
   unlink_loop bm s t =
     (if t \<in> set xs
      then Some (True, write_slot bm (pred_slot s xs t) (unat (load_u64 (snd bm) t)))
      else Some (False, bm))"
  by (induction xs arbitrary: s; subst unlink_loop.simps) (auto simp: Let_def)

lemma unlink_loop_null:
  "chain (snd bm) xs (read_slot bm s) \<Longrightarrow> unlink_loop bm s 0 = Some (False, bm)"
  by (induction xs arbitrary: s; subst unlink_loop.simps) (auto simp: Let_def)

lemma pred_slot_node: "t \<in> set xs \<Longrightarrow> pred_slot (Node x) xs t \<in> Node ` insert x (set xs)"
  by (induction xs arbitrary: x) auto

lemma unlink_chain:
  assumes "chain (snd bm) xs (read_slot bm s)" "t \<in> set xs" "distinct xs"
    and "\<forall>x\<in>set xs. node_ok x"
    and "case s of ListHead k \<Rightarrow> k < length (free_lists (fst bm)) | Node a \<Rightarrow> node_ok a \<and> a \<notin> set xs"
  defines "bm' \<equiv> write_slot bm (pred_slot s xs t) (unat (load_u64 (snd bm) t))"
  shows "chain (snd bm') (remove1 t xs) (read_slot bm' s)"
  using assms(1-5) unfolding bm'_def
proof (induction xs arbitrary: s)
  case Nil
  then show ?case by simp
next
  case (Cons x xs)
  show ?case
  proof (cases "x = t")
    case True
    then show ?thesis using Cons.prems by (cases s) (auto simp: chain_store)
  next
    case False
    let ?bm' = "write_slot bm (pred_slot (Node x) xs t) (unat (load_u64 (snd bm) t))"
    have "pred_slot (Node x) xs t \<in> Node ` insert x (set xs)"
      using Cons.prems False by (intro pred_slot_node) simp
    then obtain y where y: "pred_slot (Node x) xs t = Node y" "y \<in> insert x (set xs)" by blast
    have "node_ok y" using Cons.prems(4) y by auto
    then have "load_u64 (store_u64 (snd bm) y v) a = load_u64 (snd bm) a" if "s = Node a" for a v
      using Cons.prems(5) that y by (intro load_other_node) auto
    then have "read_slot ?bm' s = read_slot bm s" by (cases s) (auto simp: y)
    moreover have "chain (snd ?bm') (remove1 t xs) (read_slot ?bm' (Node x))"
      using Cons.prems False by (intro Cons.IH) auto
    ultimately show ?thesis using Cons.prems False by simp
  qed
qed

lemma wf_other_list: "lists_wf F \<Longrightarrow> j \<le> MAX_ORDER \<Longrightarrow> k \<le> MAX_ORDER \<Longrightarrow> j \<noteq> k \<Longrightarrow> a \<in> set (F k) \<Longrightarrow> a \<notin> set (F j)"
  using hole_notin [OF hole_remove(1), of F k a j] by simp

lemma unlink_rep:
  assumes r: "lists_rep bm F" and wf: "lists_wf F" and k: "k \<le> MAX_ORDER" and t: "t \<in> set (F k)"
  obtains bm' where "unlink_loop bm (ListHead k) t = Some (True, bm')"
    and "lists_rep bm' (F(k := remove1 t (F k)))"
proof -
  define s where "s = pred_slot (ListHead k) (F k) t"
  define bm' where "bm' = write_slot bm s (unat (load_u64 (snd bm) t))"
  have c: "chain (snd bm) (F k) (read_slot bm (ListHead k))" using r k by (simp add: lists_rep_def)
  have nodes: "\<forall>a\<in>set (F k). node_ok a" using wf k by (rule wf_nodes)
  have "t \<noteq> 0" using wf k t by (auto simp: lists_wf_def separate_def blocks_def)
  then have u: "unlink_loop bm (ListHead k) t = Some (True, bm')"
    using t by (simp add: unlink_loop_result [OF c] bm'_def s_def)
  have len: "length (free_lists (fst bm')) = length (free_lists (fst bm))"
    by (cases s) (simp_all add: bm'_def)
  have "s \<in> insert (ListHead k) (Node ` set (F k))"
    using t pred_slot_node [of t "tl (F k)" "hd (F k)"] by (cases "F k") (auto simp: s_def)
  then have other: "chain (snd bm') (F j) (free_lists (fst bm') ! j) = chain (snd bm) (F j) (free_lists (fst bm) ! j)"
    if "j \<le> MAX_ORDER" "j \<noteq> k" for j
    using that nodes wf_other_list [OF wf that(1) k that(2)] wf_nodes [OF wf that(1)]
    by (auto simp: bm'_def chain_store)
  have "chain (snd bm') (remove1 t (F k)) (read_slot bm' (ListHead k))"
    unfolding bm'_def s_def using c t nodes wf r k
    by (intro unlink_chain) (auto simp: lists_wf_def lists_rep_def)
  then have "lists_rep bm' (F(k := remove1 t (F k)))"
    using r other len by (auto simp: lists_rep_def)
  with u show thesis by (rule that)
qed

lemma unlink_none:
  assumes "lists_rep bm F" "k \<le> MAX_ORDER" "t \<notin> set (F k)" "t \<noteq> 0"
  shows "unlink_loop bm (ListHead k) t = Some (False, bm)"
  using assms by (subst unlink_loop_result [where xs = "F k"]) (auto simp: lists_rep_def)

subsection \<open>Allocation and deallocation on lists of blocks\<close>

definition heap_rep :: "buddy \<times> memory \<Rightarrow> lists \<Rightarrow> bool" where
  "heap_rep bm F \<longleftrightarrow> lists_rep bm F \<and> lists_wf F \<and> coalesced F"

definition layout_order :: "layout \<Rightarrow> nat" where
  "layout_order l = order_loop 0 (request_size l)"

lemma order_loop_spec:
  "k \<le> MAX_ORDER \<Longrightarrow> k \<le> order_loop k sz \<and> order_loop k sz \<le> MAX_ORDER \<and>
     (sz \<le> block_size (order_loop k sz) \<or> order_loop k sz = MAX_ORDER) \<and>
     (\<forall>j. k \<le> j \<longrightarrow> j < order_loop k sz \<longrightarrow> block_size j < sz)"
proof (induction k sz rule: order_loop.induct)
  case (1 k sz)
  show ?case
  proof (cases "k < MAX_ORDER \<and> block_size k < sz")
    case True
    then have eq: "order_loop k sz = order_loop (Suc k) sz" by (simp add: order_loop.simps [of k])
    have ih: "Suc k \<le> order_loop (Suc k) sz \<and> order_loop (Suc k) sz \<le> MAX_ORDER \<and>
        (sz \<le> block_size (order_loop (Suc k) sz) \<or> order_loop (Suc k) sz = MAX_ORDER) \<and>
        (\<forall>j. Suc k \<le> j \<longrightarrow> j < order_loop (Suc k) sz \<longrightarrow> block_size j < sz)"
      using "1.IH" True by simp
    then show ?thesis unfolding eq using True by (metis Suc_leD le_antisym not_less_eq_eq)
  next
    case False
    then have "order_loop k sz = k" by (simp only: order_loop.simps [of k] if_False)
    then show ?thesis using False "1.prems" by auto
  qed
qed

lemma layout_order_le: "layout_order l \<le> MAX_ORDER"
  using order_loop_spec [of 0] by (simp add: layout_order_def)

lemma find_loop_spec:
  "k \<le> find_loop hs k \<and> (\<forall>j. k \<le> j \<longrightarrow> j < find_loop hs k \<longrightarrow> j \<le> MAX_ORDER \<longrightarrow> hs ! j = 0) \<and>
     (find_loop hs k \<le> MAX_ORDER \<longrightarrow> hs ! find_loop hs k \<noteq> 0)"
proof (induction hs k rule: find_loop.induct)
  case (1 hs k)
  show ?case
  proof (cases "k \<le> MAX_ORDER \<and> hs ! k = 0")
    case True
    then have eq: "find_loop hs k = find_loop hs (Suc k)" by (simp add: find_loop.simps [of _ k])
    have ih: "Suc k \<le> find_loop hs (Suc k) \<and>
        (\<forall>j. Suc k \<le> j \<longrightarrow> j < find_loop hs (Suc k) \<longrightarrow> j \<le> MAX_ORDER \<longrightarrow> hs ! j = 0) \<and>
        (find_loop hs (Suc k) \<le> MAX_ORDER \<longrightarrow> hs ! find_loop hs (Suc k) \<noteq> 0)"
      using "1.IH" True by simp
    then show ?thesis unfolding eq using True by (metis Suc_leD le_antisym not_less_eq_eq)
  next
    case False
    then have "find_loop hs k = k" by (simp only: find_loop.simps [of _ k] if_False)
    then show ?thesis using False by auto
  qed
qed

lemma split_loop_rep:
  "lists_rep bm F \<Longrightarrow> hole F (found, a) \<Longrightarrow> coalesced F \<Longrightarrow> ord \<le> found \<Longrightarrow>
   \<exists>F'. lists_rep (split_loop bm a ord found) F' \<and> hole F' (ord, a) \<and> coalesced F' \<and>
     bytes (blocks F') \<union> span (ord, a) = bytes (blocks F) \<union> span (found, a)"
proof (induction found arbitrary: bm F)
  case 0
  then show ?case by (auto simp: split_loop.simps)
next
  case (Suc k)
  show ?case
  proof (cases "ord = Suc k")
    case True
    then show ?thesis using Suc.prems by (auto simp: split_loop.simps)
  next
    case False
    let ?F = "F(k := (a + block_size k) # F k)"
    have ok: "block_ok (Suc k, a)" using Suc.prems(2) by (simp add: hole_def)
    have "hole F (k, a + block_size k)"
      using Suc.prems(2) block_ok_halves [OF ok] by (auto simp: hole_def span_Suc)
    then have r: "lists_rep (add_to_free_list bm (a + block_size k) k) ?F"
      by (rule add_to_free_list_rep [OF Suc.prems(1)])
    have "ord \<le> k" using Suc.prems(4) False by simp
    from Suc.IH [OF r hole_split(1) [OF Suc.prems(2)] coalesced_split [OF Suc.prems(3,2)] this]
    obtain F' where "lists_rep (split_loop (add_to_free_list bm (a + block_size k) k) a ord k) F'"
        "hole F' (ord, a)" "coalesced F'"
        "bytes (blocks F') \<union> span (ord, a) = bytes (blocks ?F) \<union> span (k, a)"
      by blast
    then show ?thesis
      using hole_split(2) [OF Suc.prems(2)] Suc.prems(4) False
      by (auto simp: split_loop.simps [of bm a ord "Suc k"])
  qed
qed

lemma pop_rep:
  assumes "lists_rep (b, m) F" "k \<le> MAX_ORDER" "free_lists b ! k = a" "a \<noteq> 0"
  shows "a \<in> set (F k) \<and>
    lists_rep (b\<lparr>free_lists := (free_lists b)[k := unat (load_u64 m a)]\<rparr>, m) (F(k := remove1 a (F k)))"
proof -
  obtain as where "F k = a # as"
    using assms by (cases "F k") (force simp: lists_rep_def)+
  moreover have "chain m (F k) a" using assms by (auto simp: lists_rep_def)
  ultimately show ?thesis using assms by (auto simp: lists_rep_def nth_list_update)
qed

lemma alloc_inner_rep:
  assumes r: "heap_rep bm F" and e: "alloc_inner bm l = (p, bm')"
  shows "p = 0 \<and> bm' = bm \<and>
      (block_size (layout_order l) < request_size l \<or> (\<forall>j\<ge>layout_order l. j \<le> MAX_ORDER \<longrightarrow> F j = [])) \<or>
    p \<noteq> 0 \<and> request_size l \<le> block_size (layout_order l) \<and>
      (\<exists>F'. heap_rep bm' F' \<and> hole F' (layout_order l, p) \<and>
            bytes (blocks F) = bytes (blocks F') \<union> span (layout_order l, p))"
proof -
  obtain b m where bm: "bm = (b, m)" by (cases bm)
  define k where "k = layout_order l"
  define f where "f = find_loop (free_lists b) k"
  have fs: "k \<le> f" "\<forall>j. k \<le> j \<longrightarrow> j < f \<longrightarrow> j \<le> MAX_ORDER \<longrightarrow> free_lists b ! j = 0"
    "f \<le> MAX_ORDER \<Longrightarrow> free_lists b ! f \<noteq> 0"
    using find_loop_spec [of k "free_lists b"] by (simp_all add: f_def)
  consider (big) "block_size k < request_size l" | (none) "\<not> block_size k < request_size l" "MAX_ORDER < f"
    | (some) "\<not> block_size k < request_size l" "f \<le> MAX_ORDER" by linarith
  then show ?thesis
  proof cases
    case big
    then show ?thesis using e by (auto simp: alloc_inner_def bm layout_order_def k_def Let_def)
  next
    case none
    have "F j = []" if "k \<le> j" "j \<le> MAX_ORDER" for j
    proof -
      have "chain m (F j) 0" using r fs(2) that none by (auto simp: heap_rep_def lists_rep_def bm)
      then show ?thesis by (cases "F j") simp_all
    qed
    then show ?thesis using e none
      by (auto simp: alloc_inner_def bm layout_order_def k_def f_def Let_def)
  next
    case some
    let ?a = "free_lists b ! f"
    let ?b = "b\<lparr>free_lists := (free_lists b)[f := unat (load_u64 m ?a)]\<rparr>"
    let ?F = "F(f := remove1 ?a (F f))"
    have p: "p = ?a" "bm' = split_loop (?b, m) ?a k f"
      using e some by (auto simp: alloc_inner_def bm layout_order_def k_def f_def Let_def)
    have a: "?a \<in> set (F f)" "lists_rep (?b, m) ?F"
      using pop_rep [of b m F, OF _ some(2) refl fs(3) [OF some(2)]] r by (simp_all add: heap_rep_def bm)
    have wf: "lists_wf F" "coalesced F" using r by (simp_all add: heap_rep_def)
    obtain F' where "lists_rep bm' F'" "hole F' (k, ?a)" "coalesced F'"
      "bytes (blocks F') \<union> span (k, ?a) = bytes (blocks ?F) \<union> span (f, ?a)"
      using split_loop_rep [OF a(2) hole_remove(1) [OF wf(1) some(2) a(1)] coalesced_remove [OF wf(2)] fs(1)]
      unfolding p by blast
    then show ?thesis
      using some fs(3) hole_remove(2) [OF wf(1) some(2) a(1)]
      unfolding heap_rep_def p(1) k_def [symmetric] by (auto simp: hole_def)
  qed
qed

lemma merge_loop_rep:
  "lists_rep bm F \<Longrightarrow> hole F (k, a) \<Longrightarrow> coalesced F \<Longrightarrow>
   \<exists>j c bm' F'. merge_loop bm a k = Some (c, j, bm') \<and> lists_rep bm' F' \<and> hole F' (j, c) \<and> coalesced F' \<and>
     (j < MAX_ORDER \<longrightarrow> c XOR block_size j \<notin> set (F' j)) \<and>
     bytes (blocks F') \<union> span (j, c) = bytes (blocks F) \<union> span (k, a)"
proof (induction "MAX_ORDER - k" arbitrary: k a bm F)
  case 0
  then have "k = MAX_ORDER" using hole_order [OF "0.prems"(2)] by simp
  then have "merge_loop bm a k = Some (a, k, bm)" "\<not> k < MAX_ORDER" by (simp_all add: merge_loop.simps [of bm a])
  then show ?case using "0.prems" by blast
next
  case (Suc n)
  let ?b = "a XOR block_size k"
  have k: "k < MAX_ORDER" using Suc.hyps(2) by simp
  have wf: "lists_wf F" and ok: "block_ok (k, a)" using Suc.prems(2) by (simp_all add: hole_def)
  show ?case
  proof (cases "?b \<in> set (F k)")
    case True
    let ?F = "F(k := remove1 ?b (F k))"
    obtain bm1 where u: "unlink_loop bm (ListHead k) ?b = Some (True, bm1)" and r: "lists_rep bm1 ?F"
      using unlink_rep [OF Suc.prems(1) wf _ True] k by (metis less_imp_le_nat)
    have n: "n = MAX_ORDER - Suc k" using Suc.hyps(2) by simp
    from Suc.hyps(1) [OF n r hole_merge(1) [OF Suc.prems(2) k True] coalesced_remove [OF Suc.prems(3)]]
    show ?thesis
      using u k hole_merge(2) [OF Suc.prems(2) k True]
      by (simp add: merge_loop.simps [of bm a k] del: fun_upd_apply)
  next
    case False
    show ?thesis
    proof (cases "?b = 0")
      case True
      have "chain (snd bm) (F k) (read_slot bm (ListHead k))"
        using Suc.prems(1) k by (simp add: lists_rep_def)
      then have "unlink_loop bm (ListHead k) 0 = Some (False, bm)" by (rule unlink_loop_null)
      then show ?thesis using Suc.prems k False True
        by (auto simp: merge_loop.simps [of bm a k])
    next
      case b0: False
      have "unlink_loop bm (ListHead k) ?b = Some (False, bm)"
        using unlink_none [OF Suc.prems(1) _ False b0] k by simp
      then show ?thesis using Suc.prems k False
        by (auto simp: merge_loop.simps [of bm a k])
    qed
  qed
qed

lemma dealloc_inner_rep:
  assumes r: "heap_rep bm F" and h: "hole F (layout_order l, p)"
  shows "\<exists>bm' F'. dealloc_inner bm p l = Some bm' \<and> heap_rep bm' F' \<and>
     bytes (blocks F') = bytes (blocks F) \<union> span (layout_order l, p)"
proof -
  obtain j c bm' F' where m: "merge_loop bm p (layout_order l) = Some (c, j, bm')"
    and f: "lists_rep bm' F'" "hole F' (j, c)" "coalesced F'" "j < MAX_ORDER \<Longrightarrow> c XOR block_size j \<notin> set (F' j)"
    and b: "bytes (blocks F') \<union> span (j, c) = bytes (blocks F) \<union> span (layout_order l, p)"
    using merge_loop_rep [OF _ h] r unfolding heap_rep_def by blast
  have "dealloc_inner bm p l = Some (add_to_free_list bm' c j)"
    using m by (simp add: dealloc_inner_def layout_order_def)
  moreover have "heap_rep (add_to_free_list bm' c j) (F'(j := c # F' j))"
    using add_to_free_list_rep [OF f(1,2)] lists_wf_push [OF f(2)] coalesced_push [OF f(3,4)]
    by (simp add: heap_rep_def)
  moreover have "bytes (blocks (F'(j := c # F' j))) = bytes (blocks F) \<union> span (layout_order l, p)"
    using b blocks_push [OF hole_order [OF f(2)], of F' c] by auto
  ultimately show ?thesis by blast
qed

subsection \<open>Coalescing is complete\<close>

text \<open>
  Aligned blocks are nested or disjoint, so a region that is free as a whole lies in one free
  block as soon as no two free blocks are buddies.
\<close>

lemma aligned_overlap:
  assumes "block_size k dvd a" "block_size j dvd b" "k \<le> j" "x \<in> span (k, a)" "x \<in> span (j, b)"
  shows "span (k, a) \<subseteq> span (j, b)"
proof -
  obtain q where q: "block_size j = block_size k * q" using block_size_dvd [OF assms(3)] by (elim dvdE)
  obtain r where r: "a = block_size k * r" using assms(1) by (elim dvdE)
  obtain s where s: "b = block_size k * s" using assms(2) q by (auto elim!: dvdE)
  let ?n = "block_size k"
  have "?n * r < ?n * (s + q)" "?n * s < ?n * (r + 1)"
    using assms(4,5) by (auto simp: span.simps q r s algebra_simps)
  then have "s \<le> r" "r + 1 \<le> s + q" unfolding mult_less_cancel1 by simp_all
  then have "?n * s \<le> ?n * r" "?n * (r + 1) \<le> ?n * (s + q)" by (simp_all only: mult_le_mono2)
  then show ?thesis by (simp add: span_subset_iff q r s algebra_simps)
qed

lemma coalesced_cover:
  assumes wf: "lists_wf F" and c: "coalesced F"
  shows "k \<le> MAX_ORDER \<Longrightarrow> block_size k dvd a \<Longrightarrow> span (k, a) \<subseteq> bytes (blocks F) \<Longrightarrow>
    \<exists>j b. (j, b) \<in> blocks F \<and> k \<le> j \<and> span (k, a) \<subseteq> span (j, b)"
proof (induction k arbitrary: a)
  have al: "block_size j dvd b" if "(j, b) \<in> blocks F" for j b
    using wf that by (auto simp: lists_wf_def separate_def)
  {
    case 0
    obtain j b where "(j, b) \<in> blocks F" "a \<in> span (j, b)"
      using "0.prems"(3) start_in_span [of a 0] by (force simp: bytes_def)
    then show ?case using aligned_overlap [OF "0.prems"(2) al _ start_in_span] by blast
  next
    case (Suc k)
    let ?u = "a + block_size k"
    have d: "block_size k dvd a" "block_size k dvd ?u"
      using Suc.prems(2) by (auto simp: block_size_Suc elim: dvd_mult_right)
    obtain i b where i: "(i, b) \<in> blocks F" "k \<le> i" "span (k, a) \<subseteq> span (i, b)"
      using Suc.IH [OF _ d(1)] Suc.prems by (auto simp: span_Suc)
    obtain j c where j: "(j, c) \<in> blocks F" "k \<le> j" "span (k, ?u) \<subseteq> span (j, c)"
      using Suc.IH [OF _ d(2)] Suc.prems by (auto simp: span_Suc)
    have big: ?case if "(n, e) \<in> blocks F" "Suc k \<le> n" "x \<in> span (Suc k, a)" "x \<in> span (n, e)" for n e x
      using that aligned_overlap [OF Suc.prems(2) al that(2,3,4)] by blast
    show ?case
    proof (cases "Suc k \<le> i \<or> Suc k \<le> j")
      case True
      have "a \<in> span (Suc k, a)" "?u \<in> span (Suc k, a)" by (simp_all add: span_Suc)
      moreover have "a \<in> span (i, b)" "?u \<in> span (j, c)" using i(3) j(3) by auto
      ultimately show ?thesis using big [OF i(1)] big [OF j(1)] True by blast
    next
      case False
      then have "i = k" "j = k" using i j by simp_all
      then have "a \<in> set (F k)" "?u \<in> set (F k)"
        using i j by (auto simp: span_subset_iff blocks_def)
      moreover have "a XOR block_size k = ?u" by (rule lower_buddy [OF Suc.prems(2)])
      moreover have "k < MAX_ORDER" using Suc.prems(1) by simp
      ultimately have False using c unfolding coalesced_def by metis
      then show ?thesis ..
    qed
  }
qed

subsection \<open>Initialisation tiles the arena\<close>

lemma init_order_spec:
  "cur + block_size n < U64_LIMIT \<Longrightarrow> \<exists>r. init_order cur hend n = Inr r \<and> r \<le> n \<and>
     (r = 0 \<or> cur + block_size r \<le> hend \<and> block_size r dvd cur) \<and>
     (\<forall>j. r < j \<longrightarrow> j \<le> n \<longrightarrow> \<not> (cur + block_size j \<le> hend \<and> block_size j dvd cur))"
proof (induction n)
  case 0
  then show ?case by simp
next
  case (Suc n)
  have lt: "cur + block_size n < U64_LIMIT" using Suc.prems by (simp add: block_size_Suc)
  have step: "init_order cur hend (Suc n) =
      (if cur + block_size (Suc n) \<le> hend \<and> block_size (Suc n) dvd cur then Inr (Suc n) else init_order cur hend n)"
    using Suc.prems by (simp add: aligned_mask [of cur "Suc n", simplified] add_u64_ok)
  show ?case
  proof (cases "cur + block_size (Suc n) \<le> hend \<and> block_size (Suc n) dvd cur")
    case True
    then show ?thesis using step by auto
  next
    case False
    then show ?thesis using step Suc.IH [OF lt] by (auto simp: le_Suc_eq)
  qed
qed

definition greedy :: "nat \<Rightarrow> lists \<Rightarrow> bool" where
  "greedy hend F \<longleftrightarrow> (\<forall>k<MAX_ORDER. \<forall>a\<in>set (F k). \<not> (a + block_size (Suc k) \<le> hend \<and> block_size (Suc k) dvd a))"

lemma greedy_push_coalesced:
  assumes "greedy hend F" "coalesced F" "hole F (k, a)" "a + block_size k \<le> hend"
    and below: "\<forall>x\<in>set (F k). x < a"
  shows "coalesced (F(k := a # F k))"
proof (rule coalesced_push [OF assms(2)])
  assume k: "k < MAX_ORDER"
  have "block_size k dvd a" using assms(3) by (simp add: hole_def)
  then show "a XOR block_size k \<notin> set (F k)"
  proof (cases rule: buddy_cases)
    case lower
    then show ?thesis using below by auto
  next
    case (upper c)
    then have "block_size (Suc k) dvd c" "c + block_size (Suc k) \<le> hend"
      using assms(4) by (auto simp: block_size_Suc)
    then show ?thesis using assms(1) k upper(3) by (auto simp: greedy_def)
  qed
qed

lemma init_loop_rep:
  assumes "heap_rep bm F" "greedy hend F" "bytes (blocks F) = {hs ..< cur}"
    and "hs \<le> cur" "cur \<le> hend" "0 < hs" "32 dvd cur" "32 dvd hend"
    and "hend + block_size MAX_ORDER < U64_LIMIT"
  shows "\<exists>bm' F'. init_loop bm cur hend = Inr bm' \<and> heap_rep bm' F' \<and> bytes (blocks F') = {hs ..< hend}"
  using assms
proof (induction bm cur hend arbitrary: F rule: init_loop.induct)
  case (1 bm cur hend)
  show ?case
  proof (cases "cur < hend")
    case False
    then have "init_loop bm cur hend = Inr bm" "cur = hend" using "1.prems" by (simp_all add: init_loop.simps [of bm])
    then show ?thesis using "1.prems" by blast
  next
    case True
    have lim: "cur + block_size MAX_ORDER < U64_LIMIT" using "1.prems"(9) True by simp
    then obtain r where r: "init_order cur hend MAX_ORDER = Inr r" "r \<le> MAX_ORDER"
        "r = 0 \<or> cur + block_size r \<le> hend \<and> block_size r dvd cur"
        "\<forall>j. r < j \<longrightarrow> j \<le> MAX_ORDER \<longrightarrow> \<not> (cur + block_size j \<le> hend \<and> block_size j dvd cur)"
      using init_order_spec [OF lim, of hend] by blast
    have "cur + 32 \<le> hend" using "1.prems"(7,8) True by (auto elim!: dvdE)
    then have fit: "cur + block_size r \<le> hend" "block_size r dvd cur"
      using r(3) "1.prems"(7) by (auto simp: block_size_eq [of 0])
    have lt: "cur + block_size r < U64_LIMIT" using fit(1) "1.prems"(9) by simp
    have step: "init_loop bm cur hend = init_loop (add_to_free_list bm cur r) (cur + block_size r) hend"
      using True r(1) fit(1) by (simp add: init_loop.simps [of bm] add_u64_ok [OF lt])
    have h: "hole F (r, cur)"
      using "1.prems" fit r(2) lt by (auto simp: hole_def heap_rep_def span.simps)
    have "x < cur" if "x \<in> set (F r)" for x
      using that "1.prems"(3) r(2) start_in_span [of x r] by (force simp: bytes_def blocks_def)
    then have "coalesced (F(r := cur # F r))"
      using "1.prems"(1,2) h fit by (intro greedy_push_coalesced) (auto simp: heap_rep_def)
    then have rep: "heap_rep (add_to_free_list bm cur r) (F(r := cur # F r))"
      using "1.prems"(1) add_to_free_list_rep [OF _ h] lists_wf_push [OF h] by (simp add: heap_rep_def)
    have g: "greedy hend (F(r := cur # F r))" using "1.prems"(2) r(4) by (auto simp: greedy_def)
    have b: "bytes (blocks (F(r := cur # F r))) = {hs ..< cur + block_size r}"
      using "1.prems"(3,4) by (auto simp: blocks_push [OF r(2)] span.simps)
    have "32 dvd cur + block_size r" using "1.prems"(7) dvd_block_size_32 by (rule dvd_add)
    then show ?thesis unfolding step
      using "1.IH" [OF True less_irrefl rep g b] fit "1.prems" by auto
  qed
qed

lemma heap_rep_empty: "heap_rep (empty_buddy\<lparr>heap_start := hs, heap_size := n\<rparr>, m) (\<lambda>k. [])"
  by (auto simp: heap_rep_def lists_rep_def lists_wf_def coalesced_def empty_buddy_def blocks_def separate_def
      simp del: replicate_Suc)

lemma buddy_init_rep:
  assumes "0 < hs" "32 dvd hs" "32 dvd n" "hs + n + block_size MAX_ORDER < U64_LIMIT"
  shows "\<exists>bm F. buddy_init (empty_buddy, m) hs n = Inr bm \<and> heap_rep bm F \<and> bytes (blocks F) = {hs ..< hs + n}"
proof -
  have "hs + n < U64_LIMIT" using assms(4) by simp
  then have "buddy_init (empty_buddy, m) hs n = init_loop (empty_buddy\<lparr>heap_start := hs, heap_size := n\<rparr>, m) hs (hs + n)"
    by (simp add: buddy_init_def add_u64_def)
  moreover have "greedy (hs + n) (\<lambda>k. [])" "bytes (blocks (\<lambda>k. [])) = {hs ..< hs}"
    by (simp_all add: greedy_def blocks_def)
  ultimately show ?thesis
    using init_loop_rep [OF heap_rep_empty, of "hs + n" hs hs] assms by simp
qed

subsection \<open>The heap in use\<close>

text \<open>
  A run of the heap: the allocator and the set of blocks its clients hold, with the layout
  each was requested with. Between calls a client may overwrite the bytes it asked for.
\<close>

fun user_bytes :: "nat \<times> layout \<Rightarrow> nat set" where
  "user_bytes (p, l) = {p ..< p + l_size l}"

inductive heap_run :: "nat \<Rightarrow> nat \<Rightarrow> buddy \<times> memory \<Rightarrow> (nat \<times> layout) set \<Rightarrow> bool" for hs n where
  boot: "buddy_init (empty_buddy, m) hs n = Inr bm \<Longrightarrow> heap_run hs n bm {}"
| alloc: "heap_run hs n bm L \<Longrightarrow> alloc_inner bm l = (p, bm') \<Longrightarrow>
    heap_run hs n bm' (if p = 0 then L else insert (p, l) L)"
| client_write: "heap_run hs n (b, m) L \<Longrightarrow> (\<And>x. x \<notin> \<Union> (user_bytes ` L) \<Longrightarrow> m' x = m x) \<Longrightarrow>
    heap_run hs n (b, m') L"
| dealloc: "heap_run hs n bm L \<Longrightarrow> (p, l) \<in> L \<Longrightarrow> dealloc_inner bm p l = Some bm' \<Longrightarrow>
    heap_run hs n bm' (L - {(p, l)})"

definition heap_arena :: "nat \<Rightarrow> nat \<Rightarrow> bool" where
  "heap_arena hs n \<longleftrightarrow> 0 < hs \<and> 32 dvd hs \<and> 32 dvd n \<and> hs + n + block_size MAX_ORDER < U64_LIMIT"

fun live_block :: "nat \<times> layout \<Rightarrow> nat \<times> nat" where
  "live_block (p, l) = (layout_order l, p)"

definition live_ok :: "lists \<Rightarrow> (nat \<times> layout) set \<Rightarrow> bool" where
  "live_ok F L \<longleftrightarrow> (\<forall>x\<in>L. hole F (live_block x) \<and> request_size (snd x) \<le> block_size (layout_order (snd x))) \<and>
     pairwise (\<lambda>x y. span (live_block x) \<inter> span (live_block y) = {}) L"

definition heap_inv :: "nat set \<Rightarrow> buddy \<times> memory \<Rightarrow> (nat \<times> layout) set \<Rightarrow> bool" where
  "heap_inv A bm L \<longleftrightarrow> (\<exists>F. heap_rep bm F \<and> live_ok F L \<and> bytes (blocks F) \<union> bytes (live_block ` L) = A)"

lemma live_user_bytes: "live_ok F L \<Longrightarrow> x \<in> L \<Longrightarrow> user_bytes x \<subseteq> span (live_block x)"
  by (cases x) (force simp: live_ok_def span.simps request_size_def)

lemma heap_inv_alloc:
  assumes "heap_inv A bm L" "alloc_inner bm l = (p, bm')"
  shows "heap_inv A bm' (if p = 0 then L else insert (p, l) L)"
proof -
  obtain F where F: "heap_rep bm F" "live_ok F L" "bytes (blocks F) \<union> bytes (live_block ` L) = A"
    using assms(1) unfolding heap_inv_def by blast
  show ?thesis
  proof (cases "p = 0")
    case True
    then show ?thesis using alloc_inner_rep [OF F(1) assms(2)] assms(1) by auto
  next
    case False
    then obtain F' where F': "heap_rep bm' F'" "hole F' (layout_order l, p)"
      "bytes (blocks F) = bytes (blocks F') \<union> span (layout_order l, p)" "request_size l \<le> block_size (layout_order l)"
      using alloc_inner_rep [OF F(1) assms(2)] by auto
    have keep: "hole F' (live_block x)" "span (layout_order l, p) \<inter> span (live_block x) = {}" if "x \<in> L" for x
      using F(2) F'(2,3) that by (auto simp: live_ok_def hole_def)
    then have "live_ok F' (insert (p, l) L)"
      using F(2) F'(2,4) unfolding live_ok_def pairwise_insert by (auto simp: inf_commute)
    moreover have "bytes (blocks F') \<union> bytes (live_block ` insert (p, l) L) = A" using F(3) F'(3) by auto
    ultimately show ?thesis using F'(1) False unfolding heap_inv_def by auto
  qed
qed

lemma heap_inv_dealloc:
  assumes "heap_inv A bm L" "(p, l) \<in> L"
  shows "\<exists>bm'. dealloc_inner bm p l = Some bm' \<and> heap_inv A bm' (L - {(p, l)})"
proof -
  obtain F where F: "heap_rep bm F" "live_ok F L" "bytes (blocks F) \<union> bytes (live_block ` L) = A"
    using assms(1) unfolding heap_inv_def by blast
  have "hole F (layout_order l, p)" using F(2) assms(2) by (auto simp: live_ok_def)
  from dealloc_inner_rep [OF F(1) this] obtain bm' F' where d: "dealloc_inner bm p l = Some bm'"
    and F': "heap_rep bm' F'" "bytes (blocks F') = bytes (blocks F) \<union> span (layout_order l, p)" by blast
  have apart: "span (live_block x) \<inter> span (layout_order l, p) = {}" if "x \<in> L - {(p, l)}" for x
    using F(2) assms(2) that pairwiseD [of _ L x "(p, l)"] unfolding live_ok_def by fastforce
  then have "live_ok F' (L - {(p, l)})"
    using F(2) F' unfolding live_ok_def by (auto simp: hole_def heap_rep_def intro: pairwise_subset)
  moreover have "bytes (blocks F') \<union> bytes (live_block ` (L - {(p, l)})) = A"
    using F(3) F'(2) assms(2) by (auto simp: bytes_def)
  ultimately show ?thesis using d F'(1) unfolding heap_inv_def by blast
qed

lemma heap_inv_write:
  assumes "heap_inv A (b, m) L" and m': "\<And>x. x \<notin> \<Union> (user_bytes ` L) \<Longrightarrow> m' x = m x"
  shows "heap_inv A (b, m') L"
proof -
  obtain F where F: "heap_rep (b, m) F" "live_ok F L" "bytes (blocks F) \<union> bytes (live_block ` L) = A"
    using assms(1) unfolding heap_inv_def by blast
  have "load_u64 m' a = load_u64 m a" if "k \<le> MAX_ORDER" "a \<in> set (F k)" for k a
  proof (rule load_u64_cong, rule m')
    fix i :: nat assume "i < 8"
    then have "a + i \<in> span (k, a)" using block_size_ge_32 [of k] by (simp add: span.simps)
    then have "a + i \<in> bytes (blocks F)" using that by (auto simp: bytes_def blocks_def)
    then show "a + i \<notin> \<Union> (user_bytes ` L)"
      using F(2) live_user_bytes [OF F(2)] by (fastforce simp: live_ok_def hole_def)
  qed
  then have "lists_rep (b, m') F"
    using F(1) chain_cong [of _ m' m] by (auto simp: heap_rep_def lists_rep_def)
  then show ?thesis using F unfolding heap_inv_def heap_rep_def by blast
qed

lemma heap_run_inv: "heap_run hs n bm L \<Longrightarrow> heap_arena hs n \<Longrightarrow> heap_inv {hs ..< hs + n} bm L"
proof (induction rule: heap_run.induct)
  case (boot m bm)
  then obtain F where "heap_rep bm F" "bytes (blocks F) = {hs ..< hs + n}"
    using buddy_init_rep [of hs n m] by (auto simp: heap_arena_def)
  then show ?case by (auto simp: heap_inv_def live_ok_def)
next
  case (alloc bm L l p bm')
  then show ?case using heap_inv_alloc by blast
next
  case (client_write b m L m')
  show ?case by (rule heap_inv_write [of _ b m]) (use client_write in auto)
next
  case (dealloc bm L p l bm')
  then show ?case using heap_inv_dealloc [of _ bm L p l] by auto
qed

lemma live_aligned:
  assumes "live_ok F L" "(p, l) \<in> L" "l_align l = 2 ^ i"
  shows "l_align l dvd p"
proof -
  have b: "block_size (layout_order l) dvd p" "request_size l \<le> block_size (layout_order l)"
    using assms(1,2) by (auto simp: live_ok_def hole_def)
  then have "(2 :: nat) ^ i \<le> 2 ^ (5 + layout_order l)"
    using assms(3) by (simp add: request_size_def block_size_exp)
  then have "i \<le> 5 + layout_order l" by (rule power_le_imp_le_exp [rotated]) simp
  then have "l_align l dvd block_size (layout_order l)"
    unfolding assms(3) block_size_exp by (rule le_imp_power_dvd)
  with b(1) show ?thesis by (rule dvd_trans [rotated])
qed

text \<open>A one-block heap, for the concrete instances below.\<close>

definition example_layout :: layout where
  "example_layout = \<lparr>l_size = 24, l_align = 8\<rparr>"

lemma example_layout_simps:
  "request_size example_layout = 32" "layout_order example_layout = 0" "l_align example_layout = 2 ^ 3"
  by (simp_all add: request_size_def example_layout_def layout_order_def order_loop.simps
      block_size_eq MIN_BLOCK_SIZE_def)

lemma example_arena: "heap_arena 4096 32"
  by (simp add: heap_arena_def MAX_ORDER_def block_size_eq U64_LIMIT_def)

lemma example_run:
  obtains bm p where "heap_run 4096 32 bm {(p, example_layout)}"
    and "\<And>q bm'. alloc_inner bm example_layout = (q, bm') \<Longrightarrow> q = 0"
proof -
  obtain bm F where i: "buddy_init (empty_buddy, \<lambda>_. 0) 4096 32 = Inr bm" "heap_rep bm F"
    "bytes (blocks F) = {4096 ..< 4096 + 32}"
    using buddy_init_rep [of 4096 32 "\<lambda>_. 0"] example_arena unfolding heap_arena_def by metis
  obtain p bm' where a: "alloc_inner bm example_layout = (p, bm')" by (rule prod.exhaust)
  have "4096 \<in> bytes (blocks F)" by (simp add: i(3))
  then have "\<not> (\<forall>j\<ge>0. j \<le> MAX_ORDER \<longrightarrow> F j = [])" by (auto simp: bytes_def blocks_def)
  then have "p \<noteq> 0" and r: "\<exists>F'. heap_rep bm' F' \<and> hole F' (0, p) \<and> bytes (blocks F) = bytes (blocks F') \<union> span (0, p)"
    using alloc_inner_rep [OF i(2) a] by (auto simp: example_layout_simps block_size_eq)
  then have run: "heap_run 4096 32 bm' {(p, example_layout)}"
    using heap_run.alloc [OF heap_run.boot [OF i(1)] a] by simp
  obtain F' where F': "heap_rep bm' F'" "hole F' (0, p)" "{4096 ..< 4096 + 32} = bytes (blocks F') \<union> span (0, p)"
    using r i(3) by auto
  have "span (0, p) \<subseteq> {4096 ..< 4096 + 32}" using F'(3) by blast
  then have "p = 4096" by (simp add: span.simps block_size_eq)
  then have "bytes (blocks F') = {}" using F'(2,3) by (auto simp: hole_def span.simps block_size_eq)
  then have "q = 0" if "alloc_inner bm' example_layout = (q, bm2)" for q bm2
    using alloc_inner_rep [OF F'(1) that] span_nonempty by fastforce
  with run show thesis by (rule that)
qed

text \<open>
  C1. Heap ownership. After any sequence of allocations, deallocations and client writes, the
  bytes of every live allocation lie in the arena, are aligned as its layout asks and are
  disjoint from those of every other live allocation, and deallocating it returns.
\<close>

theorem heap_ownership:
  assumes "heap_arena hs n" "heap_run hs n bm L" "(p, l) \<in> L" "l_align l = 2 ^ i"
  shows "user_bytes (p, l) \<subseteq> {hs ..< hs + n} \<and> l_align l dvd p \<and>
    (\<forall>x\<in>L - {(p, l)}. user_bytes x \<inter> user_bytes (p, l) = {}) \<and>
    (\<exists>bm'. dealloc_inner bm p l = Some bm')"
proof -
  have inv: "heap_inv {hs ..< hs + n} bm L" using assms(2,1) by (rule heap_run_inv)
  then obtain F where F: "live_ok F L" "bytes (blocks F) \<union> bytes (live_block ` L) = {hs ..< hs + n}"
    unfolding heap_inv_def by blast
  have sub: "user_bytes x \<subseteq> span (live_block x)" if "x \<in> L" for x using F(1) that by (rule live_user_bytes)
  have "span (live_block (p, l)) \<subseteq> {hs ..< hs + n}"
    using F(2) assms(3) unfolding bytes_def by blast
  then have "user_bytes (p, l) \<subseteq> {hs ..< hs + n}" using sub [OF assms(3)] by (rule dual_order.trans)
  moreover have "user_bytes x \<inter> user_bytes (p, l) = {}" if "x \<in> L - {(p, l)}" for x
  proof -
    have "span (live_block x) \<inter> span (live_block (p, l)) = {}"
      using F(1) assms(3) that pairwiseD [of _ L x "(p, l)"] unfolding live_ok_def by fastforce
    then show ?thesis using sub [of x] sub [OF assms(3)] that by blast
  qed
  ultimately show ?thesis
    using live_aligned [OF F(1) assms(3,4)] heap_inv_dealloc [OF inv assms(3)] by blast
qed

theorem heap_ownership_witness:
  "\<exists>bm p. heap_run 4096 32 bm {(p, example_layout)} \<and> user_bytes (p, example_layout) \<subseteq> {4096 ..< 4096 + 32} \<and>
     l_align example_layout dvd p \<and> (\<exists>bm'. dealloc_inner bm p example_layout = Some bm')"
proof -
  obtain bm p where r: "heap_run 4096 32 bm {(p, example_layout)}" using example_run by metis
  show ?thesis
    using r heap_ownership [OF example_arena r singletonI example_layout_simps(3)] by blast
qed

text \<open>
  C19. No avoidable allocation failure. If an allocation that fits the largest block returns
  null, then every aligned block of its order in the arena overlaps a live allocation's
  block: coalescing never leaves a free region split.
\<close>

theorem heap_alloc_complete:
  assumes "heap_arena hs n" "heap_run hs n bm L" "alloc_inner bm l = (0, bm')"
    and "request_size l \<le> block_size MAX_ORDER"
    and "block_size (layout_order l) dvd a" "span (layout_order l, a) \<subseteq> {hs ..< hs + n}"
  shows "bm' = bm \<and> (\<exists>x\<in>L. span (live_block x) \<inter> span (layout_order l, a) \<noteq> {})"
proof -
  let ?k = "layout_order l"
  obtain F where F: "heap_rep bm F" "live_ok F L" "bytes (blocks F) \<union> bytes (live_block ` L) = {hs ..< hs + n}"
    using heap_run_inv [OF assms(2,1)] unfolding heap_inv_def by blast
  have "request_size l \<le> block_size ?k"
    using order_loop_spec [of 0 "request_size l"] assms(4) unfolding layout_order_def by auto
  then have none: "\<forall>j\<ge>?k. j \<le> MAX_ORDER \<longrightarrow> F j = []" and "bm' = bm"
    using alloc_inner_rep [OF F(1) assms(3)] by auto
  have "\<not> span (?k, a) \<subseteq> bytes (blocks F)"
    using coalesced_cover [of F ?k a] layout_order_le [of l] assms(5) none F(1)
    by (fastforce simp: heap_rep_def blocks_def)
  then obtain x where "x \<in> span (?k, a)" "x \<in> bytes (live_block ` L)" using assms(6) F(3) by blast
  then show ?thesis using \<open>bm' = bm\<close> by (auto simp: bytes_def)
qed

theorem heap_alloc_complete_witness:
  "\<exists>bm p bm'. heap_run 4096 32 bm {(p, example_layout)} \<and> alloc_inner bm example_layout = (0, bm') \<and>
     span (0, p) \<inter> span (0, 4096) \<noteq> {}"
proof -
  obtain bm p where r: "heap_run 4096 32 bm {(p, example_layout)}"
    and z: "\<And>q bm'. alloc_inner bm example_layout = (q, bm') \<Longrightarrow> q = 0" using example_run by metis
  obtain q bm' where "alloc_inner bm example_layout = (q, bm')" by (rule prod.exhaust)
  with z have a: "alloc_inner bm example_layout = (0, bm')" by auto
  have "\<exists>x\<in>{(p, example_layout)}. span (live_block x) \<inter> span (layout_order example_layout, 4096) \<noteq> {}"
    using heap_alloc_complete [OF example_arena r a, of 4096]
    by (simp add: example_layout_simps MAX_ORDER_def block_size_eq span.simps)
  then have "span (0, p) \<inter> span (0, 4096) \<noteq> {}" by (simp add: example_layout_simps)
  with r a show ?thesis by blast
qed

end
