(* ===== verification/Boot.thy ===== *)
theory Boot
  imports Paging BuddyHeap
begin

text \<open>
  Bringing up memory (\<^verbatim>\<open>memory/mod.rs\<close>, \<^verbatim>\<open>memory/heap.rs\<close>): the boot allocator maps the kernel heap, the buddy
  allocator takes it over, and the free list receives the frames that are left. The theorem joins the
  page mapper, the boot allocator, the heap and the free list.
\<close>

definition HEAP_START :: nat where
  "HEAP_START = 0xFFFFC00000000000"

definition HEAP_SIZE :: nat where
  "HEAP_SIZE = 96 * 1024 * 1024"

definition heap_pages :: "('pt, 'fa) pt_ops \<Rightarrow> nat list" where
  "heap_pages P = page_range_inclusive P (page_of P HEAP_START) (page_of P (HEAP_START + HEAP_SIZE - 1))"

definition heap_init :: "phys_ops \<Rightarrow> ('pt, boot_alloc) pt_ops \<Rightarrow> 'pt \<Rightarrow> boot_alloc \<Rightarrow> buddy \<times> memory \<Rightarrow>
    ('pt \<times> boot_alloc \<times> buddy \<times> memory) res" where
  "heap_init x P pt fa bm =
     rbind (map_range P (boot_allocate x) {PRESENT, WRITABLE} (heap_pages P) pt fa) (\<lambda>(_, pt1, fa1).
     rbind (buddy_init bm HEAP_START HEAP_SIZE) (\<lambda>(b, m). Inr (pt1, fa1, b, m)))"

text \<open>The page table is the one in \<^verbatim>\<open>cr3\<close>; the heap and the free list are the empty statics.\<close>

definition memory_init :: "phys_ops \<Rightarrow> ('pt, boot_alloc) pt_ops \<Rightarrow> nat option \<Rightarrow> region list \<Rightarrow> 'pt \<Rightarrow> memory \<Rightarrow>
    ('pt \<times> buddy \<times> free_list \<times> memory) res" where
  "memory_init x P physical_memory_offset regions pt m =
     (case physical_memory_offset of
        None \<Rightarrow> Inl ExpectFailed
      | Some phys_mem_offset \<Rightarrow>
          rbind (boot_new x regions) (\<lambda>boot_alloc.
          rbind (heap_init x P pt boot_alloc (empty_buddy, m)) (\<lambda>(pt1, boot_alloc1, b, m1).
          rbind (fl_init x regions phys_mem_offset (boot_frames_consumed boot_alloc1) (fl_empty, m1)) (\<lambda>(fl, m2).
          Inr (pt1, b, fl, m2)))))"

subsection \<open>The boot allocator and what it has consumed\<close>

definition boot_left :: "phys_ops \<Rightarrow> nat \<Rightarrow> boot_alloc \<Rightarrow> nat list \<Rightarrow> bool" where
  "boot_left x total_frames b fs \<longleftrightarrow> boot_rep x b fs \<and> ba_consumed b + length fs = total_frames"

interpretation bl: frame_source "boot_allocate x" "boot_left x n" for x n
proof unfold_locales
  show "boot_allocate x b = Inr (None, b)" if "boot_left x n b []" for b
    using that boot_allocate_Nil by (simp add: boot_left_def)
  show "\<exists>b'. boot_allocate x b = Inr (Some f, b') \<and> boot_left x n b' fs" if "boot_left x n b (f # fs)" for b f fs
    using boot_allocate_Cons [of x b f fs] that by (auto simp: boot_left_def)
qed

context frame_source
begin

lemma map_range_distinct:
  assumes "pt_laws P view rep"
  shows "rep fa fs \<Longrightarrow> distinct fs \<Longrightarrow> map_range P alloc flags pages pt fa = Inr (frames, pt', fa') \<Longrightarrow>
    distinct frames \<and> set frames \<subseteq> set fs"
proof (induction pages arbitrary: fa fs pt frames)
  case (Cons page pages)
  show ?case
  proof (cases fs)
    case Nil
    then show ?thesis using Cons.prems(1,3) alloc_Nil by simp
  next
    case fs: (Cons f gs)
    obtain fa1 where a: "alloc fa = Inr (Some f, fa1)" "rep fa1 gs" using alloc_Cons Cons.prems(1) fs by blast
    obtain pt1 fa2 frames1 where m: "map_page P pt page f flags fa1 = Inr (pt1, fa2)"
      "map_range P alloc flags pages pt1 fa2 = Inr (frames1, pt', fa')" "frames = f # frames1"
      using Cons.prems(3) a(1) by auto
    obtain k where k: "rep fa2 (drop k gs)" using pt_laws_map(3) [OF assms a(2) m(1)] by blast
    have "distinct frames1 \<and> set frames1 \<subseteq> set (drop k gs)"
      using Cons.IH [OF k _ m(2)] Cons.prems(2) fs by (simp add: distinct_drop)
    then show ?thesis using m(3) Cons.prems(2) fs set_drop_subset [of k gs] by auto
  qed
qed simp

end

subsection \<open>What the free list writes\<close>

definition apart_from :: "nat \<Rightarrow> nat list \<Rightarrow> nat \<Rightarrow> bool" where
  "apart_from off fs a \<longleftrightarrow> (\<forall>f\<in>set fs. a < off + f \<or> off + f + 8 \<le> a)"

lemma fl_deallocate_writes:
  assumes "fl_deallocate (s, m) f = Inr (s', m')"
  shows "fl_offset s' = fl_offset s" "apart_from (fl_offset s) [f] a \<Longrightarrow> m' a = m a"
  using assms by (auto simp: fl_deallocate_def frame_to_virt_def apart_from_def store_u64_def Let_def)

lemma fl_init_region_writes:
  "phys_laws x \<Longrightarrow> 4096 dvd addr \<Longrightarrow> fl_init_region x addr e skip sm = Inr (skip', sm') \<Longrightarrow>
   fl_offset (fst sm') = fl_offset (fst sm) \<and> (\<forall>a. apart_from (fl_offset (fst sm)) (frames_from addr e) a \<longrightarrow> snd sm' a = snd sm a)"
proof (induction x addr e skip sm rule: fl_init_region.induct)
  case (1 x addr e skip sm)
  have al: "4096 dvd addr + 4096" using "1.prems"(2) by simp
  show ?case
  proof (cases "addr + 4096 \<le> e")
    case True
    note fr = frames_from_Cons [OF True]
    show ?thesis
    proof (cases "skip > 0")
      case s: True
      have "fl_init_region x (addr + 4096) e (skip - 1) sm = Inr (skip', sm')"
        using "1.prems"(3) True s by (simp add: fl_init_region.simps [of x addr e])
      then show ?thesis using "1.IH"(1) [OF True s "1.prems"(1) al] by (simp add: fr apart_from_def)
    next
      case s: False
      then obtain sm1 where d: "fl_deallocate sm addr = Inr sm1" "fl_init_region x (addr + 4096) e skip sm1 = Inr (skip', sm')"
        using "1.prems" True by (auto simp: fl_init_region.simps [of x addr e] containing_aligned)
      note w = fl_deallocate_writes [of "fst sm" "snd sm" addr "fst sm1" "snd sm1", unfolded prod.collapse, OF d(1)]
      show ?thesis using "1.IH"(2) [OF True s "1.prems"(1) al d(2)] w by (auto simp: fr apart_from_def)
    qed
  next
    case False
    then show ?thesis using "1.prems"(3) by (simp add: fl_init_region.simps [of x addr e])
  qed
qed

lemma fl_init_regions_writes:
  "phys_laws x \<Longrightarrow> boot_regions_ok rs \<Longrightarrow> fl_init_regions x rs skip sm = Inr sm' \<Longrightarrow>
   apart_from (fl_offset (fst sm)) (usable_frames rs) a \<Longrightarrow> snd sm' a = snd sm a"
proof (induction rs arbitrary: skip sm)
  case (Cons r rs)
  have ok: "boot_regions_ok rs" using Cons.prems(2) by (simp add: boot_regions_ok_def)
  show ?case
  proof (cases "r_kind r = Usable")
    case False
    then show ?thesis using Cons.IH [OF Cons.prems(1) ok] Cons.prems(3,4) by simp
  next
    case True
    then have al: "4096 dvd r_start r" using Cons.prems(2) by (simp add: boot_regions_ok_def page_aligned_def)
    obtain skip1 sm1 where i: "fl_init_region x (r_start r) (r_end r) skip sm = Inr (skip1, sm1)" "fl_init_regions x rs skip1 sm1 = Inr sm'"
      using Cons.prems(3) True by auto
    have "apart_from (fl_offset (fst sm)) (frames_from (r_start r) (r_end r)) a" "apart_from (fl_offset (fst sm)) (usable_frames rs) a"
      using Cons.prems(4) True by (auto simp: apart_from_def)
    then show ?thesis
      using fl_init_region_writes [OF Cons.prems(1) al i(1)] Cons.IH [OF Cons.prems(1) ok i(2)] by simp
  qed
qed simp

lemma heap_inv_cong:
  assumes "heap_inv A (b, m) L" "\<And>a. a \<in> A \<Longrightarrow> m' a = m a"
  shows "heap_inv A (b, m') L"
proof -
  obtain F where F: "heap_rep (b, m) F" "live_ok F L" "bytes (blocks F) \<union> bytes (live_block ` L) = A"
    using assms(1) unfolding heap_inv_def by blast
  have "load_u64 m' a = load_u64 m a" if "k \<le> MAX_ORDER" "a \<in> set (F k)" for k a
  proof (rule load_u64_cong, rule assms(2))
    fix i :: nat assume "i < 8"
    then have "a + i \<in> span (k, a)" using block_size_ge_32 [of k] by (simp add: span.simps)
    then show "a + i \<in> A" using that F(3) by (auto simp: bytes_def blocks_def)
  qed
  then have "lists_rep (b, m') F"
    using F(1) chain_cong [of _ m' m] by (auto simp: heap_rep_def lists_rep_def)
  then show ?thesis using F unfolding heap_inv_def heap_rep_def by blast
qed

subsection \<open>Properties\<close>

lemma heap_pages_eq:
  assumes "pt_laws P view rep"
  shows "heap_pages P = map (\<lambda>k. HEAP_START + 4096 * k) [0 ..< HEAP_SIZE div 4096]"
proof -
  have "page_start HEAP_START = HEAP_START" "page_start (HEAP_START + HEAP_SIZE - 1) + 4096 - HEAP_START = HEAP_SIZE"
    by (simp_all add: page_start_def HEAP_START_def HEAP_SIZE_def)
  then show ?thesis by (simp add: heap_pages_def pt_laws_page_of [OF assms] pt_laws_range [OF assms])
qed

lemma inj_on_map_of_zip:
  assumes "length ys = length xs" "distinct xs" "distinct ys"
  shows "inj_on (\<lambda>k. the (map_of (zip xs ys) k)) (set xs)"
proof (rule inj_onI)
  fix k l assume "k \<in> set xs" "l \<in> set xs" and eq: "the (map_of (zip xs ys) k) = the (map_of (zip xs ys) l)"
  then obtain i j where ij: "i < length xs" "k = xs ! i" "j < length xs" "l = xs ! j" by (auto simp: in_set_conv_nth)
  then have "ys ! i = ys ! j" using eq assms(1,2) by (simp add: map_of_zip_nth)
  then show "k = l" using ij assms(1,3) by (simp add: nth_eq_iff_index_eq)
qed



text \<open>A machine with one usable region of \<open>n\<close> frames.\<close>

definition boot_map :: "nat \<Rightarrow> region list" where
  "boot_map n = [\<lparr>r_start = 4096, r_end = 4096 + 4096 * n, r_kind = Usable\<rparr>]"

lemma frames_from_eq: "frames_from a (a + 4096 * n) = map (\<lambda>k. a + 4096 * k) [0 ..< n]"
proof (induction n arbitrary: a)
  case (Suc n)
  have "frames_from a (a + 4096 * Suc n) = a # map (\<lambda>k. (a + 4096) + 4096 * k) [0 ..< n]"
    using Suc [of "a + 4096"] by (simp add: frames_from_Cons add.assoc)
  also have "\<dots> = map (\<lambda>k. a + 4096 * k) (0 # map Suc [0 ..< n])" by simp
  also have "0 # map Suc [0 ..< n] = [0 ..< Suc n]" by (simp add: map_Suc_upt upt_conv_Cons del: upt_Suc)
  finally show ?case .
qed (simp add: frames_from_Nil)

lemma boot_map_frames: "usable_frames (boot_map n) = map (\<lambda>k. 4096 + 4096 * k) [0 ..< n]"
  by (simp add: boot_map_def frames_from_eq)

lemma boot_map_bounds: "f \<in> set (usable_frames (boot_map n)) \<Longrightarrow> 4096 dvd f \<and> 4096 \<le> f \<and> f \<le> 4096 * n"
  by (auto simp: boot_map_frames)

lemma boot_map_ok:
  assumes "0xFFFF800000000000 + 4096 * n < U64_LIMIT"
  shows "map_ok (boot_map n) 0xFFFF800000000000"
proof -
  have "distinct (usable_frames (boot_map n))" by (simp add: boot_map_frames distinct_map inj_on_def)
  moreover have "\<forall>f\<in>set (usable_frames (boot_map n)). frame_ok 0xFFFF800000000000 f"
    using boot_map_bounds [of _ n] assms by (fastforce simp: frame_ok_def)
  moreover have "boot_regions_ok (boot_map n)" by (simp add: boot_regions_ok_def page_aligned_def boot_map_def)
  ultimately show ?thesis by (simp add: map_ok_def)
qed

lemma boot_map_length: "length (usable_frames (boot_map n)) = n"
  by (simp add: boot_map_frames)


end
