(* ===== verification/Crc.thy ===== *)
theory Crc
  imports Prelude
begin

text \<open>
  The CRC-32 of \<^verbatim>\<open>kernel/src/io/crc.rs\<close>: the table built at compile time, the table-driven
  checksum, and its equivalence with the bit-serial shift register. Linearity of the register
  gives the equivalence; injectivity of its step gives the detection of burst errors.
\<close>

unbundle bit_operations_syntax

definition CRC32_POLY :: u32 where
  "CRC32_POLY = 0xEDB88320"

definition crc_bit :: "u32 \<Rightarrow> u32" where
  "crc_bit crc = (if crc AND 1 \<noteq> 0 then drop_bit 1 crc XOR CRC32_POLY else drop_bit 1 crc)"

function build_table_inner :: "nat \<Rightarrow> u32 \<Rightarrow> u32" where
  "build_table_inner j crc = (if j < 8 then build_table_inner (j + 1) (crc_bit crc) else crc)"
  by pat_completeness auto
termination
  by (relation "measure (\<lambda>(j, crc). 8 - j)") auto

declare build_table_inner.simps [simp del]

definition build_table :: "u32 list" where
  "build_table = map (\<lambda>i. build_table_inner 0 (word_of_nat i)) [0..<256]"

definition TABLE :: "u32 list" where
  "TABLE = build_table"

definition crc_update :: "u32 \<Rightarrow> u8 \<Rightarrow> u32" where
  "crc_update crc b = drop_bit 8 crc XOR (TABLE ! unat ((crc XOR ucast b) AND 0xFF))"

definition crc32 :: "u8 list \<Rightarrow> u32" where
  "crc32 data = NOT (foldl crc_update (NOT 0) data)"

text \<open>The bit-serial reference: one byte is eight steps of the shift register.\<close>

definition crc_byte_serial :: "u32 \<Rightarrow> u8 \<Rightarrow> u32" where
  "crc_byte_serial crc b = (crc_bit ^^ 8) (crc XOR ucast b)"

definition crc32_serial :: "u8 list \<Rightarrow> u32" where
  "crc32_serial data = NOT (foldl crc_byte_serial (NOT 0) data)"

subsection \<open>The register is linear and injective\<close>

lemma crc_bit_alt: "crc_bit c = drop_bit 1 c XOR (if bit c 0 then CRC32_POLY else 0)"
  by (simp add: crc_bit_def and_one_eq bit_0 even_iff_mod_2_eq_zero odd_iff_mod_2_eq_one)

lemma crc_bit_xor: "crc_bit (a XOR b) = crc_bit a XOR crc_bit b"
  by (auto simp: crc_bit_alt bit_xor_iff drop_bit_xor ac_simps)

lemma crc_bits_xor: "(crc_bit ^^ n) (a XOR b) = (crc_bit ^^ n) a XOR (crc_bit ^^ n) b"
  by (induction n) (simp_all add: crc_bit_xor)

lemma crc_bits_low_zero: "\<forall>i<n. \<not> bit c i \<Longrightarrow> (crc_bit ^^ n) c = drop_bit n c"
proof (induction n arbitrary: c)
  case 0
  then show ?case by simp
next
  case (Suc n)
  have low: "crc_bit c = drop_bit 1 c"
    using Suc.prems by (simp add: crc_bit_alt)
  have "\<forall>i<n. \<not> bit (drop_bit 1 c) i"
    using Suc.prems by (simp add: bit_drop_bit_eq)
  then have "(crc_bit ^^ n) (drop_bit 1 c) = drop_bit n (drop_bit 1 c)"
    by (rule Suc.IH)
  then show ?case
    using low by (simp add: funpow_Suc_right del: funpow.simps)
qed

lemma build_table_inner_eq: "j \<le> 8 \<Longrightarrow> build_table_inner j c = (crc_bit ^^ (8 - j)) c"
proof (induction j c rule: build_table_inner.induct)
  case (1 j c)
  show ?case
  proof (cases "j < 8")
    case True
    then have "8 - j = Suc (8 - (j + 1))" by simp
    with True "1.IH" show ?thesis
      by (simp add: build_table_inner.simps [of j c] funpow_Suc_right del: funpow.simps)
  next
    case False
    with "1.prems" have "j = 8" by simp
    then show ?thesis by (simp add: build_table_inner.simps [of 8 c])
  qed
qed

lemma TABLE_nth: "i < 256 \<Longrightarrow> TABLE ! i = (crc_bit ^^ 8) (word_of_nat i)"
  by (simp add: TABLE_def build_table_def build_table_inner_eq del: funpow.simps)

lemma ff_mask: "(0xFF :: u32) = mask 8"
  by (simp add: mask_eq_exp_minus_1)

lemma word_split_xor: "(x :: 'a::len word) = (x AND NOT (mask n)) XOR (x AND mask n)"
  by (rule bit_eqI) (auto simp: bit_simps)

lemma crc_bits_split:
  "(crc_bit ^^ n) x = drop_bit n x XOR (crc_bit ^^ n) (x AND mask n)"
proof -
  have high: "(crc_bit ^^ n) (x AND NOT (mask n)) = drop_bit n (x AND NOT (mask n))"
    by (rule crc_bits_low_zero) (auto simp: bit_simps)
  have drop: "drop_bit n (x AND NOT (mask n)) = drop_bit n x"
    by (rule bit_eqI) (auto simp: bit_simps dest: bit_imp_le_length)
  have "(crc_bit ^^ n) x = (crc_bit ^^ n) (x AND NOT (mask n)) XOR (crc_bit ^^ n) (x AND mask n)"
    by (subst word_split_xor [of x n]) (rule crc_bits_xor)
  then show ?thesis by (simp only: high drop)
qed

lemma drop_bit_xor_byte: "drop_bit 8 (c XOR ucast (b :: u8)) = drop_bit 8 (c :: u32)"
  by (rule bit_eqI) (auto simp: bit_simps dest: bit_imp_le_length)

lemma crc_update_serial: "crc_update c b = crc_byte_serial c b"
proof -
  let ?x = "c XOR ucast b :: u32"
  have "unat (?x AND 0xFF) \<le> unat (0xFF :: u32)"
    by (rule word_and_le1 [THEN word_le_nat_alt [THEN iffD1]])
  then have "TABLE ! unat (?x AND 0xFF) = (crc_bit ^^ 8) (?x AND 0xFF)"
    by (simp add: TABLE_nth del: funpow.simps)
  then show ?thesis
    unfolding crc_update_def crc_byte_serial_def crc_bits_split [of 8 ?x]
    by (simp only: ff_mask drop_bit_xor_byte)
qed

lemma crc_bit_inj: "crc_bit a = crc_bit b \<Longrightarrow> a = b"
proof -
  assume eq: "crc_bit a = crc_bit b"
  have top: "bit (crc_bit c) 31 \<longleftrightarrow> bit c 0" for c :: u32
    by (auto simp: crc_bit_alt bit_simps CRC32_POLY_def dest: bit_imp_le_length)
  have low: "bit a 0 = bit b 0" using eq top by metis
  with eq have "drop_bit 1 a = drop_bit 1 b" by (simp only: crc_bit_alt xor_cancel_right)
  then have "bit a (Suc i) = bit b (Suc i)" for i
    by (metis bit_drop_bit_eq comp_apply plus_1_eq_Suc)
  with low show "a = b"
    by (metis bit_eqI not0_implies_Suc)
qed

lemma crc_bits_inj: "(crc_bit ^^ n) a = (crc_bit ^^ n) b \<Longrightarrow> a = b"
  by (induction n) (auto dest: crc_bit_inj)

subsection \<open>Burst errors\<close>

text \<open>The little-endian word of at most four bytes.\<close>

fun le_word :: "u8 list \<Rightarrow> u32" where
  "le_word [] = 0"
| "le_word (b # bs) = ucast b XOR push_bit 8 (le_word bs)"

lemma bit_le_word_low: "i < 8 \<Longrightarrow> bit (le_word (b # bs)) i = bit b i"
  by (simp add: bit_xor_iff bit_push_bit_iff bit_unsigned_iff)

lemma bit_le_word_high: "i + 8 < 32 \<Longrightarrow> bit (le_word (b # bs)) (i + 8) = bit (le_word bs) i"
  using bit_imp_le_length [of b "i + 8"]
  by (auto simp: bit_xor_iff bit_push_bit_iff bit_unsigned_iff)

lemma bit_le_word: "bit (le_word bs) i \<Longrightarrow> i < 8 * length bs"
proof (induction bs arbitrary: i)
  case Nil
  then show ?case by simp
next
  case (Cons b bs)
  show ?case
  proof (cases "i < 8")
    case True
    then show ?thesis by simp
  next
    case False
    then obtain j where j: "i = j + 8" using le_Suc_ex [of 8 i] by (auto simp: add.commute)
    with Cons.prems bit_imp_le_length [OF Cons.prems] have "bit (le_word bs) j"
      by (simp only: bit_le_word_high) (simp add: bit_le_word_high del: le_word.simps)
    with Cons.IH j show ?thesis by simp
  qed
qed

lemma crc_bits_push: "length bs \<le> 3 \<Longrightarrow> (crc_bit ^^ 8) (push_bit 8 (le_word bs)) = le_word bs"
proof -
  assume len: "length bs \<le> 3"
  have "(crc_bit ^^ 8) (push_bit 8 (le_word bs)) = drop_bit 8 (push_bit 8 (le_word bs))"
    by (rule crc_bits_low_zero) (auto simp: bit_simps)
  also have "\<dots> = le_word bs"
  proof (rule bit_eqI)
    fix n
    show "bit (drop_bit 8 (push_bit 8 (le_word bs))) n = bit (le_word bs) n"
      using bit_le_word [of bs n] len by (auto simp: bit_simps)
  qed
  finally show ?thesis .
qed

lemma foldl_crc_serial:
  "length bs \<le> 4 \<Longrightarrow>
   foldl crc_byte_serial s bs = (crc_bit ^^ (8 * length bs)) (s XOR le_word bs)"
proof (induction bs arbitrary: s)
  case Nil
  then show ?case by simp
next
  case (Cons b bs)
  have "foldl crc_byte_serial s (b # bs) =
        (crc_bit ^^ (8 * length bs)) (crc_byte_serial s b XOR le_word bs)"
    using Cons by simp
  also have "crc_byte_serial s b XOR le_word bs = (crc_bit ^^ 8) (s XOR le_word (b # bs))"
    using Cons.prems
    by (simp add: crc_byte_serial_def crc_bits_xor crc_bits_push ac_simps del: funpow.simps)
  also have "(crc_bit ^^ (8 * length bs)) \<dots> = (crc_bit ^^ (8 * length (b # bs))) (s XOR le_word (b # bs))"
    by (simp only: list.size funpow_add [THEN fun_cong, symmetric, simplified comp_apply])
      (simp add: algebra_simps)
  finally show ?case .
qed

lemma le_word_inj: "length xs = length ys \<Longrightarrow> length xs \<le> 4 \<Longrightarrow> le_word xs = le_word ys \<Longrightarrow> xs = ys"
proof (induction xs ys rule: list_induct2)
  case Nil
  then show ?case by simp
next
  case (Cons x xs y ys)
  have len: "length ys \<le> 3" "length xs \<le> 3" using Cons by auto
  have bits: "bit (le_word (x # xs)) i = bit (le_word (y # ys)) i" for i
    using Cons.prems by (simp only:)
  have "x = y"
  proof (rule bit_eqI)
    fix i assume "possible_bit TYPE(u8) i"
    then have "i < 8" by simp
    then show "bit x i = bit y i" using bits [of i] by (simp only: bit_le_word_low)
  qed
  moreover have "le_word xs = le_word ys"
  proof (rule bit_eqI)
    fix i
    show "bit (le_word xs) i = bit (le_word ys) i"
    proof (cases "i + 8 < 32")
      case True
      then show ?thesis using bits [of "i + 8"] by (simp only: bit_le_word_high)
    next
      case False
      then show ?thesis using bit_le_word [of xs i] bit_le_word [of ys i] len by fastforce
    qed
  qed
  ultimately show ?case using Cons by simp
qed

lemma crc_serial_state_inj:
  "foldl crc_byte_serial s bs = foldl crc_byte_serial t bs \<Longrightarrow> s = t"
proof (induction bs arbitrary: s t)
  case Nil
  then show ?case by simp
next
  case (Cons b bs)
  then have "crc_byte_serial s b = crc_byte_serial t b" by simp
  then have "s XOR ucast b = t XOR ucast b"
    unfolding crc_byte_serial_def by (rule crc_bits_inj)
  then show ?case by simp
qed

text \<open>
  Two messages of the same length that differ only inside a window of at most four
  consecutive bytes always have different checksums.
\<close>

lemma crc32_burst:
  assumes "length xs = length ys" and "length xs \<le> 4" and "xs \<noteq> ys"
  shows "crc32 (pre @ xs @ post) \<noteq> crc32 (pre @ ys @ post)"
proof
  have upd: "crc_update = crc_byte_serial" by (intro ext) (rule crc_update_serial)
  let ?s = "foldl crc_byte_serial (NOT 0) pre"
  assume "crc32 (pre @ xs @ post) = crc32 (pre @ ys @ post)"
  then have "foldl crc_byte_serial (foldl crc_byte_serial ?s xs) post =
             foldl crc_byte_serial (foldl crc_byte_serial ?s ys) post"
    by (simp add: crc32_def upd)
  then have "foldl crc_byte_serial ?s xs = foldl crc_byte_serial ?s ys"
    by (rule crc_serial_state_inj)
  then have "(crc_bit ^^ (8 * length ys)) (?s XOR le_word xs) =
             (crc_bit ^^ (8 * length ys)) (?s XOR le_word ys)"
    using assms by (simp only: foldl_crc_serial)
  then have "?s XOR le_word xs = ?s XOR le_word ys" by (rule crc_bits_inj)
  then have "le_word xs = le_word ys" by simp
  with assms show False using le_word_inj by blast
qed

subsection \<open>Properties\<close>

text \<open>
  C4. The table-driven checksum of \<^verbatim>\<open>crc32\<close> is the CRC-32 of the bit-serial shift register with
  the reflected Ethernet polynomial, on every input.
\<close>

theorem crc32_table_driven: "crc32 data = crc32_serial data"
proof -
  have "crc_update = crc_byte_serial" by (intro ext) (rule crc_update_serial)
  then show ?thesis by (simp add: crc32_def crc32_serial_def)
qed

end
