(* ===== verification/Disk.thy ===== *)
theory Disk
  imports Crc Paging
begin

text \<open>
  The RAM disk of \<^verbatim>\<open>io/disk.rs\<close>: sectors kept in a mapped range of kernel virtual memory, with a
  CRC per sector. Bytes are addressed by kernel virtual address; the range of a disk is
  reached through its own mapping only. The sector operations are then described by the
  interface \<open>disk_device\<close>, which the file system layer uses.
\<close>

datatype disk_error = OutOfBounds | IoError | CrcMismatch

definition RAMDISK_VIRT_REGION_BASE :: nat where
  "RAMDISK_VIRT_REGION_BASE = 0xFFFFD00000000000"

definition PAGE_SIZE :: nat where
  "PAGE_SIZE = 4096"

record ram_disk =
  rd_base :: nat
  rd_byte_len :: nat
  rd_sector_size :: nat
  rd_cursor :: nat
  rd_crcs :: "u32 list"
  rd_frames :: "nat list"

text \<open>The cursor is an atomic counter: \<^verbatim>\<open>fetch_add\<close> returns the old value and wraps.\<close>

definition claim_virt_range :: "nat \<Rightarrow> nat \<Rightarrow> (nat \<times> nat) res" where
  "claim_virt_range cursor byte_len =
     rbind (mul_u64 ((byte_len + PAGE_SIZE - 1) div PAGE_SIZE) PAGE_SIZE) (\<lambda>page_aligned_len.
     Inr (cursor, (cursor + page_aligned_len) mod U64_LIMIT))"

definition ram_disk_new ::
  "phys_ops \<Rightarrow> ('pt, free_list \<times> memory) pt_ops \<Rightarrow> nat \<Rightarrow> nat \<Rightarrow> nat \<Rightarrow> 'pt \<Rightarrow> free_list \<times> memory \<Rightarrow>
   (ram_disk \<times> nat \<times> 'pt \<times> free_list \<times> memory) res" where
  "ram_disk_new x P cursor sector_count sector_size pt fa =
     rbind (mul_u64 sector_count sector_size) (\<lambda>byte_len.
     rbind (claim_virt_range cursor byte_len) (\<lambda>(base, cursor').
     if byte_len = 0 then Inl Overflow
     else
       rbind (add_u64 base (byte_len - 1)) (\<lambda>last.
       let pages = page_range_inclusive P (page_of P base) (page_of P last)
       in rbind (map_range P (fl_allocate x) {PRESENT, WRITABLE} pages pt fa) (\<lambda>(frames, pt', fl', m').
          let zero_crc = crc32 (replicate sector_size 0)
          in Inr (\<lparr>rd_base = base, rd_byte_len = byte_len, rd_sector_size = sector_size, rd_cursor = 0,
                   rd_crcs = replicate sector_count zero_crc, rd_frames = frames\<rparr>,
                  cursor', pt', fl', write_bytes m' base (replicate byte_len 0))))))"

definition sector_ptr :: "ram_disk \<Rightarrow> nat \<Rightarrow> nat res" where
  "sector_ptr d lba = rbind (mul_u64 lba (rd_sector_size d)) (\<lambda>off. add_u64 (rd_base d) off)"

definition sector_count :: "ram_disk \<Rightarrow> nat" where
  "sector_count d = rd_byte_len d div rd_sector_size d"

text \<open>
  The bounds check shared by both sector operations, and the raw copies. A caller's buffer
  shorter than a sector would make the copy leave it.
\<close>

definition sector_in_bounds :: "ram_disk \<Rightarrow> nat \<Rightarrow> bool res" where
  "sector_in_bounds d lba =
     rbind (mul_u64 lba (rd_sector_size d)) (\<lambda>start.
     rbind (add_u64 start (rd_sector_size d)) (\<lambda>top.
     Inr (top \<le> rd_byte_len d)))"

definition read_sector :: "ram_disk \<Rightarrow> memory \<Rightarrow> nat \<Rightarrow> u8 list \<Rightarrow> (u8 list \<times> (disk_error + unit)) res" where
  "read_sector d m lba buf =
     rbind (sector_in_bounds d lba) (\<lambda>ok.
     if \<not> ok then Inr (buf, Inl OutOfBounds)
     else rbind (sector_ptr d lba) (\<lambda>src.
          if length buf < rd_sector_size d then Inl WildAccess
          else let buf' = overwrite buf 0 (read_bytes m src (rd_sector_size d))
               in if lba \<ge> length (rd_crcs d) then Inl IndexOutOfBounds
                  else if crc32 buf' \<noteq> rd_crcs d ! lba then Inr (buf', Inl CrcMismatch)
                  else Inr (buf', Inr ())))"

definition write_sector ::
  "ram_disk \<Rightarrow> memory \<Rightarrow> nat \<Rightarrow> u8 list \<Rightarrow> (ram_disk \<times> memory \<times> (disk_error + unit)) res" where
  "write_sector d m lba buf =
     rbind (sector_in_bounds d lba) (\<lambda>ok.
     if \<not> ok then Inr (d, m, Inl OutOfBounds)
     else if lba \<ge> length (rd_crcs d) then Inl IndexOutOfBounds
     else let d' = d\<lparr>rd_crcs := (rd_crcs d)[lba := crc32 buf]\<rparr>
          in rbind (sector_ptr d lba) (\<lambda>dst.
             if length buf < rd_sector_size d then Inl WildAccess
             else Inr (d', write_bytes m dst (take (rd_sector_size d) buf), Inr ())))"

text \<open>The byte-stream view of the same device (\<^verbatim>\<open>BlockDevice\<close>).\<close>

definition block_read :: "ram_disk \<Rightarrow> memory \<Rightarrow> u8 list \<Rightarrow> (nat \<times> ram_disk \<times> u8 list) res" where
  "block_read d m buf =
     (let n = min (length buf) (rd_byte_len d - rd_cursor d)
      in if n = 0 then Inr (0, d, buf)
         else rbind (add_u64 (rd_base d) (rd_cursor d)) (\<lambda>src.
              rbind (add_u64 (rd_cursor d) n) (\<lambda>c.
              Inr (n, d\<lparr>rd_cursor := c\<rparr>, overwrite buf 0 (read_bytes m src n)))))"

definition block_write :: "ram_disk \<Rightarrow> memory \<Rightarrow> u8 list \<Rightarrow> (nat \<times> ram_disk \<times> memory) res" where
  "block_write d m buf =
     (let n = min (length buf) (rd_byte_len d - rd_cursor d)
      in if n = 0 then Inr (0, d, m)
         else rbind (add_u64 (rd_base d) (rd_cursor d)) (\<lambda>dst.
              rbind (add_u64 (rd_cursor d) n) (\<lambda>c.
              Inr (n, d\<lparr>rd_cursor := c\<rparr>, write_bytes m dst (take n buf)))))"

definition block_seek :: "ram_disk \<Rightarrow> nat \<Rightarrow> ram_disk" where
  "block_seek d offset = d\<lparr>rd_cursor := offset\<rparr>"

subsection \<open>Well-formed disks and their contents\<close>

definition sector_bytes :: "ram_disk \<Rightarrow> memory \<Rightarrow> nat \<Rightarrow> u8 list" where
  "sector_bytes d m lba = read_bytes m (rd_base d + lba * rd_sector_size d) (rd_sector_size d)"

definition disk_shape :: "ram_disk \<Rightarrow> bool" where
  "disk_shape d \<longleftrightarrow> 0 < rd_sector_size d \<and> rd_byte_len d = length (rd_crcs d) * rd_sector_size d \<and>
     rd_base d + rd_byte_len d < U64_LIMIT"

definition disk_ok :: "ram_disk \<Rightarrow> memory \<Rightarrow> bool" where
  "disk_ok d m \<longleftrightarrow> disk_shape d \<and> (\<forall>lba<length (rd_crcs d). rd_crcs d ! lba = crc32 (sector_bytes d m lba))"

definition disk_contents :: "ram_disk \<Rightarrow> memory \<Rightarrow> u8 list list" where
  "disk_contents d m = map (sector_bytes d m) [0 ..< length (rd_crcs d)]"

definition disk_range :: "ram_disk \<Rightarrow> nat set" where
  "disk_range d = {rd_base d ..< rd_base d + rd_byte_len d}"

lemma length_sector_bytes [simp]: "length (sector_bytes d m lba) = rd_sector_size d"
  by (simp add: sector_bytes_def)

lemma disk_shape_count: "disk_shape d \<Longrightarrow> sector_count d = length (rd_crcs d)"
  by (simp add: disk_shape_def sector_count_def)

lemma sector_end_le: "disk_shape d \<Longrightarrow> lba < length (rd_crcs d) \<Longrightarrow>
    lba * rd_sector_size d + rd_sector_size d \<le> rd_byte_len d"
  using mult_le_mono1 [of "Suc lba" "length (rd_crcs d)" "rd_sector_size d"] by (simp add: disk_shape_def)

lemma sector_in_bounds_valid:
  assumes "disk_shape d" "lba < length (rd_crcs d)"
  shows "sector_in_bounds d lba = Inr True" "sector_ptr d lba = Inr (rd_base d + lba * rd_sector_size d)"
  using assms sector_end_le [OF assms]
  by (simp_all add: sector_in_bounds_def sector_ptr_def disk_shape_def add_u64_def mul_u64_def)

lemma sector_in_bounds_invalid:
  assumes "disk_shape d" "lba \<ge> length (rd_crcs d)" "lba * rd_sector_size d + rd_sector_size d < U64_LIMIT"
  shows "sector_in_bounds d lba = Inr False"
proof -
  have "rd_byte_len d \<le> lba * rd_sector_size d" using assms(1,2) by (simp add: disk_shape_def mult_le_mono1)
  moreover have "0 < rd_sector_size d" using assms(1) by (simp add: disk_shape_def)
  ultimately have "rd_byte_len d < lba * rd_sector_size d + rd_sector_size d" by linarith
  then show ?thesis using assms(3) by (simp add: sector_in_bounds_def add_u64_def mul_u64_def)
qed

lemma overwrite_whole: "length ys = length xs \<Longrightarrow> overwrite xs 0 ys = ys"
  by (simp add: overwrite_def)

lemma read_sector_result:
  assumes "disk_shape d" "lba < length (rd_crcs d)" "length buf = rd_sector_size d"
  shows "read_sector d m lba buf = Inr (sector_bytes d m lba,
     if crc32 (sector_bytes d m lba) = rd_crcs d ! lba then Inr () else Inl CrcMismatch)"
  using assms sector_in_bounds_valid [OF assms(1,2)]
  by (simp add: read_sector_def sector_bytes_def overwrite_whole)

lemma write_sector_result:
  assumes "disk_shape d" "lba < length (rd_crcs d)" "length buf = rd_sector_size d"
  shows "write_sector d m lba buf = Inr (d\<lparr>rd_crcs := (rd_crcs d)[lba := crc32 buf]\<rparr>,
     write_bytes m (rd_base d + lba * rd_sector_size d) buf, Inr ())"
  using assms sector_in_bounds_valid [OF assms(1,2)] by (simp add: write_sector_def)

lemma sectors_apart:
  assumes "i \<noteq> j"
  shows "i * s + s \<le> j * s \<or> j * s + s \<le> i * (s :: nat)"
proof (cases "i < j")
  case True
  then show ?thesis using mult_le_mono1 [of "Suc i" j s] by simp
next
  case False
  then show ?thesis using assms mult_le_mono1 [of "Suc j" i s] by simp
qed

lemma sector_bytes_write:
  assumes "length buf = rd_sector_size d"
  shows "sector_bytes (d\<lparr>rd_crcs := cs\<rparr>) (write_bytes m (rd_base d + lba * rd_sector_size d) buf) k =
     (if k = lba then buf else sector_bytes d m k)"
  using assms sectors_apart [of k lba "rd_sector_size d"]
  by (auto simp: sector_bytes_def read_write_bytes_other simp flip: assms)

lemma write_sector_ok:
  assumes "disk_ok d m" "lba < length (rd_crcs d)" "length buf = rd_sector_size d"
  obtains d' m' where "write_sector d m lba buf = Inr (d', m', Inr ())" "disk_ok d' m'"
    "disk_contents d' m' = (disk_contents d m)[lba := buf]"
    "rd_sector_size d' = rd_sector_size d" "length (rd_crcs d') = length (rd_crcs d)" "disk_range d' = disk_range d"
    "\<And>a. a \<notin> disk_range d \<Longrightarrow> m' a = m a"
proof -
  let ?d = "d\<lparr>rd_crcs := (rd_crcs d)[lba := crc32 buf]\<rparr>"
  let ?m = "write_bytes m (rd_base d + lba * rd_sector_size d) buf"
  have shape: "disk_shape d" using assms(1) by (simp add: disk_ok_def)
  have "write_sector d m lba buf = Inr (?d, ?m, Inr ())"
    using write_sector_result [OF shape assms(2,3)] by simp
  moreover have "disk_ok ?d ?m"
    using assms shape by (auto simp: disk_ok_def sector_bytes_write nth_list_update disk_shape_def)
  moreover have "disk_contents ?d ?m = (disk_contents d m)[lba := buf]"
    using assms by (intro nth_equalityI) (auto simp: disk_contents_def sector_bytes_write nth_list_update)
  moreover have "?m a = m a" if "a \<notin> disk_range d" for a
    using that sector_end_le [OF shape assms(2)] assms(3)
    by (intro write_bytes_other) (auto simp: disk_range_def)
  ultimately show thesis by (intro that [of ?d ?m]) (auto simp: disk_range_def)
qed

subsection \<open>The interface of a sector device\<close>

text \<open>
  The trait \<^verbatim>\<open>DiskDevice\<close> as a record of operations, its contract as a locale, and the RAM disk as
  an instance of both.
\<close>

record 's disk_ops =
  dv_sector_size :: "'s \<Rightarrow> nat"
  dv_sector_count :: "'s \<Rightarrow> nat"
  dv_read_sector :: "'s \<Rightarrow> nat \<Rightarrow> u8 list \<Rightarrow> ('s \<times> u8 list \<times> (disk_error + unit)) res"
  dv_write_sector :: "'s \<Rightarrow> nat \<Rightarrow> u8 list \<Rightarrow> ('s \<times> (disk_error + unit)) res"

definition ramdisk_ops :: "(ram_disk \<times> memory) disk_ops" where
  "ramdisk_ops = \<lparr>
     dv_sector_size = (\<lambda>(d, m). rd_sector_size d),
     dv_sector_count = (\<lambda>(d, m). sector_count d),
     dv_read_sector = (\<lambda>(d, m) lba buf. rbind (read_sector d m lba buf) (\<lambda>(buf', r). Inr ((d, m), buf', r))),
     dv_write_sector = (\<lambda>(d, m) lba buf. rbind (write_sector d m lba buf) (\<lambda>(d', m', r). Inr ((d', m'), r)))\<rparr>"

locale disk_device =
  fixes D :: "'s disk_ops"
    and ok :: "'s \<Rightarrow> bool"
    and contents :: "'s \<Rightarrow> u8 list list"
  assumes size_pos: "ok s \<Longrightarrow> 0 < dv_sector_size D s"
    and count: "ok s \<Longrightarrow> dv_sector_count D s = length (contents s)"
    and total_bound: "ok s \<Longrightarrow> length (contents s) * dv_sector_size D s < U64_LIMIT"
    and sector_length: "ok s \<Longrightarrow> b \<in> set (contents s) \<Longrightarrow> length b = dv_sector_size D s"
    and read_in: "ok s \<Longrightarrow> lba < length (contents s) \<Longrightarrow> length buf = dv_sector_size D s \<Longrightarrow>
      dv_read_sector D s lba buf = Inr (s, contents s ! lba, Inr ())"
    and read_out: "ok s \<Longrightarrow> length (contents s) \<le> lba \<Longrightarrow>
      lba * dv_sector_size D s + dv_sector_size D s < U64_LIMIT \<Longrightarrow>
      dv_read_sector D s lba buf = Inr (s, buf, Inl OutOfBounds)"
    and write_in: "ok s \<Longrightarrow> lba < length (contents s) \<Longrightarrow> length buf = dv_sector_size D s \<Longrightarrow>
      \<exists>s'. dv_write_sector D s lba buf = Inr (s', Inr ()) \<and> ok s' \<and> contents s' = (contents s)[lba := buf] \<and>
           dv_sector_size D s' = dv_sector_size D s"
    and write_out: "ok s \<Longrightarrow> length (contents s) \<le> lba \<Longrightarrow>
      lba * dv_sector_size D s + dv_sector_size D s < U64_LIMIT \<Longrightarrow>
      dv_write_sector D s lba buf = Inr (s, Inl OutOfBounds)"

definition ramdisk_ok :: "ram_disk \<times> memory \<Rightarrow> bool" where
  "ramdisk_ok s \<longleftrightarrow> disk_ok (fst s) (snd s)"

definition ramdisk_contents :: "ram_disk \<times> memory \<Rightarrow> u8 list list" where
  "ramdisk_contents s = disk_contents (fst s) (snd s)"

lemma ramdisk_write_in:
  assumes "ramdisk_ok s" "lba < length (ramdisk_contents s)" "length buf = dv_sector_size ramdisk_ops s"
  shows "\<exists>s'. dv_write_sector ramdisk_ops s lba buf = Inr (s', Inr ()) \<and> ramdisk_ok s' \<and>
    ramdisk_contents s' = (ramdisk_contents s)[lba := buf] \<and>
    dv_sector_size ramdisk_ops s' = dv_sector_size ramdisk_ops s"
proof -
  obtain d m where s: "s = (d, m)" by (cases s)
  have pre: "disk_ok d m" "lba < length (rd_crcs d)" "length buf = rd_sector_size d"
    using assms by (simp_all add: s ramdisk_ok_def ramdisk_contents_def disk_contents_def ramdisk_ops_def)
  obtain d' m' where "write_sector d m lba buf = Inr (d', m', Inr ())" "disk_ok d' m'"
    "disk_contents d' m' = (disk_contents d m)[lba := buf]" "rd_sector_size d' = rd_sector_size d"
    using write_sector_ok [OF pre] by metis
  then show ?thesis
    by (intro exI [of _ "(d', m')"]) (simp add: s ramdisk_ok_def ramdisk_contents_def ramdisk_ops_def)
qed

lemmas ramdisk_defs = ramdisk_ok_def ramdisk_contents_def disk_contents_def ramdisk_ops_def disk_ok_def

interpretation rd: disk_device ramdisk_ops ramdisk_ok ramdisk_contents
proof unfold_locales
  fix s :: "ram_disk \<times> memory" and lba :: nat and buf b :: "u8 list"
  obtain d m where s: "s = (d, m)" by (cases s)
  assume ok: "ramdisk_ok s"
  then have shape: "disk_shape d" by (simp add: s ramdisk_defs)
  show "0 < dv_sector_size ramdisk_ops s" using shape by (simp add: s ramdisk_defs disk_shape_def)
  show "dv_sector_count ramdisk_ops s = length (ramdisk_contents s)"
    using disk_shape_count [OF shape] by (simp add: s ramdisk_defs)
  show "length (ramdisk_contents s) * dv_sector_size ramdisk_ops s < U64_LIMIT"
    using shape by (simp add: s ramdisk_defs disk_shape_def)
  show "length b = dv_sector_size ramdisk_ops s" if "b \<in> set (ramdisk_contents s)"
    using that by (auto simp: s ramdisk_defs)
  show "dv_read_sector ramdisk_ops s lba buf = Inr (s, ramdisk_contents s ! lba, Inr ())"
    if "lba < length (ramdisk_contents s)" "length buf = dv_sector_size ramdisk_ops s"
    using that ok read_sector_result [OF shape, of lba buf m] by (simp add: s ramdisk_defs)
  show "dv_read_sector ramdisk_ops s lba buf = Inr (s, buf, Inl OutOfBounds)"
    if "length (ramdisk_contents s) \<le> lba" "lba * dv_sector_size ramdisk_ops s + dv_sector_size ramdisk_ops s < U64_LIMIT"
    using that sector_in_bounds_invalid [OF shape, of lba] by (simp add: s ramdisk_defs read_sector_def)
  show "dv_write_sector ramdisk_ops s lba buf = Inr (s, Inl OutOfBounds)"
    if "length (ramdisk_contents s) \<le> lba" "lba * dv_sector_size ramdisk_ops s + dv_sector_size ramdisk_ops s < U64_LIMIT"
    using that sector_in_bounds_invalid [OF shape, of lba] by (simp add: s ramdisk_defs write_sector_def)
  show "\<exists>s'. dv_write_sector ramdisk_ops s lba buf = Inr (s', Inr ()) \<and> ramdisk_ok s' \<and>
      ramdisk_contents s' = (ramdisk_contents s)[lba := buf] \<and>
      dv_sector_size ramdisk_ops s' = dv_sector_size ramdisk_ops s"
    if "lba < length (ramdisk_contents s)" "length buf = dv_sector_size ramdisk_ops s"
    using ramdisk_write_in [OF ok that] .
qed

subsection \<open>Properties\<close>

text \<open>
  C20. Silent corruption of a sector is reported: if the bytes of a sector of a well-formed disk
  are changed inside a window of at most four bytes, reading that sector returns
  \<^verbatim>\<open>CrcMismatch\<close>, while the undamaged disk reads back fine.
\<close>

theorem disk_detects_burst:
  assumes "disk_ok d m" "lba < sector_count d" "length buf = rd_sector_size d"
    and "sector_bytes d m lba = pre @ xs @ post" "sector_bytes d m' lba = pre @ ys @ post"
    and "length ys = length xs" "length xs \<le> 4" "xs \<noteq> ys"
  shows "read_sector d m lba buf = Inr (pre @ xs @ post, Inr ()) \<and>
    read_sector d m' lba buf = Inr (pre @ ys @ post, Inl CrcMismatch)"
proof -
  have shape: "disk_shape d" and lba: "lba < length (rd_crcs d)"
    using assms(1,2) disk_shape_count by (auto simp: disk_ok_def)
  have crc: "rd_crcs d ! lba = crc32 (pre @ xs @ post)"
    using assms(1,4) lba by (simp add: disk_ok_def)
  moreover have "crc32 (pre @ ys @ post) \<noteq> crc32 (pre @ xs @ post)"
    using assms(6-8) by (intro crc32_burst) auto
  ultimately show ?thesis
    using read_sector_result [OF shape lba assms(3)] assms(4,5) by simp
qed

definition example_disk :: ram_disk where
  "example_disk = \<lparr>rd_base = 8192, rd_byte_len = 8, rd_sector_size = 4, rd_cursor = 4,
     rd_crcs = [crc32 [0, 0, 0, 0], crc32 [0, 0, 0, 0]], rd_frames = [4096]\<rparr>"

lemma example_sector: "sector_bytes example_disk m lba = map m [8192 + lba * 4 ..< 8192 + lba * 4 + 4]"
  by (simp add: sector_bytes_def example_disk_def read_bytes_def)

lemma example_disk_simps:
  "sector_count example_disk = 2" "rd_sector_size example_disk = 4" "rd_cursor example_disk = 4"
  by (simp_all add: sector_count_def example_disk_def)

lemma example_disk_ok: "disk_ok example_disk (\<lambda>_. 0)"
proof -
  have "sector_bytes example_disk (\<lambda>_. 0) lba = [0, 0, 0, 0]" for lba
    by (rule nth_equalityI) (auto simp: sector_bytes_def example_disk_def less_Suc_eq numeral_eq_Suc)
  then show ?thesis
    by (auto simp: disk_ok_def disk_shape_def example_disk_def U64_LIMIT_def less_Suc_eq nth_Cons')
qed

theorem disk_detects_burst_witness:
  "read_sector example_disk (\<lambda>_. 0) 1 [7, 7, 7, 7] = Inr ([0] @ [0, 0] @ [0], Inr ()) \<and>
   read_sector example_disk ((\<lambda>_. 0)(8197 := 1)) 1 [7, 7, 7, 7] = Inr ([0] @ [1, 0] @ [0], Inl CrcMismatch)"
  by (rule disk_detects_burst [OF example_disk_ok])
     (simp_all add: example_sector example_disk_simps upt_conv_Cons)

text \<open>
  The byte-stream interface bypasses the checksums: after a \<^verbatim>\<open>BlockDevice\<close> write of one to
  four bytes inside a sector that changes its contents, the sector operations no longer
  accept that sector.
\<close>

theorem block_write_stale_crc:
  assumes "disk_ok d m" "lba < sector_count d" "length buf = rd_sector_size d"
    and "rd_cursor d = lba * rd_sector_size d + off" "off + length data \<le> rd_sector_size d"
    and "0 < length data" "length data \<le> 4" "take (length data) (drop off (sector_bytes d m lba)) \<noteq> data"
  shows "\<exists>d' m'. block_write d m data = Inr (length data, d', m') \<and>
    read_sector d' m' lba buf = Inr (overwrite (sector_bytes d m lba) off data, Inl CrcMismatch)"
proof -
  let ?n = "length data" and ?s = "rd_sector_size d" and ?S = "sector_bytes d m lba"
  have shape: "disk_shape d" and lba: "lba < length (rd_crcs d)"
    using assms(1,2) disk_shape_count by (auto simp: disk_ok_def)
  let ?a = "rd_base d + rd_cursor d"
  let ?d = "d\<lparr>rd_cursor := rd_cursor d + ?n\<rparr>" and ?m = "write_bytes m ?a data"
  have fit: "rd_cursor d + ?n \<le> rd_byte_len d" using sector_end_le [OF shape lba] assms(4,5) by simp
  then have w: "block_write d m data = Inr (?n, ?d, ?m)"
    using shape assms(6) by (auto simp: block_write_def min_def disk_shape_def add_u64_def Let_def)
  have S: "sector_bytes ?d ?m lba = overwrite ?S off data"
    using assms(4,5) by (intro nth_equalityI) (auto simp: sector_bytes_def nth_overwrite write_bytes_def)
  have split: "?S = take off ?S @ take ?n (drop off ?S) @ drop (off + ?n) ?S"
    by (metis append_take_drop_id drop_drop add.commute)
  have "crc32 (take off ?S @ data @ drop (off + ?n) ?S) \<noteq>
        crc32 (take off ?S @ take ?n (drop off ?S) @ drop (off + ?n) ?S)"
    using assms(5,7,8) by (intro crc32_burst) auto
  then have "crc32 (overwrite ?S off data) \<noteq> rd_crcs d ! lba"
    using assms(1) lba by (simp add: disk_ok_def overwrite_def flip: split)
  moreover have "disk_shape ?d" using shape by (simp add: disk_shape_def)
  ultimately have "read_sector ?d ?m lba buf = Inr (overwrite ?S off data, Inl CrcMismatch)"
    using read_sector_result [of ?d lba buf ?m] lba assms(3) S by simp
  with w show ?thesis by blast
qed

theorem block_write_stale_crc_witness:
  "\<exists>d' m'. block_write example_disk (\<lambda>_. 0) [1] = Inr (length [1 :: u8], d', m') \<and>
     read_sector d' m' 1 [7, 7, 7, 7] =
       Inr (overwrite (sector_bytes example_disk (\<lambda>_. 0) 1) 0 [1], Inl CrcMismatch)"
  by (rule block_write_stale_crc [OF example_disk_ok, where off = 0])
     (simp_all add: example_sector example_disk_simps upt_conv_Cons)

definition disk_pages :: "nat \<Rightarrow> nat \<Rightarrow> nat list" where
  "disk_pages base byte_len = map (\<lambda>k. base + 4096 * k) [0 ..< (byte_len + 4095) div 4096]"

lemma page_range_disk_pages:
  assumes "pt_laws P view rep" "4096 dvd base" "0 < n"
  shows "page_range_inclusive P (page_of P base) (page_of P (base + (n - 1))) = disk_pages base n"
proof -
  obtain q where q: "base = 4096 * q" using assms(2) by (elim dvdE)
  have "page_start (base + (n - 1)) = base + (n - 1) div 4096 * 4096"
    unfolding page_start_div q by simp
  then have "(page_start (base + (n - 1)) + 4096 - base) div 4096 = (n - 1) div 4096 + 1" by simp
  also have "\<dots> = (n + 4095) div 4096" using assms(3) by (cases n) auto
  finally show ?thesis
    using pt_laws_range [OF assms(1)] pt_laws_page_of [OF assms(1)] page_start_aligned(2) [OF assms(2)]
    by (simp add: disk_pages_def)
qed

lemma sector_bytes_zero:
  assumes "rd_byte_len d = c * rd_sector_size d" "lba < c"
  shows "sector_bytes d (write_bytes m (rd_base d) (replicate (rd_byte_len d) 0)) lba = replicate (rd_sector_size d) 0"
proof (rule nth_equalityI)
  fix i assume "i < length (sector_bytes d (write_bytes m (rd_base d) (replicate (rd_byte_len d) 0)) lba)"
  then have i: "i < rd_sector_size d" by simp
  moreover have "lba * rd_sector_size d + rd_sector_size d \<le> rd_byte_len d"
    using assms mult_le_mono1 [of "Suc lba" c "rd_sector_size d"] by simp
  ultimately show "sector_bytes d (write_bytes m (rd_base d) (replicate (rd_byte_len d) 0)) lba ! i =
      replicate (rd_sector_size d) 0 ! i"
    by (simp add: sector_bytes_def write_bytes_def)
qed simp

text \<open>
  A new RAM disk is zeroed, consistent with its checksums and separate from everything
  claimed before: with enough free frames and an unmapped page-aligned cursor, \<^verbatim>\<open>RamDisk::new\<close>
  succeeds, every sector reads as zeros, the disk lies between the old and the new cursor,
  and its frames are taken from the free list, which keeps the others.
\<close>

theorem ram_disk_fresh:
  assumes laws: "pt_laws P view (fl_rep_at x off)" and rep: "fl_rep_at x off fa fs"
    and geom: "0 < sc" "0 < ss" "4096 dvd cursor" "cursor + sc * ss + 4096 \<le> U64_LIMIT"
    and frames: "4 * ((sc * ss + 4095) div 4096) \<le> length fs"
    and unmapped: "\<forall>p\<in>set (disk_pages cursor (sc * ss)). view pt p = None"
    and window: "\<forall>f\<in>set fs. off + f + 4096 \<le> cursor"
  shows "\<exists>d cursor' pt' fl' m' n. ram_disk_new x P cursor sc ss pt fa = Inr (d, cursor', pt', fl', m') \<and>
    disk_ok d m' \<and> disk_contents d m' = replicate sc (replicate ss 0) \<and>
    disk_range d \<subseteq> {cursor ..< cursor'} \<and> 4096 dvd cursor' \<and>
    set (rd_frames d) \<subseteq> set (take n fs) \<and> fl_rep_at x off (fl', m') (drop n fs)"
proof -
  let ?n = "sc * ss" and ?pages = "disk_pages cursor (sc * ss)"
  let ?len = "(?n + 4095) div 4096 * 4096"
  have len: "?len < ?n + 4096" "?n \<le> ?len" "0 < ?n" using geom(1,2) by auto
  have claim: "claim_virt_range cursor ?n = Inr (cursor, cursor + ?len)"
  proof -
    have "?n + 4096 - 1 = ?n + 4095" by simp
    then show ?thesis
      using len geom(4) unfolding claim_virt_range_def PAGE_SIZE_def by (simp only: mul_u64_def) simp
  qed
  have "distinct ?pages" "4 * length ?pages \<le> length fs"
    using frames by (auto simp: disk_pages_def distinct_map inj_on_def)
  from fla.map_range_ok [OF laws rep this(2,1) unmapped] obtain gs pt' fa' n
    where r: "map_range P (fl_allocate x) {PRESENT, WRITABLE} ?pages pt fa = Inr (gs, pt', fa')"
      "fl_rep_at x off fa' (drop n fs)" "set gs \<subseteq> set (take n fs)" by blast
  obtain fl' m' where fa': "fa' = (fl', m')" by (cases fa')
  let ?d = "\<lparr>rd_base = cursor, rd_byte_len = ?n, rd_sector_size = ss, rd_cursor = 0,
     rd_crcs = replicate sc (crc32 (replicate ss 0)), rd_frames = gs\<rparr>"
  let ?m = "write_bytes m' cursor (replicate ?n 0)"
  have "ram_disk_new x P cursor sc ss pt fa = Inr (?d, cursor + ?len, pt', fl', ?m)"
    using len geom(4) r(1) claim page_range_disk_pages [OF laws geom(3) len(3)]
    by (simp add: ram_disk_new_def mul_u64_def add_u64_def fa')
  moreover have z: "sector_bytes ?d ?m lba = replicate ss 0" if "lba < sc" for lba
    using sector_bytes_zero [of ?d sc lba m'] that by simp
  then have "disk_ok ?d ?m" "disk_contents ?d ?m = replicate sc (replicate ss 0)"
    using geom by (auto simp: disk_ok_def disk_shape_def disk_contents_def intro: nth_equalityI)
  moreover have "disk_range ?d \<subseteq> {cursor ..< cursor + ?len}" using len by (auto simp: disk_range_def)
  moreover have "4096 dvd cursor + ?len" using geom(3) by simp
  moreover have "fl_rep_at x off (fl', ?m) (drop n fs)"
  proof (rule fl_rep_at_memory)
    show "fl_rep_at x off (fl', m') (drop n fs)" using r(2) fa' by simp
    show "?m a = m' a" if "f \<in> set (drop n fs)" "off + f \<le> a" "a < off + f + 4096" for f a
      using window that in_set_dropD [OF that(1)] by (intro write_bytes_other) force
  qed
  ultimately show ?thesis
    using r(3)
    by (intro exI [of _ ?d] exI [of _ "cursor + ?len"] exI [of _ pt'] exI [of _ fl'] exI [of _ ?m] exI [of _ n]) simp
qed

theorem ram_disk_fresh_witness:
  "\<exists>fa d cursor' pt' fl' m' n.
     ram_disk_new example_phys simple_pt_ops RAMDISK_VIRT_REGION_BASE 2 512 Map.empty fa = Inr (d, cursor', pt', fl', m') \<and>
     disk_ok d m' \<and> disk_contents d m' = replicate 2 (replicate 512 0) \<and>
     disk_range d \<subseteq> {RAMDISK_VIRT_REGION_BASE ..< cursor'} \<and> 4096 dvd cursor' \<and>
     set (rd_frames d) \<subseteq> set (take n [20480, 16384, 8192, 4096]) \<and>
     fl_rep_at example_phys 0xFFFF800000000000 (fl', m') (drop n [20480, 16384, 8192, 4096])"
proof -
  obtain fa where "fl_rep_at example_phys 0xFFFF800000000000 fa [20480, 16384, 8192, 4096]"
    using example_pool by blast
  note r = ram_disk_fresh [OF simple_pt_laws this, of 2 512 RAMDISK_VIRT_REGION_BASE Map.empty]
  show ?thesis
    by (rule exI [of _ fa], rule r) (simp_all add: RAMDISK_VIRT_REGION_BASE_def U64_LIMIT_def disk_pages_def)
qed

end
