(* ===== verification/DiskIo.thy ===== *)
theory DiskIo
  imports Disk
begin

text \<open>
  The cursor wrapper of \<^verbatim>\<open>fs/fat.rs\<close> through which the FAT library reads and writes any sector
  device, translated for an arbitrary \<open>disk_ops\<close>. Under the contract \<open>disk_device\<close> it behaves
  as a file over the flat byte contents of the device.
\<close>

record 's disk_io =
  dio_dev :: 's
  dio_pos :: nat
  dio_sector_buf :: "u8 list"

definition dio_new :: "'s disk_ops \<Rightarrow> 's \<Rightarrow> 's disk_io" where
  "dio_new D dev = \<lparr>dio_dev = dev, dio_pos = 0, dio_sector_buf = replicate (dv_sector_size D dev) 0\<rparr>"

datatype fat_io_error = FatIoError

text \<open>
  Both loops return the final cursor object together with the \<^verbatim>\<open>Result\<close>; an error leaves the
  bytes transferred so far in place, as in the code.
\<close>

function dio_read_loop :: "'s disk_ops \<Rightarrow> nat \<Rightarrow> 's disk_io \<Rightarrow> u8 list \<Rightarrow> nat \<Rightarrow>
    ('s disk_io \<times> u8 list \<times> (fat_io_error + nat)) res" where
  "dio_read_loop D ss io buf bytes_read =
     (if bytes_read < length buf then
        if ss = 0 then Inl DivByZero
        else
          let lba = dio_pos io div ss;
              off = dio_pos io mod ss;
              to_copy = min (ss - off) (length buf - bytes_read)
          in rbind (dv_read_sector D (dio_dev io) lba (dio_sector_buf io)) (\<lambda>(dev', sb, r).
             let io1 = io\<lparr>dio_dev := dev', dio_sector_buf := sb\<rparr>
             in case r of
                  Inl e \<Rightarrow> Inr (io1, buf, Inl FatIoError)
                | Inr _ \<Rightarrow>
                    if length sb < off + to_copy then Inl IndexOutOfBounds
                    else rbind (add_u64 (dio_pos io) to_copy) (\<lambda>pos'.
                         dio_read_loop D ss (io1\<lparr>dio_pos := pos'\<rparr>)
                           (overwrite buf bytes_read (take to_copy (drop off sb))) (bytes_read + to_copy)))
      else Inr (io, buf, Inr bytes_read))"
  by pat_completeness auto

definition loop_rest :: "u8 list \<Rightarrow> nat \<Rightarrow> nat" where
  "loop_rest buf k = length buf - k"

lemma loop_progress:
  assumes "k < n" "0 < ss"
  shows "n - (k + min (ss - p mod ss) (n - k)) < n - (k :: nat)"
proof -
  have "0 < min (ss - p mod ss) (n - k)" using assms mod_less_divisor [OF assms(2), of p] by simp
  then show ?thesis using assms(1) by linarith
qed

lemma loop_rest_overwrite:
  assumes "k < length buf" "ss \<noteq> 0" "\<not> length sb < p mod ss + min (ss - p mod ss) (length buf - k)"
  shows "loop_rest (overwrite buf k (take (min (ss - p mod ss) (length buf - k)) (drop (p mod ss) sb)))
           (k + min (ss - p mod ss) (length buf - k)) < loop_rest buf k"
proof -
  let ?c = "min (ss - p mod ss) (length buf - k)"
  have len: "length (overwrite buf k (take ?c (drop (p mod ss) sb))) = length buf"
    using assms(1) by (intro length_overwrite) auto
  show ?thesis unfolding loop_rest_def len using assms(1,2) by (intro loop_progress) auto
qed

termination dio_read_loop
  by (relation "measure (\<lambda>(D, ss, io, buf, k). loop_rest buf k)") (simp_all add: loop_rest_overwrite)

definition dio_read :: "'s disk_ops \<Rightarrow> 's disk_io \<Rightarrow> u8 list \<Rightarrow> ('s disk_io \<times> u8 list \<times> (fat_io_error + nat)) res" where
  "dio_read D io buf = dio_read_loop D (dv_sector_size D (dio_dev io)) io buf 0"

function dio_write_loop :: "'s disk_ops \<Rightarrow> nat \<Rightarrow> 's disk_io \<Rightarrow> u8 list \<Rightarrow> nat \<Rightarrow>
    ('s disk_io \<times> (fat_io_error + nat)) res" where
  "dio_write_loop D ss io buf bytes_written =
     (if bytes_written < length buf then
        if ss = 0 then Inl DivByZero
        else
          let lba = dio_pos io div ss;
              off = dio_pos io mod ss;
              to_copy = min (ss - off) (length buf - bytes_written);
              chunk = take to_copy (drop bytes_written buf);
              continue = (\<lambda>io1 :: 's disk_io. rbind (add_u64 (dio_pos io) to_copy) (\<lambda>pos'.
                 dio_write_loop D ss (io1\<lparr>dio_pos := pos'\<rparr>) buf (bytes_written + to_copy)))
          in if off = 0 \<and> to_copy = ss then
               rbind (dv_write_sector D (dio_dev io) lba chunk) (\<lambda>(dev', r).
               let io1 = io\<lparr>dio_dev := dev'\<rparr>
               in case r of Inl e \<Rightarrow> Inr (io1, Inl FatIoError) | Inr _ \<Rightarrow> continue io1)
             else
               rbind (dv_read_sector D (dio_dev io) lba (dio_sector_buf io)) (\<lambda>(dev', sb, r).
               let io1 = io\<lparr>dio_dev := dev', dio_sector_buf := sb\<rparr>
               in case r of
                    Inl e \<Rightarrow> Inr (io1, Inl FatIoError)
                  | Inr _ \<Rightarrow>
                      if length sb < off + to_copy then Inl IndexOutOfBounds
                      else let sb' = overwrite sb off chunk
                           in rbind (dv_write_sector D dev' lba sb') (\<lambda>(dev'', r').
                              let io2 = io\<lparr>dio_dev := dev'', dio_sector_buf := sb'\<rparr>
                              in case r' of Inl e \<Rightarrow> Inr (io2, Inl FatIoError) | Inr _ \<Rightarrow> continue io2))
      else Inr (io, Inr bytes_written))"
  by pat_completeness auto
termination
  by (relation "measure (\<lambda>(D, ss, io, buf, k). length buf - k)") (simp_all add: loop_progress)

declare dio_read_loop.simps [simp del] dio_write_loop.simps [simp del]

definition dio_write :: "'s disk_ops \<Rightarrow> 's disk_io \<Rightarrow> u8 list \<Rightarrow> ('s disk_io \<times> (fat_io_error + nat)) res" where
  "dio_write D io buf = dio_write_loop D (dv_sector_size D (dio_dev io)) io buf 0"

definition dio_flush :: "'s disk_io \<Rightarrow> 's disk_io \<times> (fat_io_error + unit)" where
  "dio_flush io = (io, Inr ())"

datatype seek_from = SeekStart nat | SeekEnd int | SeekCurrent int

definition as_i64 :: "nat \<Rightarrow> int" where
  "as_i64 n = (if n < 2 ^ 63 then int n else int n - 2 ^ 64)"

definition add_i64 :: "int \<Rightarrow> int \<Rightarrow> int res" where
  "add_i64 a b = (if - (2 ^ 63) \<le> a + b \<and> a + b < 2 ^ 63 then Inr (a + b) else Inl Overflow)"

definition as_u64 :: "int \<Rightarrow> nat" where
  "as_u64 i = nat (i mod 2 ^ 64)"

definition dio_seek :: "'s disk_ops \<Rightarrow> 's disk_io \<Rightarrow> seek_from \<Rightarrow> ('s disk_io \<times> (fat_io_error + nat)) res" where
  "dio_seek D io pos =
     rbind (mul_u64 (dv_sector_count D (dio_dev io)) (dv_sector_size D (dio_dev io))) (\<lambda>total.
     rbind (case pos of
              SeekStart n \<Rightarrow> Inr n
            | SeekEnd n \<Rightarrow> rbind (add_i64 (as_i64 total) n) (\<lambda>i. Inr (as_u64 i))
            | SeekCurrent n \<Rightarrow> rbind (add_i64 (as_i64 (dio_pos io)) n) (\<lambda>i. Inr (as_u64 i))) (\<lambda>p.
     Inr (io\<lparr>dio_pos := p\<rparr>, Inr p)))"

subsection \<open>Sectors as a flat byte array\<close>

lemma length_concat_uniform: "\<forall>b\<in>set cs. length b = n \<Longrightarrow> length (concat cs) = length cs * n"
  by (induction cs) auto

lemma nth_concat_uniform:
  "\<forall>b\<in>set cs. length b = n \<Longrightarrow> i < length cs * n \<Longrightarrow> concat cs ! i = cs ! (i div n) ! (i mod n)"
proof (induction cs arbitrary: i)
  case Nil
  then show ?case by simp
next
  case (Cons b cs)
  have n: "0 < n" using Cons.prems(2) by (cases n) auto
  show ?case
  proof (cases "i < n")
    case True
    then show ?thesis using Cons.prems by (simp add: nth_append)
  next
    case False
    then have "i div n = Suc ((i - n) div n)" "i mod n = (i - n) mod n"
      using n by (simp_all add: le_div_geq le_mod_geq)
    then show ?thesis using False Cons by (simp add: nth_append)
  qed
qed

lemma chunk_of_concat:
  assumes "\<forall>b\<in>set cs. length b = n" "p < length cs * n" "c \<le> n - p mod n"
  shows "take c (drop (p mod n) (cs ! (p div n))) = take c (drop p (concat cs))"
proof (rule nth_equalityI)
  have lba: "p div n < length cs" using assms(2) by (simp add: less_mult_imp_div_less)
  have n: "0 < n" using assms(2) by (cases n) auto
  have len: "length (cs ! (p div n)) = n" using assms(1) lba by simp
  have pos: "p div n * n + p mod n = p" by simp
  have tot: "p div n * n + n \<le> length cs * n" using lba mult_le_mono1 [of "Suc (p div n)" "length cs" n] by simp
  have off: "p mod n < n" using n by simp
  have c: "p + c \<le> length cs * n" using pos tot off assms(3) by linarith
  show "length (take c (drop (p mod n) (cs ! (p div n)))) = length (take c (drop p (concat cs)))"
    using len assms(3) c by (simp add: length_concat_uniform [OF assms(1)])
  fix i assume "i < length (take c (drop (p mod n) (cs ! (p div n))))"
  then have i: "i < c" by simp
  then have lt: "p mod n + i < n" using assms(3) by linarith
  have e: "p + i = p mod n + i + p div n * n" using pos by linarith
  have "(p + i) div n = p div n" "(p + i) mod n = p mod n + i"
    unfolding e div_mult_self1 [OF gr_implies_not0 [OF n]] mod_mult_self1 using lt by simp_all
  then show "take c (drop (p mod n) (cs ! (p div n))) ! i = take c (drop p (concat cs)) ! i"
    using i c len assms(3) by (simp add: nth_concat_uniform [OF assms(1)] length_concat_uniform [OF assms(1)])
qed

lemma overwrite_middle:
  "i + length xs \<le> length b \<Longrightarrow> overwrite (a @ b @ c) (length a + i) xs = a @ overwrite b i xs @ c"
  by (simp add: overwrite_def)

lemma overwrite_concat:
  assumes "\<forall>b\<in>set cs. length b = n" "p < length cs * n" "length xs \<le> n - p mod n"
  shows "concat (cs[p div n := overwrite (cs ! (p div n)) (p mod n) xs]) = overwrite (concat cs) p xs"
proof -
  let ?l = "p div n"
  have lba: "?l < length cs" using assms(2) by (simp add: less_mult_imp_div_less)
  have n: "0 < n" using assms(2) by (cases n) auto
  have len: "length (cs ! ?l) = n" using assms(1) lba by simp
  have pre: "length (concat (take ?l cs)) = ?l * n"
    using assms(1) lba by (subst length_concat_uniform [of _ n]) (auto dest: in_set_takeD)
  have off: "p mod n + length xs \<le> n" using assms(3) mod_less_divisor [OF n, of p] by linarith
  have c: "concat cs = concat (take ?l cs) @ cs ! ?l @ concat (drop (Suc ?l) cs)"
    using lba by (metis concat.simps(2) concat_append id_take_nth_drop)
  have "overwrite (concat cs) p xs = overwrite (concat cs) (length (concat (take ?l cs)) + p mod n) xs"
    unfolding pre by simp
  also have "\<dots> = concat (take ?l cs) @ overwrite (cs ! ?l) (p mod n) xs @ concat (drop (Suc ?l) cs)"
    unfolding c using off len by (intro overwrite_middle) simp
  finally show ?thesis using lba by (simp add: upd_conv_take_nth_drop)
qed

subsection \<open>The cursor over any sector device\<close>

context disk_device
begin

lemma uniform: "ok s \<Longrightarrow> \<forall>b\<in>set (contents s). length b = dv_sector_size D s"
  using sector_length by blast

lemma flat_length: "ok s \<Longrightarrow> length (concat (contents s)) = length (contents s) * dv_sector_size D s"
  by (rule length_concat_uniform [OF uniform])

lemma sector_index: "ok s \<Longrightarrow> p < length (concat (contents s)) \<Longrightarrow> p div dv_sector_size D s < length (contents s)"
  by (simp add: flat_length less_mult_imp_div_less)

lemma read_loop_in:
  "ok (dio_dev io) \<Longrightarrow> ss = dv_sector_size D (dio_dev io) \<Longrightarrow> length (dio_sector_buf io) = ss \<Longrightarrow>
   k \<le> length buf \<Longrightarrow> dio_pos io + (length buf - k) \<le> length (concat (contents (dio_dev io))) \<Longrightarrow>
   \<exists>sb. length sb = ss \<and> dio_read_loop D ss io buf k =
     Inr (io\<lparr>dio_pos := dio_pos io + (length buf - k), dio_sector_buf := sb\<rparr>,
          take k buf @ take (length buf - k) (drop (dio_pos io) (concat (contents (dio_dev io)))), Inr (length buf))"
proof (induction "length buf - k" arbitrary: io buf k rule: less_induct)
  case less
  let ?s = "dio_dev io" and ?p = "dio_pos io"
  let ?flat = "concat (contents ?s)" and ?off = "?p mod ss" and ?lba = "?p div ss"
  show ?case
  proof (cases "k < length buf")
    case False
    then have "k = length buf" using less.prems by simp
    then show ?thesis using less.prems by (intro exI [of _ "dio_sector_buf io"]) (simp add: dio_read_loop.simps [of _ _ io])
  next
    case True
    define c where "c = min (ss - ?off) (length buf - k)"
    define sb where "sb = contents ?s ! ?lba"
    have ss: "0 < ss" using size_pos less.prems by simp
    have p: "?p < length ?flat" using less.prems True by linarith
    have pb: "?p < length (contents ?s) * ss" using p flat_length less.prems by simp
    have lba: "?lba < length (contents ?s)" using sector_index [OF less.prems(1) p] less.prems(2) by simp
    have sb: "length sb = ss" using uniform [OF less.prems(1)] lba less.prems(2) by (simp add: sb_def)
    have off: "?off < ss" using ss by simp
    have c: "0 < c" "c \<le> ss - ?off" "k + c \<le> length buf" using True off by (auto simp: c_def)
    have chunk: "take c (drop ?off sb) = take c (drop ?p ?flat)"
      unfolding sb_def using uniform [OF less.prems(1)] pb c less.prems(2) by (intro chunk_of_concat) auto
    have lim: "?p + c < U64_LIMIT"
      using less.prems(5) c(3) flat_length [OF less.prems(1)] total_bound [OF less.prems(1)] by linarith
    let ?buf = "overwrite buf k (take c (drop ?off sb))"
    let ?io = "io\<lparr>dio_sector_buf := sb, dio_pos := ?p + c\<rparr>"
    have lc: "length (take c (drop ?off sb)) = c" using sb c off by simp
    then have lb: "length ?buf = length buf" using c(3) by simp
    have step: "dio_read_loop D ss io buf k = dio_read_loop D ss ?io ?buf (k + c)"
    proof -
      have "dv_read_sector D ?s ?lba (dio_sector_buf io) = Inr (?s, sb, Inr ())"
        using read_in [OF less.prems(1) lba] less.prems(2,3) by (simp add: sb_def)
      moreover have "\<not> length sb < ?off + c" "ss \<noteq> 0" using sb c off by auto
      ultimately show ?thesis
        unfolding dio_read_loop.simps [of D ss io] Let_def c_def [symmetric]
        using True lim by (simp add: add_u64_ok)
    qed
    have "length ?buf - (k + c) < length buf - k" using c lb by simp
    from less.hyps [OF this, of ?io] obtain sb' where r: "length sb' = ss"
      "dio_read_loop D ss ?io ?buf (k + c) =
        Inr (?io\<lparr>dio_pos := ?p + c + (length buf - (k + c)), dio_sector_buf := sb'\<rparr>,
          take (k + c) ?buf @ take (length buf - (k + c)) (drop (?p + c) ?flat), Inr (length buf))"
      using less.prems sb c(3) lb by auto
    have "take (k + c) ?buf = take k buf @ take c (drop ?p ?flat)"
      using lc c(3) by (simp add: overwrite_def chunk)
    moreover have "take (length buf - k) (drop ?p ?flat) =
        take c (drop ?p ?flat) @ take (length buf - (k + c)) (drop (?p + c) ?flat)"
      using c(3) take_add [of c "length buf - (k + c)" "drop ?p ?flat"] by (simp add: add.commute)
    moreover have "?p + c + (length buf - (k + c)) = ?p + (length buf - k)" using c(3) by simp
    ultimately show ?thesis using r step by (intro exI [of _ sb']) simp
  qed
qed

lemma write_sector_step:
  assumes "ok (dio_dev io)" "ss = dv_sector_size D (dio_dev io)" "length (dio_sector_buf io) = ss"
    and "k < length buf" "dio_pos io < length (concat (contents (dio_dev io)))"
    and c_def: "c = min (ss - dio_pos io mod ss) (length buf - k)"
    and lim: "dio_pos io + c < U64_LIMIT"
  obtains s' sb where "ok s'" "dv_sector_size D s' = ss" "length sb = ss"
    "concat (contents s') = overwrite (concat (contents (dio_dev io))) (dio_pos io) (take c (drop k buf))"
    "dio_write_loop D ss io buf k =
       dio_write_loop D ss \<lparr>dio_dev = s', dio_pos = dio_pos io + c, dio_sector_buf = sb\<rparr> buf (k + c)"
proof -
  let ?s = "dio_dev io" and ?p = "dio_pos io"
  let ?off = "?p mod ss" and ?lba = "?p div ss" and ?chunk = "take c (drop k buf)"
  have ss: "0 < ss" using size_pos assms(1,2) by simp
  have lba: "?lba < length (contents ?s)" using sector_index assms(1,2,5) by simp
  have off: "?off < ss" using ss by simp
  have c: "0 < c" "c \<le> ss - ?off" "k + c \<le> length buf" using assms(4) off by (auto simp: c_def)
  have lc: "length ?chunk = c" using c(3) by simp
  let ?old = "contents ?s ! ?lba"
  have old: "length ?old = ss" using uniform [OF assms(1)] lba assms(2) by simp
  let ?new = "overwrite ?old ?off ?chunk"
  have new: "length ?new = ss" using old lc c off by simp
  obtain s' where s': "dv_write_sector D ?s ?lba ?new = Inr (s', Inr ())" "ok s'"
    "contents s' = (contents ?s)[?lba := ?new]" "dv_sector_size D s' = ss"
    using write_in [OF assms(1) lba, of ?new] new assms(2) by auto
  have flat: "concat (contents s') = overwrite (concat (contents ?s)) ?p ?chunk"
    unfolding s'(3) using uniform [OF assms(1)] assms(1,2,5) lc c
    by (intro overwrite_concat) (auto simp: flat_length)
  show thesis
  proof (cases "?off = 0 \<and> c = ss")
    case True
    have upd: "io\<lparr>dio_dev := s', dio_pos := q\<rparr> =
        \<lparr>dio_dev = s', dio_pos = q, dio_sector_buf = dio_sector_buf io\<rparr>" for q by (cases io) simp
    have "?new = ?chunk" using True old lc by (simp add: overwrite_whole)
    then have "dio_write_loop D ss io buf k =
       dio_write_loop D ss \<lparr>dio_dev = s', dio_pos = ?p + c, dio_sector_buf = dio_sector_buf io\<rparr> buf (k + c)"
      using s'(1) True assms(4) ss lim
      unfolding dio_write_loop.simps [of D ss io] Let_def c_def [symmetric] by (simp add: add_u64_ok upd)
    then show thesis using that [OF s'(2,4) assms(3) flat] by blast
  next
    case False
    have upd: "io\<lparr>dio_dev := s', dio_sector_buf := b, dio_pos := q\<rparr> =
        \<lparr>dio_dev = s', dio_pos = q, dio_sector_buf = b\<rparr>" for q b by (cases io) simp
    have fits: "\<not> length ?old < ?off + c" using old c off by simp
    have "dv_read_sector D ?s ?lba (dio_sector_buf io) = Inr (?s, ?old, Inr ())"
      using read_in [OF assms(1) lba] assms(2,3) by simp
    then have "dio_write_loop D ss io buf k =
       dio_write_loop D ss \<lparr>dio_dev = s', dio_pos = ?p + c, dio_sector_buf = ?new\<rparr> buf (k + c)"
      using s'(1) False assms(4) ss lim fits
      unfolding dio_write_loop.simps [of D ss io] Let_def c_def [symmetric] by (auto simp: add_u64_ok upd)
    then show thesis using that [OF s'(2,4) new flat] by blast
  qed
qed

lemma write_loop_in:
  "ok (dio_dev io) \<Longrightarrow> ss = dv_sector_size D (dio_dev io) \<Longrightarrow> length (dio_sector_buf io) = ss \<Longrightarrow>
   k \<le> length buf \<Longrightarrow> dio_pos io + (length buf - k) \<le> length (concat (contents (dio_dev io))) \<Longrightarrow>
   \<exists>s' sb. ok s' \<and> dv_sector_size D s' = ss \<and> length sb = ss \<and>
     concat (contents s') = overwrite (concat (contents (dio_dev io))) (dio_pos io) (drop k buf) \<and>
     dio_write_loop D ss io buf k =
       Inr (\<lparr>dio_dev = s', dio_pos = dio_pos io + (length buf - k), dio_sector_buf = sb\<rparr>, Inr (length buf))"
proof (induction "length buf - k" arbitrary: io k rule: less_induct)
  case less
  let ?s = "dio_dev io" and ?p = "dio_pos io"
  let ?flat = "concat (contents ?s)"
  show ?case
  proof (cases "k < length buf")
    case False
    then have "k = length buf" using less.prems by simp
    then show ?thesis using less.prems
      by (intro exI [of _ ?s] exI [of _ "dio_sector_buf io"]) (simp add: dio_write_loop.simps [of _ _ io])
  next
    case True
    define c where "c = min (ss - ?p mod ss) (length buf - k)"
    have ss: "0 < ss" using size_pos less.prems by simp
    have c: "0 < c" "k + c \<le> length buf" using True mod_less_divisor [OF ss, of ?p] by (auto simp: c_def)
    have p: "?p < length ?flat" using less.prems True by linarith
    have lim: "?p + c < U64_LIMIT"
      using less.prems(5) c(2) flat_length [OF less.prems(1)] total_bound [OF less.prems(1)] by linarith
    obtain s1 sb1 where r: "ok s1" "dv_sector_size D s1 = ss" "length sb1 = ss"
      "concat (contents s1) = overwrite ?flat ?p (take c (drop k buf))"
      "dio_write_loop D ss io buf k =
         dio_write_loop D ss \<lparr>dio_dev = s1, dio_pos = ?p + c, dio_sector_buf = sb1\<rparr> buf (k + c)"
      by (rule write_sector_step [OF less.prems(1-3) True p c_def lim])
    have lc: "length (take c (drop k buf)) = c" using c(2) by simp
    have len: "length (concat (contents s1)) = length ?flat" using r(4) lc less.prems(5) c(2) by simp
    have "length buf - (k + c) < length buf - k" using c by simp
    from less.hyps [OF this, of "\<lparr>dio_dev = s1, dio_pos = ?p + c, dio_sector_buf = sb1\<rparr>"]
    obtain s' sb where q: "ok s'" "dv_sector_size D s' = ss" "length sb = ss"
      "concat (contents s') = overwrite (concat (contents s1)) (?p + c) (drop (k + c) buf)"
      "dio_write_loop D ss \<lparr>dio_dev = s1, dio_pos = ?p + c, dio_sector_buf = sb1\<rparr> buf (k + c) =
        Inr (\<lparr>dio_dev = s', dio_pos = ?p + c + (length buf - (k + c)), dio_sector_buf = sb\<rparr>, Inr (length buf))"
      using r c(2) len less.prems(5) by auto
    have "take c (drop k buf) @ drop (k + c) buf = drop k buf"
      by (metis append_take_drop_id drop_drop add.commute)
    then have "concat (contents s') = overwrite ?flat ?p (drop k buf)"
      using q(4) r(4) overwrite_overwrite [of ?p "take c (drop k buf)" "drop (k + c) buf" ?flat] lc less.prems(5) c(2)
      by simp
    moreover have "?p + c + (length buf - (k + c)) = ?p + (length buf - k)" using c(2) by simp
    ultimately show ?thesis using q r(5) by auto
  qed
qed

lemma seek_start: "ok (dio_dev io) \<Longrightarrow> dio_seek D io (SeekStart q) = Inr (io\<lparr>dio_pos := q\<rparr>, Inr q)"
  using total_bound [of "dio_dev io"] by (simp add: dio_seek_def count mul_u64_def)

lemma read_after_write:
  assumes "ok (dio_dev io)" "length (dio_sector_buf io) = dv_sector_size D (dio_dev io)"
    and "dio_pos io + length data \<le> length (concat (contents (dio_dev io)))"
  shows "\<exists>io1. dio_write D io data = Inr (io1, Inr (length data)) \<and> ok (dio_dev io1) \<and>
    concat (contents (dio_dev io1)) = overwrite (concat (contents (dio_dev io))) (dio_pos io) data \<and>
    (\<forall>q buf. q + length buf \<le> length (concat (contents (dio_dev io))) \<longrightarrow>
      (\<exists>io2 io3. dio_seek D io1 (SeekStart q) = Inr (io2, Inr q) \<and>
        dio_read D io2 buf = Inr (io3,
          take (length buf) (drop q (overwrite (concat (contents (dio_dev io))) (dio_pos io) data)), Inr (length buf)) \<and>
        dio_dev io3 = dio_dev io1 \<and> dio_pos io3 = q + length buf))"
proof -
  let ?flat = "concat (contents (dio_dev io))"
  obtain s' sb where w: "ok s'" "dv_sector_size D s' = dv_sector_size D (dio_dev io)"
    "length sb = dv_sector_size D (dio_dev io)" "concat (contents s') = overwrite ?flat (dio_pos io) data"
    "dio_write D io data = Inr (\<lparr>dio_dev = s', dio_pos = dio_pos io + length data, dio_sector_buf = sb\<rparr>, Inr (length data))"
    using write_loop_in [OF assms(1) refl assms(2), of 0 data] assms(3) by (auto simp: dio_write_def)
  let ?io1 = "\<lparr>dio_dev = s', dio_pos = dio_pos io + length data, dio_sector_buf = sb\<rparr>"
  have len: "length (concat (contents s')) = length ?flat" using w(4) assms(3) by simp
  have "\<exists>io2 io3. dio_seek D ?io1 (SeekStart q) = Inr (io2, Inr q) \<and>
        dio_read D io2 buf = Inr (io3, take (length buf) (drop q (overwrite ?flat (dio_pos io) data)), Inr (length buf)) \<and>
        dio_dev io3 = s' \<and> dio_pos io3 = q + length buf" if "q + length buf \<le> length ?flat" for q buf
    using read_loop_in [of "?io1\<lparr>dio_pos := q\<rparr>" "dv_sector_size D s'" 0 buf] w len that seek_start [of ?io1 q]
    by (auto simp: dio_read_def)
  then show ?thesis using w by (intro exI [of _ ?io1]) auto
qed

end

subsection \<open>Properties\<close>

text \<open>
  C13. Over a RAM disk the cursor of the file system layer behaves as a file: a write that fits
  replaces exactly the addressed bytes of the flat contents, across sector boundaries and
  partial sectors, and any later seek and read inside the volume returns the bytes of the
  updated contents.
\<close>

theorem disk_io_read_after_write:
  assumes "ramdisk_ok (dio_dev io)" "length (dio_sector_buf io) = rd_sector_size (fst (dio_dev io))"
    and "dio_pos io + length data \<le> length (concat (ramdisk_contents (dio_dev io)))"
  shows "\<exists>io1. dio_write ramdisk_ops io data = Inr (io1, Inr (length data)) \<and> ramdisk_ok (dio_dev io1) \<and>
    concat (ramdisk_contents (dio_dev io1)) = overwrite (concat (ramdisk_contents (dio_dev io))) (dio_pos io) data \<and>
    (\<forall>q buf. q + length buf \<le> length (concat (ramdisk_contents (dio_dev io))) \<longrightarrow>
      (\<exists>io2 io3. dio_seek ramdisk_ops io1 (SeekStart q) = Inr (io2, Inr q) \<and>
        dio_read ramdisk_ops io2 buf = Inr (io3, take (length buf) (drop q
          (overwrite (concat (ramdisk_contents (dio_dev io))) (dio_pos io) data)), Inr (length buf)) \<and>
        dio_dev io3 = dio_dev io1 \<and> dio_pos io3 = q + length buf))"
proof -
  have "length (dio_sector_buf io) = dv_sector_size ramdisk_ops (dio_dev io)"
    using assms(2) by (simp add: ramdisk_ops_def case_prod_unfold)
  from rd.read_after_write [OF assms(1) this assms(3)] show ?thesis .
qed

theorem disk_io_read_after_write_witness:
  "\<exists>io1. dio_write ramdisk_ops \<lparr>dio_dev = (example_disk, \<lambda>_. 0), dio_pos = 2, dio_sector_buf = [0, 0, 0, 0]\<rparr> [5, 6, 7]
      = Inr (io1, Inr (length [5 :: u8, 6, 7])) \<and> ramdisk_ok (dio_dev io1)"
proof -
  let ?io = "\<lparr>dio_dev = (example_disk, \<lambda>_. 0 :: u8), dio_pos = 2, dio_sector_buf = [0, 0, 0, 0]\<rparr>"
  have "ramdisk_ok (dio_dev ?io)" using example_disk_ok by (simp add: ramdisk_ok_def)
  moreover have "length (concat (ramdisk_contents (dio_dev ?io))) = 8"
    by (simp add: ramdisk_contents_def disk_contents_def example_sector) (simp add: example_disk_def)
  ultimately show ?thesis
    using disk_io_read_after_write [of ?io "[5, 6, 7]"] by (auto simp: example_disk_simps)
qed

end
