(* ===== verification/IoSched.thy ===== *)
theory IoSched
  imports Prelude "HOL-Library.Multiset"
begin

text \<open>
  The disk request schedulers of \<^verbatim>\<open>io/scheduler.rs\<close>: C-SCAN and first-come-first-served with
  merging of adjacent writes. Their common trait is the locale \<open>request_scheduler\<close>, whose
  contract speaks of the sector operations a batch of requests stands for.
\<close>

record disk_request =
  dr_lba :: nat
  dr_count :: nat
  dr_is_write :: bool

record cscan =
  cs_pending :: "disk_request list"
  cs_head :: nat

definition cscan_new :: cscan where
  "cscan_new = \<lparr>cs_pending = [], cs_head = 0\<rparr>"

definition cscan_submit :: "cscan \<Rightarrow> disk_request \<Rightarrow> cscan" where
  "cscan_submit s req = s\<lparr>cs_pending := cs_pending s @ [req]\<rparr>"

definition position_or_len :: "('a \<Rightarrow> bool) \<Rightarrow> 'a list \<Rightarrow> nat" where
  "position_or_len P xs = length (takeWhile (\<lambda>x. \<not> P x) xs)"

definition cscan_drain :: "cscan \<Rightarrow> (disk_request list \<times> cscan) res" where
  "cscan_drain s =
     (let h = cs_head s;
          sorted_batch = sort_key dr_lba (cs_pending s);
          split = position_or_len (\<lambda>r. dr_lba r \<ge> h) sorted_batch;
          above = drop split sorted_batch @ take split sorted_batch;
          s' = s\<lparr>cs_pending := []\<rparr>
      in if above = [] then Inr (above, s')
         else rbind (add_u64 (dr_lba (last above)) (dr_count (last above))) (\<lambda>head'.
              Inr (above, s'\<lparr>cs_head := head'\<rparr>)))"

record fcfs =
  fc_pending :: "disk_request list"

definition fcfs_new :: fcfs where
  "fcfs_new = \<lparr>fc_pending = []\<rparr>"

definition fcfs_submit :: "fcfs \<Rightarrow> disk_request \<Rightarrow> fcfs" where
  "fcfs_submit s req = s\<lparr>fc_pending := fc_pending s @ [req]\<rparr>"

definition merge_into :: "disk_request list \<Rightarrow> disk_request \<Rightarrow> disk_request list res" where
  "merge_into merged req =
     (if dr_is_write req \<and> merged \<noteq> [] \<and> dr_is_write (last merged) then
        rbind (add_u64 (dr_lba (last merged)) (dr_count (last merged))) (\<lambda>next_lba.
        if dr_lba req = next_lba then
          rbind (add_u64 (dr_count (last merged)) (dr_count req)) (\<lambda>c.
          Inr (butlast merged @ [(last merged)\<lparr>dr_count := c\<rparr>]))
        else Inr (merged @ [req]))
      else Inr (merged @ [req]))"

fun fcfs_merge_loop :: "disk_request list \<Rightarrow> disk_request list \<Rightarrow> disk_request list res" where
  "fcfs_merge_loop merged [] = Inr merged"
| "fcfs_merge_loop merged (req # batch) = rbind (merge_into merged req) (\<lambda>merged'. fcfs_merge_loop merged' batch)"

definition fcfs_drain :: "fcfs \<Rightarrow> (disk_request list \<times> fcfs) res" where
  "fcfs_drain s = rbind (fcfs_merge_loop [] (fc_pending s)) (\<lambda>merged. Inr (merged, s\<lparr>fc_pending := []\<rparr>))"

subsection \<open>What a batch of requests stands for\<close>

definition sector_ops :: "disk_request \<Rightarrow> (bool \<times> nat) list" where
  "sector_ops r = map (\<lambda>k. (dr_is_write r, dr_lba r + k)) [0 ..< dr_count r]"

definition batch_ops :: "disk_request list \<Rightarrow> (bool \<times> nat) list" where
  "batch_ops rs = concat (map sector_ops rs)"

definition request_ok :: "disk_request \<Rightarrow> bool" where
  "request_ok r \<longleftrightarrow> dr_lba r + dr_count r < U64_LIMIT"

lemma batch_ops_simps [simp]:
  "batch_ops [] = []" "batch_ops (r # rs) = sector_ops r @ batch_ops rs"
  "batch_ops (rs @ qs) = batch_ops rs @ batch_ops qs"
  by (simp_all add: batch_ops_def)

lemma mset_batch_ops: "mset rs = mset qs \<Longrightarrow> mset (batch_ops rs) = mset (batch_ops qs)"
proof -
  have "mset (batch_ops rs) = \<Sum>\<^sub># (image_mset (\<lambda>r. mset (sector_ops r)) (mset rs))" for rs
    by (induction rs) simp_all
  then show "mset rs = mset qs \<Longrightarrow> mset (batch_ops rs) = mset (batch_ops qs)" by simp
qed

subsection \<open>The scheduler contract\<close>

text \<open>Rounds of submissions, each followed by a drain; the result is what was served.\<close>

fun serve_rounds :: "('s \<Rightarrow> disk_request \<Rightarrow> 's) \<Rightarrow> ('s \<Rightarrow> (disk_request list \<times> 's) res) \<Rightarrow>
    disk_request list list \<Rightarrow> 's \<Rightarrow> (disk_request list \<times> 's) res" where
  "serve_rounds submit drain [] s = Inr ([], s)"
| "serve_rounds submit drain (b # bs) s =
     rbind (drain (foldl submit s b)) (\<lambda>(out, s1).
     rbind (serve_rounds submit drain bs s1) (\<lambda>(outs, s2). Inr (out @ outs, s2)))"

locale request_scheduler =
  fixes submit :: "'s \<Rightarrow> disk_request \<Rightarrow> 's"
    and drain :: "'s \<Rightarrow> (disk_request list \<times> 's) res"
    and pending :: "'s \<Rightarrow> disk_request list"
  assumes submit_pending: "pending (submit s r) = pending s @ [r]"
    and drain_serves: "\<forall>r\<in>set (pending s). request_ok r \<Longrightarrow>
      \<exists>out s'. drain s = Inr (out, s') \<and> pending s' = [] \<and> mset (batch_ops out) = mset (batch_ops (pending s))"
begin

lemma pending_foldl: "pending (foldl submit s b) = pending s @ b"
  by (induction b arbitrary: s) (simp_all add: submit_pending)

lemma rounds_serve_all:
  "pending s = [] \<Longrightarrow> \<forall>r\<in>set (concat bs). request_ok r \<Longrightarrow>
   \<exists>out s'. serve_rounds submit drain bs s = Inr (out, s') \<and> pending s' = [] \<and> mset (batch_ops out) = mset (batch_ops (concat bs))"
proof (induction bs arbitrary: s)
  case Nil
  then show ?case by simp
next
  case (Cons b bs)
  have "pending (foldl submit s b) = b" by (simp add: pending_foldl Cons.prems(1))
  then obtain out s1 where d: "drain (foldl submit s b) = Inr (out, s1)" "pending s1 = []"
    "mset (batch_ops out) = mset (batch_ops b)"
    using drain_serves [of "foldl submit s b"] Cons.prems(2) by auto
  with Cons.IH [of s1] Cons.prems(2) show ?case by auto
qed

end

subsection \<open>C-SCAN\<close>

lemma while_sorted:
  fixes h :: nat
  assumes "sorted (map f xs)"
  shows takeWhile_sorted: "takeWhile (\<lambda>x. \<not> h \<le> f x) xs = filter (\<lambda>x. f x < h) xs"
    and dropWhile_sorted: "dropWhile (\<lambda>x. \<not> h \<le> f x) xs = filter (\<lambda>x. h \<le> f x) xs"
proof -
  have "takeWhile (\<lambda>x. \<not> h \<le> f x) xs = filter (\<lambda>x. f x < h) xs \<and>
        dropWhile (\<lambda>x. \<not> h \<le> f x) xs = filter (\<lambda>x. h \<le> f x) xs"
    using assms
  proof (induction xs)
    case (Cons a xs)
    show ?case
    proof (cases "h \<le> f a")
      case True
      then have "\<forall>x\<in>set xs. h \<le> f x" using Cons.prems by fastforce
      then have "filter (\<lambda>x. f x < h) xs = []" "filter (\<lambda>x. h \<le> f x) xs = xs"
        by (auto simp: filter_empty_conv filter_id_conv)
      then show ?thesis using True by simp
    next
      case False
      then show ?thesis using Cons by simp
    qed
  qed simp
  then show "takeWhile (\<lambda>x. \<not> h \<le> f x) xs = filter (\<lambda>x. f x < h) xs"
    "dropWhile (\<lambda>x. \<not> h \<le> f x) xs = filter (\<lambda>x. h \<le> f x) xs" by blast+
qed

definition cscan_order :: "nat \<Rightarrow> disk_request list \<Rightarrow> disk_request list" where
  "cscan_order h rs = sort_key dr_lba (filter (\<lambda>r. h \<le> dr_lba r) rs) @ sort_key dr_lba (filter (\<lambda>r. dr_lba r < h) rs)"

lemma mset_cscan_order: "mset (cscan_order h rs) = mset rs"
proof -
  have "filter_mset (\<lambda>r. dr_lba r < h) M = filter_mset (\<lambda>r. \<not> h \<le> dr_lba r) M" for M :: "disk_request multiset"
    by (rule filter_mset_cong) auto
  then show ?thesis by (simp add: cscan_order_def flip: multiset_partition)
qed

lemma cscan_drain_order:
  "cscan_drain s =
     (if cs_pending s = [] then Inr ([], s\<lparr>cs_pending := []\<rparr>)
      else let out = cscan_order (cs_head s) (cs_pending s)
           in rbind (add_u64 (dr_lba (last out)) (dr_count (last out))) (\<lambda>h. Inr (out, s\<lparr>cs_pending := [], cs_head := h\<rparr>)))"
proof -
  let ?xs = "sort_key dr_lba (cs_pending s)"
  let ?k = "position_or_len (\<lambda>r. dr_lba r \<ge> cs_head s) ?xs"
  have order: "drop ?k ?xs @ take ?k ?xs = cscan_order (cs_head s) (cs_pending s)"
    unfolding position_or_len_def takeWhile_eq_take [symmetric] dropWhile_eq_drop [symmetric] cscan_order_def
    by (simp add: takeWhile_sorted dropWhile_sorted filter_sort)
  have nil: "cscan_order (cs_head s) (cs_pending s) = [] \<longleftrightarrow> cs_pending s = []"
    using mset_cscan_order [of "cs_head s" "cs_pending s"] by (metis mset_zero_iff)
  show ?thesis unfolding cscan_drain_def Let_def order by (simp add: nil) (simp add: cscan_order_def)
qed

lemma cscan_drain_serves:
  assumes "\<forall>r\<in>set (cs_pending s). request_ok r"
  shows "\<exists>out s'. cscan_drain s = Inr (out, s') \<and> cs_pending s' = [] \<and>
    mset (batch_ops out) = mset (batch_ops (cs_pending s))"
proof (cases "cs_pending s = []")
  case True
  then show ?thesis by (simp add: cscan_drain_order)
next
  case False
  let ?out = "cscan_order (cs_head s) (cs_pending s)"
  have set: "set ?out = set (cs_pending s)" using mset_cscan_order by (rule mset_eq_setD)
  then have "?out \<noteq> []" using False by auto
  then have "last ?out \<in> set (cs_pending s)" using set last_in_set by blast
  then have "dr_lba (last ?out) + dr_count (last ?out) < U64_LIMIT" using assms by (simp add: request_ok_def)
  then show ?thesis
    using False mset_batch_ops [OF mset_cscan_order] by (simp add: cscan_drain_order add_u64_ok Let_def)
qed

interpretation cs: request_scheduler cscan_submit cscan_drain cs_pending
proof unfold_locales
  show "cs_pending (cscan_submit s r) = cs_pending s @ [r]" for s r by (simp add: cscan_submit_def)
  show "\<exists>out s'. cscan_drain s = Inr (out, s') \<and> cs_pending s' = [] \<and>
      mset (batch_ops out) = mset (batch_ops (cs_pending s))" if "\<forall>r\<in>set (cs_pending s). request_ok r" for s
    using that by (rule cscan_drain_serves)
qed

subsection \<open>First come, first served with merging\<close>

definition mergeable :: "disk_request \<Rightarrow> disk_request \<Rightarrow> bool" where
  "mergeable a b \<longleftrightarrow> dr_is_write a \<and> dr_is_write b \<and> dr_lba b = dr_lba a + dr_count a"

lemma sector_ops_merge:
  assumes "mergeable a b"
  shows "sector_ops (a\<lparr>dr_count := dr_count a + dr_count b\<rparr>) = sector_ops a @ sector_ops b"
  using assms by (intro nth_equalityI) (auto simp: sector_ops_def mergeable_def nth_append)

lemma merge_into_cases:
  assumes "\<forall>r\<in>set merged. request_ok r" "request_ok req"
  obtains (push) "merge_into merged req = Inr (merged @ [req])" "merged = [] \<or> \<not> mergeable (last merged) req"
  | (merge) ms a where "merged = ms @ [a]" "mergeable a req"
      "merge_into merged req = Inr (ms @ [a\<lparr>dr_count := dr_count a + dr_count req\<rparr>])"
proof (cases "merged = []")
  case True
  then show thesis by (intro push) (simp_all add: merge_into_def)
next
  case False
  then obtain ms a where m: "merged = ms @ [a]" by (metis append_butlast_last_id)
  have a: "dr_lba a + dr_count a < U64_LIMIT" using assms(1) m by (simp add: request_ok_def)
  show thesis
  proof (cases "mergeable a req")
    case True
    then have "dr_count a + dr_count req < U64_LIMIT" using assms(2) by (simp add: request_ok_def mergeable_def)
    then show thesis using merge [OF m True] True a m
      by (simp add: merge_into_def mergeable_def add_u64_ok)
  next
    case nm: False
    then show thesis using a m by (intro push) (auto simp: merge_into_def mergeable_def add_u64_ok)
  qed
qed

lemma request_ok_merge: "request_ok b \<Longrightarrow> mergeable a b \<Longrightarrow> request_ok (a\<lparr>dr_count := dr_count a + dr_count b\<rparr>)"
  by (simp add: request_ok_def mergeable_def)

definition unmerged :: "disk_request list \<Rightarrow> bool" where
  "unmerged rs \<longleftrightarrow> (\<forall>i. Suc i < length rs \<longrightarrow> \<not> mergeable (rs ! i) (rs ! Suc i))"

lemma unmerged_snoc: "unmerged (rs @ [r]) \<longleftrightarrow> unmerged rs \<and> (rs = [] \<or> \<not> mergeable (last rs) r)"
proof (cases rs rule: rev_cases)
  case Nil
  then show ?thesis by (simp add: unmerged_def)
next
  case (snoc qs q)
  show ?thesis unfolding unmerged_def snoc
    by (auto simp: nth_append less_Suc_eq all_conj_distrib)
qed

lemma fcfs_merge_loop_spec:
  "\<forall>r\<in>set merged \<union> set batch. request_ok r \<Longrightarrow> unmerged merged \<Longrightarrow>
   \<exists>out. fcfs_merge_loop merged batch = Inr out \<and> batch_ops out = batch_ops merged @ batch_ops batch \<and>
     unmerged out \<and> length out \<le> length merged + length batch"
proof (induction batch arbitrary: merged)
  case Nil
  then show ?case by simp
next
  case (Cons req batch)
  have "\<forall>r\<in>set merged. request_ok r" "request_ok req" using Cons.prems(1) by auto
  then show ?case
  proof (cases rule: merge_into_cases)
    case push
    then show ?thesis using Cons.IH [of "merged @ [req]"] Cons.prems by (auto simp: unmerged_snoc)
  next
    case (merge ms a)
    let ?a = "a\<lparr>dr_count := dr_count a + dr_count req\<rparr>"
    have "\<forall>r\<in>set (ms @ [?a]) \<union> set batch. request_ok r"
      using Cons.prems(1) merge request_ok_merge [of req a] by auto
    moreover have "unmerged (ms @ [?a])"
      using Cons.prems(2) merge by (simp add: unmerged_snoc mergeable_def)
    ultimately show ?thesis
      using Cons.IH [of "ms @ [?a]"] merge sector_ops_merge [OF merge(2)] by auto
  qed
qed

lemma fcfs_drain_spec:
  assumes "\<forall>r\<in>set (fc_pending s). request_ok r"
  shows "\<exists>out. fcfs_drain s = Inr (out, s\<lparr>fc_pending := []\<rparr>) \<and> batch_ops out = batch_ops (fc_pending s) \<and>
    unmerged out \<and> length out \<le> length (fc_pending s)"
  using fcfs_merge_loop_spec [of "[]" "fc_pending s"] assms
  by (auto simp: fcfs_drain_def unmerged_def)

interpretation fc: request_scheduler fcfs_submit fcfs_drain fc_pending
proof unfold_locales
  show "fc_pending (fcfs_submit s r) = fc_pending s @ [r]" for s r by (simp add: fcfs_submit_def)
  show "\<exists>out s'. fcfs_drain s = Inr (out, s') \<and> fc_pending s' = [] \<and>
      mset (batch_ops out) = mset (batch_ops (fc_pending s))" if "\<forall>r\<in>set (fc_pending s). request_ok r" for s
    using fcfs_drain_spec [OF that] by fastforce
qed

subsection \<open>Properties\<close>

text \<open>
  C28. C-SCAN: a drain serves the pending requests in one upward sweep from the head followed
  by one from the lowest sector, each sweep in stable ascending order, empties the queue and
  leaves the head at the end of the last request; it panics exactly when that end overflows.
\<close>

theorem cscan_drain_sweeps:
  "cscan_drain s =
     (if cs_pending s = [] then Inr ([], s\<lparr>cs_pending := []\<rparr>)
      else let up = sort_key dr_lba (filter (\<lambda>r. cs_head s \<le> dr_lba r) (cs_pending s));
               low = sort_key dr_lba (filter (\<lambda>r. dr_lba r < cs_head s) (cs_pending s));
               final = last (up @ low)
           in if dr_lba final + dr_count final < U64_LIMIT
              then Inr (up @ low, s\<lparr>cs_pending := [], cs_head := dr_lba final + dr_count final\<rparr>)
              else Inl Overflow)"
  by (simp add: cscan_drain_order cscan_order_def add_u64_def Let_def)

text \<open>
  First come, first served: a drain performs exactly the submitted sector operations in
  submission order, with no two adjacent requests left that could still be merged.
\<close>

theorem fcfs_drain_in_order:
  assumes "\<forall>r\<in>set (fc_pending s). request_ok r"
  shows "\<exists>out. fcfs_drain s = Inr (out, s\<lparr>fc_pending := []\<rparr>) \<and> batch_ops out = batch_ops (fc_pending s) \<and>
    (\<forall>i. Suc i < length out \<longrightarrow> \<not> mergeable (out ! i) (out ! Suc i))"
  using fcfs_drain_spec [OF assms] unfolding unmerged_def by blast

theorem fcfs_drain_in_order_witness:
  "\<exists>out. fcfs_drain \<lparr>fc_pending = [\<lparr>dr_lba = 4, dr_count = 2, dr_is_write = True\<rparr>, \<lparr>dr_lba = 6, dr_count = 1, dr_is_write = True\<rparr>]\<rparr>
      = Inr (out, \<lparr>fc_pending = []\<rparr>) \<and>
    batch_ops out = batch_ops [\<lparr>dr_lba = 4, dr_count = 2, dr_is_write = True\<rparr>, \<lparr>dr_lba = 6, dr_count = 1, dr_is_write = True\<rparr>]"
  using fcfs_drain_in_order [of "\<lparr>fc_pending = [\<lparr>dr_lba = 4, dr_count = 2, dr_is_write = True\<rparr>, \<lparr>dr_lba = 6, dr_count = 1, dr_is_write = True\<rparr>]\<rparr>"]
  by (auto simp: request_ok_def U64_LIMIT_def)

text \<open>
  C29. Neither scheduler loses or repeats work: over any number of rounds of submissions and
  drains, what either of them serves is, sector operation by sector operation, what was
  submitted.
\<close>

theorem schedulers_serve_all:
  assumes "\<forall>r\<in>set (concat bs). request_ok r"
  shows "(\<exists>out s'. serve_rounds cscan_submit cscan_drain bs cscan_new = Inr (out, s') \<and>
            mset (batch_ops out) = mset (batch_ops (concat bs))) \<and>
         (\<exists>out s'. serve_rounds fcfs_submit fcfs_drain bs fcfs_new = Inr (out, s') \<and>
            mset (batch_ops out) = mset (batch_ops (concat bs)))"
  using cs.rounds_serve_all [of cscan_new bs] fc.rounds_serve_all [of fcfs_new bs] assms
  by (auto simp: cscan_new_def fcfs_new_def)

theorem schedulers_serve_all_witness:
  "\<exists>out s'. serve_rounds cscan_submit cscan_drain
      [[\<lparr>dr_lba = 9, dr_count = 1, dr_is_write = False\<rparr>], [\<lparr>dr_lba = 3, dr_count = 2, dr_is_write = True\<rparr>]] cscan_new = Inr (out, s')"
  using schedulers_serve_all [of "[[\<lparr>dr_lba = 9, dr_count = 1, dr_is_write = False\<rparr>], [\<lparr>dr_lba = 3, dr_count = 2, dr_is_write = True\<rparr>]]"]
  by (auto simp: request_ok_def U64_LIMIT_def)

end
