(* ===== verification/Swap.thy ===== *)
theory Swap
  imports Disk
begin

text \<open>
  The swap partition of \<^verbatim>\<open>memory/swap.rs\<close>: pages kept in slots of eight sectors of a RAM disk. The
  interface \<open>swap_backend\<close> is what the pager relies on: a page written out comes back unchanged, and slots
  do not interfere.
\<close>

definition SECTOR_SIZE :: nat where
  "SECTOR_SIZE = 512"

definition SECTORS_PER_PAGE :: nat where
  "SECTORS_PER_PAGE = PAGE_SIZE div SECTOR_SIZE"

definition SWAP_PAGES :: nat where
  "SWAP_PAGES = 1024"

record swap_partition =
  sw_disk :: ram_disk
  sw_free :: "bool list"
  sw_cursor :: nat

definition swap_new ::
  "phys_ops \<Rightarrow> ('pt, free_list \<times> memory) pt_ops \<Rightarrow> nat \<Rightarrow> nat \<Rightarrow> 'pt \<Rightarrow> free_list \<times> memory \<Rightarrow>
   (swap_partition \<times> nat \<times> 'pt \<times> free_list \<times> memory) res" where
  "swap_new x P cursor pages pt fa =
     rbind (mul_u64 pages SECTORS_PER_PAGE) (\<lambda>n.
     rbind (ram_disk_new x P cursor n SECTOR_SIZE pt fa) (\<lambda>(disk, cursor', pt', fa').
     Inr (\<lparr>sw_disk = disk, sw_free = replicate pages True, sw_cursor = 0\<rparr>, cursor', pt', fa')))"

definition alloc_slot :: "swap_partition \<Rightarrow> nat option \<times> swap_partition" where
  "alloc_slot s =
     (let n = length (sw_free s)
      in case find (\<lambda>i. sw_free s ! ((sw_cursor s + i) mod n)) [0 ..< n] of
           None \<Rightarrow> (None, s)
         | Some i \<Rightarrow> (let idx = (sw_cursor s + i) mod n
                      in (Some idx, s\<lparr>sw_free := (sw_free s)[idx := False], sw_cursor := (idx + 1) mod n\<rparr>)))"

definition free_slot :: "swap_partition \<Rightarrow> nat \<Rightarrow> swap_partition" where
  "free_slot s slot = (if slot < length (sw_free s) then s\<lparr>sw_free := (sw_free s)[slot := True]\<rparr> else s)"

fun swap_out_loop :: "ram_disk \<Rightarrow> memory \<Rightarrow> nat \<Rightarrow> nat \<Rightarrow> nat list \<Rightarrow> (bool \<times> ram_disk \<times> memory) res" where
  "swap_out_loop d m base slot [] = Inr (True, d, m)"
| "swap_out_loop d m base slot (i # rest) =
     rbind (write_sector d m (slot * SECTORS_PER_PAGE + i) (read_bytes m (base + i * SECTOR_SIZE) SECTOR_SIZE)) (\<lambda>(d', m', r).
       case r of Inl _ \<Rightarrow> Inr (False, d', m') | Inr _ \<Rightarrow> swap_out_loop d' m' base slot rest)"

definition swap_out :: "swap_partition \<times> memory \<Rightarrow> nat \<Rightarrow> (nat option \<times> swap_partition \<times> memory) res" where
  "swap_out sm frame = (let (s, m) = sm in
     case alloc_slot s of
       (None, s1) \<Rightarrow> Inr (None, s1, m)
     | (Some slot, s1) \<Rightarrow>
         rbind (add_u64 PHYS_MEM_OFFSET frame) (\<lambda>base.
         rbind (swap_out_loop (sw_disk s1) m base slot [0 ..< SECTORS_PER_PAGE]) (\<lambda>(ok, d', m').
         Inr (if ok then Some slot else None, s1\<lparr>sw_disk := d'\<rparr>, m'))))"

fun swap_in_loop :: "ram_disk \<Rightarrow> memory \<Rightarrow> nat \<Rightarrow> nat \<Rightarrow> nat list \<Rightarrow> memory res" where
  "swap_in_loop d m base slot [] = Inr m"
| "swap_in_loop d m base slot (i # rest) =
     rbind (read_sector d m (slot * SECTORS_PER_PAGE + i) (read_bytes m (base + i * SECTOR_SIZE) SECTOR_SIZE)) (\<lambda>(buf, r).
       case r of
         Inl _ \<Rightarrow> Inl ExpectFailed
       | Inr _ \<Rightarrow> swap_in_loop d (write_bytes m (base + i * SECTOR_SIZE) buf) base slot rest)"

definition swap_in :: "swap_partition \<times> memory \<Rightarrow> nat \<Rightarrow> nat \<Rightarrow> (swap_partition \<times> memory) res" where
  "swap_in sm slot frame = (let (s, m) = sm in
     rbind (add_u64 PHYS_MEM_OFFSET frame) (\<lambda>base.
     rbind (swap_in_loop (sw_disk s) m base slot [0 ..< SECTORS_PER_PAGE]) (\<lambda>m'.
     Inr (free_slot s slot, m'))))"

subsection \<open>Slots and pages\<close>

lemma swap_sizes: "SECTOR_SIZE = 512" "SECTORS_PER_PAGE = 8"
  by (simp_all add: SECTOR_SIZE_def SECTORS_PER_PAGE_def PAGE_SIZE_def)

definition swap_ok :: "swap_partition \<times> memory \<Rightarrow> bool" where
  "swap_ok sm \<longleftrightarrow> disk_ok (sw_disk (fst sm)) (snd sm) \<and> rd_sector_size (sw_disk (fst sm)) = 512 \<and>
     length (rd_crcs (sw_disk (fst sm))) = 8 * length (sw_free (fst sm))"

definition slot_page :: "ram_disk \<Rightarrow> memory \<Rightarrow> nat \<Rightarrow> u8 list" where
  "slot_page d m k = concat (map (\<lambda>i. sector_bytes d m (k * 8 + i)) [0 ..< 8])"

definition swap_view :: "swap_partition \<times> memory \<Rightarrow> nat \<rightharpoonup> u8 list" where
  "swap_view sm k =
     (if k < length (sw_free (fst sm)) \<and> \<not> sw_free (fst sm) ! k then Some (slot_page (sw_disk (fst sm)) (snd sm) k) else None)"

definition frame_page :: "swap_partition \<times> memory \<Rightarrow> nat \<Rightarrow> u8 list" where
  "frame_page sm f = concat (map (\<lambda>i. read_bytes (snd sm) (PHYS_MEM_OFFSET + f + i * 512) 512) [0 ..< 8])"

definition swap_frame :: "swap_partition \<times> memory \<Rightarrow> nat \<Rightarrow> bool" where
  "swap_frame sm f \<longleftrightarrow> 4096 dvd f \<and> PHYS_MEM_OFFSET + f + 4096 \<le> U64_LIMIT \<and>
     (PHYS_MEM_OFFSET + f + 4096 \<le> rd_base (sw_disk (fst sm)) \<or>
      rd_base (sw_disk (fst sm)) + rd_byte_len (sw_disk (fst sm)) \<le> PHYS_MEM_OFFSET + f)"

lemma read_bytes_sectors: "concat (map (\<lambda>i. read_bytes m (a + i * 512) 512) [0 ..< n]) = read_bytes m a (n * 512)"
proof (induction n)
  case (Suc n)
  have "Suc n * 512 = n * 512 + 512" by simp
  then show ?case using Suc read_bytes_append [of m a "n * 512" 512] by (simp only:) simp
qed (simp add: read_bytes_def)

lemma frame_page_bytes: "frame_page sm f = read_bytes (snd sm) (PHYS_MEM_OFFSET + f) 4096"
  using read_bytes_sectors [of "snd sm" "PHYS_MEM_OFFSET + f" 8] by (simp add: frame_page_def)

lemma alloc_slot_Some:
  assumes "alloc_slot s = (Some k, s')"
  shows "k < length (sw_free s)" "sw_free s ! k" "sw_free s' = (sw_free s)[k := False]" "sw_disk s' = sw_disk s"
  using assms
  by (auto simp: alloc_slot_def Let_def find_Some_iff intro!: mod_less_divisor elim: le_less_trans [OF le0] split: option.splits)

lemma alloc_slot_None:
  assumes "alloc_slot s = (None, s')" "k < length (sw_free s)"
  shows "\<not> sw_free s ! k" "s' = s"
proof -
  let ?n = "length (sw_free s)"
  have f: "find (\<lambda>i. sw_free s ! ((sw_cursor s + i) mod ?n)) [0 ..< ?n] = None" "s' = s"
    using assms(1) by (auto simp: alloc_slot_def Let_def split: option.splits)
  then show "s' = s" by simp
  have "\<exists>i<?n. (sw_cursor s + i) mod ?n = k"
  proof (intro exI conjI)
    let ?i = "(k + (?n - sw_cursor s mod ?n)) mod ?n"
    have n: "0 < ?n" using assms(2) by linarith
    then show "?i < ?n" by (rule mod_less_divisor)
    have "(sw_cursor s + ?i) mod ?n = (sw_cursor s mod ?n + (k + (?n - sw_cursor s mod ?n))) mod ?n"
      by (metis mod_add_left_eq mod_add_right_eq)
    also have "\<dots> = (k + ?n) mod ?n" using mod_less_divisor [OF n, of "sw_cursor s"] by (simp add: less_imp_le)
    finally show "(sw_cursor s + ?i) mod ?n = k" using assms(2) by simp
  qed
  then show "\<not> sw_free s ! k" using f(1) by (auto simp: find_None_iff)
qed

subsection \<open>Writing out and reading in\<close>

lemma swap_out_loop_ok:
  assumes "disk_ok d m" "rd_sector_size d = 512" "length (rd_crcs d) = 8 * n" "slot < n" "\<forall>i\<in>set xs. i < 8"
    and "base + 4096 \<le> rd_base d \<or> rd_base d + rd_byte_len d \<le> base"
  shows "\<exists>d' m'. swap_out_loop d m base slot xs = Inr (True, d', m') \<and> disk_ok d' m' \<and> rd_sector_size d' = 512 \<and>
    length (rd_crcs d') = 8 * n \<and> rd_base d' = rd_base d \<and> rd_byte_len d' = rd_byte_len d \<and>
    (\<forall>l. sector_bytes d' m' l = (if l div 8 = slot \<and> l mod 8 \<in> set xs then read_bytes m (base + l mod 8 * 512) 512 else sector_bytes d m l)) \<and>
    (\<forall>a. a \<notin> disk_range d \<longrightarrow> m' a = m a)"
  using assms
proof (induction xs arbitrary: d m)
  case (Cons i xs)
  let ?l = "slot * 8 + i" and ?buf = "read_bytes m (base + i * 512) 512"
  let ?d = "d\<lparr>rd_crcs := (rd_crcs d)[?l := crc32 ?buf]\<rparr>"
  let ?m = "write_bytes m (rd_base d + ?l * rd_sector_size d) ?buf"
  have i: "i < 8" using Cons.prems(5) by simp
  then have l: "?l < length (rd_crcs d)" using Cons.prems(3,4) by linarith
  have shape: "disk_shape d" using Cons.prems(1) by (simp add: disk_ok_def)
  have w: "write_sector d m ?l ?buf = Inr (?d, ?m, Inr ())"
    using write_sector_result [OF shape l, of ?buf m] Cons.prems(2) by simp
  have sb: "sector_bytes ?d ?m k = (if k = ?l then ?buf else sector_bytes d m k)" for k
    by (rule sector_bytes_write) (simp add: Cons.prems(2))
  have ok: "disk_ok ?d ?m"
    using Cons.prems(1) shape by (auto simp: disk_ok_def sb nth_list_update disk_shape_def)
  have out: "?m a = m a" if "a \<notin> disk_range d" for a
    using that sector_end_le [OF shape l] Cons.prems(2) by (intro write_bytes_other) (auto simp: disk_range_def)
  have page: "read_bytes ?m (base + j * 512) 512 = read_bytes m (base + j * 512) 512" if "j < 8" for j
  proof (rule read_bytes_cong)
    fix a assume "base + j * 512 \<le> a" "a < base + j * 512 + 512"
    then have "base \<le> a" "a < base + 4096" using that by linarith+
    then show "?m a = m a" using Cons.prems(6) by (intro out) (auto simp: disk_range_def)
  qed
  obtain d' m' where ih: "swap_out_loop ?d ?m base slot xs = Inr (True, d', m')" "disk_ok d' m'" "rd_sector_size d' = 512"
    "length (rd_crcs d') = 8 * n" "rd_base d' = rd_base d" "rd_byte_len d' = rd_byte_len d"
    "\<forall>l. sector_bytes d' m' l = (if l div 8 = slot \<and> l mod 8 \<in> set xs then read_bytes ?m (base + l mod 8 * 512) 512 else sector_bytes ?d ?m l)"
    "\<forall>a. a \<notin> disk_range ?d \<longrightarrow> m' a = ?m a"
    using Cons.IH [OF ok, simplified] Cons.prems by auto
  have "swap_out_loop d m base slot (i # xs) = Inr (True, d', m')" using w ih(1) by (simp add: swap_sizes)
  moreover have "sector_bytes d' m' l = (if l div 8 = slot \<and> l mod 8 \<in> set (i # xs) then read_bytes m (base + l mod 8 * 512) 512 else sector_bytes d m l)" for l
  proof -
    have "l = ?l \<longleftrightarrow> l div 8 = slot \<and> l mod 8 = i" using i by (metis add.commute div_mult_mod_eq mod_less_divisor mod_mult_self3 mod_less div_mult_self3 div_less zero_neq_numeral mult.commute add_0)
    moreover have "l mod 8 < 8" by simp
    ultimately show ?thesis using ih(7) page [of "l mod 8"] sb [of l] by auto
  qed
  moreover have "m' a = m a" if "a \<notin> disk_range d" for a using ih(8) that out by (simp add: disk_range_def)
  ultimately show ?case using ih by (intro exI [of _ d'] exI [of _ m']) simp
qed simp

lemma swap_in_loop_ok:
  assumes "disk_ok d m" "rd_sector_size d = 512" "length (rd_crcs d) = 8 * n" "slot < n" "\<forall>i\<in>set xs. i < 8" "distinct xs"
    and "base + 4096 \<le> rd_base d \<or> rd_base d + rd_byte_len d \<le> base"
  shows "\<exists>m'. swap_in_loop d m base slot xs = Inr m' \<and> disk_ok d m' \<and>
    (\<forall>l<8 * n. sector_bytes d m' l = sector_bytes d m l) \<and>
    (\<forall>i\<in>set xs. read_bytes m' (base + i * 512) 512 = sector_bytes d m (slot * 8 + i)) \<and>
    (\<forall>i<8. i \<notin> set xs \<longrightarrow> read_bytes m' (base + i * 512) 512 = read_bytes m (base + i * 512) 512) \<and>
    (\<forall>a. a < base \<or> base + 4096 \<le> a \<longrightarrow> m' a = m a)"
  using assms
proof (induction xs arbitrary: m)
  case (Cons i xs)
  let ?l = "slot * 8 + i"
  define m1 where "m1 = write_bytes m (base + i * 512) (sector_bytes d m ?l)"
  have i: "i < 8" "i \<notin> set xs" using Cons.prems(5,6) by simp_all
  then have l: "?l < length (rd_crcs d)" using Cons.prems(3,4) by linarith
  have shape: "disk_shape d" using Cons.prems(1) by (simp add: disk_ok_def)
  have len: "length (sector_bytes d m ?l) = 512" using Cons.prems(2) by simp
  have r: "read_sector d m ?l (read_bytes m (base + i * 512) 512) = Inr (sector_bytes d m ?l, Inr ())"
    using read_sector_result [OF shape l, of "read_bytes m (base + i * 512) 512" m] Cons.prems(1,2) l by (simp add: disk_ok_def)
  have out: "m1 a = m a" if "a < base \<or> base + 4096 \<le> a" for a
    unfolding m1_def using that len i(1) by (intro write_bytes_other) auto
  have sb: "sector_bytes d m1 k = sector_bytes d m k" if "k < length (rd_crcs d)" for k
  proof -
    have "k * 512 + 512 \<le> rd_byte_len d" using sector_end_le [OF shape that] Cons.prems(2) by simp
    then show ?thesis
      unfolding sector_bytes_def Cons.prems(2) using Cons.prems(7) by (intro read_bytes_cong out) linarith
  qed
  have here: "read_bytes m1 (base + i * 512) 512 = sector_bytes d m ?l"
    unfolding m1_def using read_write_bytes [of m "base + i * 512" "sector_bytes d m ?l"] len by simp
  have other: "read_bytes m1 (base + j * 512) 512 = read_bytes m (base + j * 512) 512" if "j \<noteq> i" for j
    unfolding m1_def using sectors_apart [OF that, of 512] len by (intro read_write_bytes_other) linarith
  have ok: "disk_ok d m1" using Cons.prems(1) sb by (simp add: disk_ok_def)
  from Cons.IH [OF ok Cons.prems(2-4) _ _ Cons.prems(7)] Cons.prems(5,6) obtain m' where
    ih: "swap_in_loop d m1 base slot xs = Inr m'" "disk_ok d m'" "\<forall>l<8 * n. sector_bytes d m' l = sector_bytes d m1 l"
      "\<forall>i\<in>set xs. read_bytes m' (base + i * 512) 512 = sector_bytes d m1 (slot * 8 + i)"
      "\<forall>i<8. i \<notin> set xs \<longrightarrow> read_bytes m' (base + i * 512) 512 = read_bytes m1 (base + i * 512) 512"
      "\<forall>a. a < base \<or> base + 4096 \<le> a \<longrightarrow> m' a = m1 a" by auto
  have "swap_in_loop d m base slot (i # xs) = Inr m'" using r ih(1) by (simp add: swap_sizes m1_def)
  moreover have "sector_bytes d m' k = sector_bytes d m k" if "k < 8 * n" for k using ih(3) sb that Cons.prems(3) by simp
  moreover have "read_bytes m' (base + j * 512) 512 = sector_bytes d m (slot * 8 + j)" if "j \<in> set (i # xs)" for j
  proof (cases "j = i")
    case True
    then show ?thesis using ih(5) i here by simp
  next
    case False
    then have j: "j \<in> set xs" "j < 8" using that Cons.prems(5) by simp_all
    then have "slot * 8 + j < length (rd_crcs d)" using Cons.prems(3,4) by linarith
    then show ?thesis using ih(4) j sb by simp
  qed
  moreover have "read_bytes m' (base + j * 512) 512 = read_bytes m (base + j * 512) 512" if "j < 8" "j \<notin> set (i # xs)" for j
    using ih(5) that other by simp
  moreover have "m' a = m a" if "a < base \<or> base + 4096 \<le> a" for a using ih(6) out [OF that] that by metis
  ultimately show ?case using ih(2) by (intro exI [of _ m']) blast
qed simp

lemma swap_out_page:
  assumes ok: "swap_ok (s, m)" and f: "swap_frame (s, m) f" and a: "alloc_slot s = (Some k, s1)"
  obtains s' m' where "swap_out (s, m) f = Inr (Some k, s', m')" "swap_ok (s', m')" "swap_view (s, m) k = None"
    "swap_view (s', m') = (swap_view (s, m))(k \<mapsto> frame_page (s, m) f)"
    "\<And>g. swap_frame (s, m) g \<Longrightarrow> swap_frame (s', m') g \<and> frame_page (s', m') g = frame_page (s, m) g"
    "length (sw_free s') = length (sw_free s)"
proof -
  note al = alloc_slot_Some [OF a]
  let ?d = "sw_disk s" and ?base = "PHYS_MEM_OFFSET + f"
  have d: "disk_ok ?d m" "rd_sector_size ?d = 512" "length (rd_crcs ?d) = 8 * length (sw_free s)"
    using ok by (simp_all add: swap_ok_def)
  have w: "?base + 4096 \<le> rd_base ?d \<or> rd_base ?d + rd_byte_len ?d \<le> ?base" using f by (simp add: swap_frame_def)
  have b: "add_u64 PHYS_MEM_OFFSET f = Inr ?base" using f by (simp add: swap_frame_def)
  have "\<forall>i\<in>set [0 ..< 8]. i < (8 :: nat)" by simp
  from swap_out_loop_ok [OF d al(1) this w] obtain d' m' where
    l: "swap_out_loop ?d m ?base k [0 ..< 8] = Inr (True, d', m')" "disk_ok d' m'" "rd_sector_size d' = 512"
      "length (rd_crcs d') = 8 * length (sw_free s)" "rd_base d' = rd_base ?d" "rd_byte_len d' = rd_byte_len ?d"
      "\<forall>l. sector_bytes d' m' l = (if l div 8 = k \<and> l mod 8 \<in> set [0 ..< 8] then read_bytes m (?base + l mod 8 * 512) 512 else sector_bytes ?d m l)"
      "\<forall>a. a \<notin> disk_range ?d \<longrightarrow> m' a = m a" by blast
  let ?s = "s1\<lparr>sw_disk := d'\<rparr>"
  have "swap_out (s, m) f = Inr (Some k, ?s, m')" using a b l(1) al(4) by (auto simp: swap_out_def swap_sizes)
  moreover have "swap_ok (?s, m')" using l al(3) by (simp add: swap_ok_def)
  moreover have "swap_view (s, m) k = None" using al(2) by (simp add: swap_view_def)
  moreover have "slot_page d' m' j = (if j = k then frame_page (s, m) f else slot_page ?d m j)" for j
    using l(7) by (auto simp: slot_page_def frame_page_def intro!: arg_cong [where f = concat])
  then have "swap_view (?s, m') = (swap_view (s, m))(k \<mapsto> frame_page (s, m) f)"
    using al by (auto simp: swap_view_def nth_list_update)
  moreover have "swap_frame (?s, m') g \<and> frame_page (?s, m') g = frame_page (s, m) g" if "swap_frame (s, m) g" for g
  proof
    show "swap_frame (?s, m') g" using that l(5,6) by (simp add: swap_frame_def)
    show "frame_page (?s, m') g = frame_page (s, m) g"
      unfolding frame_page_bytes snd_conv using that l(8)
      by (intro read_bytes_cong) (auto simp: swap_frame_def disk_range_def)
  qed
  moreover have "length (sw_free ?s) = length (sw_free s)" using al(3) by simp
  ultimately show thesis by (intro that [of ?s m']) auto
qed

lemma swap_in_page:
  assumes ok: "swap_ok (s, m)" and f: "swap_frame (s, m) f" and v: "swap_view (s, m) k = Some pg"
  obtains s' m' where "swap_in (s, m) k f = Inr (s', m')" "swap_ok (s', m')"
    "swap_view (s', m') = (swap_view (s, m))(k := None)" "frame_page (s', m') f = pg"
    "\<And>g. swap_frame (s, m) g \<Longrightarrow> swap_frame (s', m') g \<and> (g \<noteq> f \<longrightarrow> frame_page (s', m') g = frame_page (s, m) g)"
    "length (sw_free s') = length (sw_free s)"
proof -
  let ?d = "sw_disk s" and ?base = "PHYS_MEM_OFFSET + f"
  have k: "k < length (sw_free s)" "\<not> sw_free s ! k" "slot_page ?d m k = pg"
    using v by (auto simp: swap_view_def split: if_splits)
  have d: "disk_ok ?d m" "rd_sector_size ?d = 512" "length (rd_crcs ?d) = 8 * length (sw_free s)"
    using ok by (simp_all add: swap_ok_def)
  have w: "?base + 4096 \<le> rd_base ?d \<or> rd_base ?d + rd_byte_len ?d \<le> ?base" using f by (simp add: swap_frame_def)
  have b: "add_u64 PHYS_MEM_OFFSET f = Inr ?base" using f by (simp add: swap_frame_def)
  have "\<forall>i\<in>set [0 ..< 8]. i < (8 :: nat)" "distinct [0 ..< (8 :: nat)]" by simp_all
  from swap_in_loop_ok [OF d k(1) this w] obtain m' where
    l: "swap_in_loop ?d m ?base k [0 ..< 8] = Inr m'" "disk_ok ?d m'"
      "\<forall>l<8 * length (sw_free s). sector_bytes ?d m' l = sector_bytes ?d m l"
      "\<forall>i\<in>set [0 ..< 8]. read_bytes m' (?base + i * 512) 512 = sector_bytes ?d m (k * 8 + i)"
      "\<forall>a. a < ?base \<or> ?base + 4096 \<le> a \<longrightarrow> m' a = m a" by blast
  let ?s = "s\<lparr>sw_free := (sw_free s)[k := True]\<rparr>"
  have "swap_in (s, m) k f = Inr (?s, m')" using b l(1) k(1) by (simp add: swap_in_def swap_sizes free_slot_def)
  moreover have "swap_ok (?s, m')" using l(2) d by (simp add: swap_ok_def)
  moreover have "slot_page ?d m' j = slot_page ?d m j" if "j < length (sw_free s)" for j
    using l(3) that by (auto simp: slot_page_def intro!: arg_cong [where f = concat])
  then have "swap_view (?s, m') = (swap_view (s, m))(k := None)"
    using k by (auto simp: swap_view_def nth_list_update)
  moreover have "frame_page (?s, m') f = pg"
    using l(4) k(3) by (auto simp: slot_page_def frame_page_def intro!: arg_cong [where f = concat])
  moreover have "swap_frame (?s, m') g \<and> (g \<noteq> f \<longrightarrow> frame_page (?s, m') g = frame_page (s, m) g)" if "swap_frame (s, m) g" for g
  proof (intro conjI impI)
    show "swap_frame (?s, m') g" using that by (simp add: swap_frame_def)
    assume "g \<noteq> f"
    moreover have "4096 dvd g" "4096 dvd f" using that f by (simp_all add: swap_frame_def)
    then obtain p q where "g = 4096 * p" "f = 4096 * q" by (elim dvdE)
    ultimately have "p < q \<or> q < p" by auto
    then have "g + 4096 \<le> f \<or> f + 4096 \<le> g" using \<open>g = 4096 * p\<close> \<open>f = 4096 * q\<close> by linarith
    then show "frame_page (?s, m') g = frame_page (s, m) g"
      unfolding frame_page_bytes snd_conv by (intro read_bytes_cong l(5) [rule_format]) linarith
  qed
  ultimately show thesis by (intro that [of ?s m']) auto
qed

subsection \<open>The contract of a swap backend\<close>

datatype swap_op = OutOp nat | InOp nat nat

fun swap_run :: "('s \<Rightarrow> nat \<Rightarrow> (nat option \<times> 's) res) \<Rightarrow> ('s \<Rightarrow> nat \<Rightarrow> nat \<Rightarrow> 's res) \<Rightarrow> swap_op list \<Rightarrow> 's \<Rightarrow> 's res" where
  "swap_run out inn [] s = Inr s"
| "swap_run out inn (OutOp f # xs) s = rbind (out s f) (\<lambda>(_, s'). swap_run out inn xs s')"
| "swap_run out inn (InOp k f # xs) s = rbind (inn s k f) (swap_run out inn xs)"

text \<open>An operation is allowed if its frame is and, for reading in, its slot holds a page.\<close>

fun swap_op_ok :: "('s \<Rightarrow> nat \<rightharpoonup> u8 list) \<Rightarrow> ('s \<Rightarrow> nat \<Rightarrow> bool) \<Rightarrow> 's \<Rightarrow> swap_op \<Rightarrow> bool" where
  "swap_op_ok view frame s (OutOp f) \<longleftrightarrow> frame s f"
| "swap_op_ok view frame s (InOp k f) \<longleftrightarrow> frame s f \<and> view s k \<noteq> None"

fun swap_run_ok :: "('s \<Rightarrow> nat \<Rightarrow> (nat option \<times> 's) res) \<Rightarrow> ('s \<Rightarrow> nat \<Rightarrow> nat \<Rightarrow> 's res) \<Rightarrow> ('s \<Rightarrow> nat \<rightharpoonup> u8 list) \<Rightarrow>
    ('s \<Rightarrow> nat \<Rightarrow> bool) \<Rightarrow> swap_op list \<Rightarrow> 's \<Rightarrow> bool" where
  "swap_run_ok out inn view frame [] s = True"
| "swap_run_ok out inn view frame (x # xs) s \<longleftrightarrow> swap_op_ok view frame s x \<and>
     (case swap_run out inn [x] s of Inl _ \<Rightarrow> True | Inr s' \<Rightarrow> swap_run_ok out inn view frame xs s')"

lemma rbind_assoc: "rbind (rbind m f) g = rbind m (\<lambda>x. rbind (f x) g)"
  by (cases m) simp_all

locale swap_backend =
  fixes out :: "'s \<Rightarrow> nat \<Rightarrow> (nat option \<times> 's) res"
    and inn :: "'s \<Rightarrow> nat \<Rightarrow> nat \<Rightarrow> 's res"
    and ok :: "'s \<Rightarrow> bool"
    and view :: "'s \<Rightarrow> nat \<rightharpoonup> u8 list"
    and page :: "'s \<Rightarrow> nat \<Rightarrow> u8 list"
    and frame :: "'s \<Rightarrow> nat \<Rightarrow> bool"
    and slots :: "'s \<Rightarrow> nat"
  assumes out_law: "ok s \<Longrightarrow> frame s f \<Longrightarrow> (\<exists>s'. out s f = Inr (None, s') \<and> s' = s \<and> dom (view s) = {..<slots s}) \<or>
      (\<exists>k s'. out s f = Inr (Some k, s') \<and> view s k = None \<and> k < slots s \<and> ok s' \<and> slots s' = slots s \<and>
         view s' = (view s)(k \<mapsto> page s f) \<and> (\<forall>g. frame s g \<longrightarrow> frame s' g \<and> page s' g = page s g))"
    and in_law: "ok s \<Longrightarrow> frame s f \<Longrightarrow> view s k = Some pg \<Longrightarrow>
      \<exists>s'. inn s k f = Inr s' \<and> ok s' \<and> slots s' = slots s \<and> view s' = (view s)(k := None) \<and> page s' f = pg \<and>
         (\<forall>g. frame s g \<longrightarrow> frame s' g \<and> (g \<noteq> f \<longrightarrow> page s' g = page s g))"
begin

lemma step_keeps_slot:
  assumes "ok s" "swap_op_ok view frame s x" "view s k = Some pg" "\<And>f. x \<noteq> InOp k f"
  shows "\<exists>s'. swap_run out inn [x] s = Inr s' \<and> ok s' \<and> view s' k = Some pg \<and> (\<forall>g. frame s g \<longrightarrow> frame s' g)"
proof (cases x)
  case (OutOp f)
  with assms(2) have "frame s f" by simp
  from out_law [OF assms(1) this] show ?thesis using OutOp assms(1,3) by fastforce
next
  case (InOp j f)
  with assms(2) obtain qg where "frame s f" "view s j = Some qg" by auto
  from in_law [OF assms(1) this] show ?thesis using InOp assms(3,4) by fastforce
qed

lemma run_keeps_slot:
  assumes "ok s" "swap_run_ok out inn view frame xs s" "view s k = Some pg" "\<And>f. InOp k f \<notin> set xs" "frame s g"
  shows "\<exists>s'. swap_run out inn xs s = Inr s' \<and> ok s' \<and> view s' k = Some pg \<and> frame s' g"
  using assms
proof (induction xs arbitrary: s)
  case (Cons x xs)
  obtain s1 where s1: "swap_run out inn [x] s = Inr s1" "ok s1" "view s1 k = Some pg" "frame s1 g"
    using step_keeps_slot [of s x k pg] Cons.prems by auto
  have "swap_run_ok out inn view frame xs s1" using Cons.prems(2) s1(1) by simp
  then obtain s' where "swap_run out inn xs s1 = Inr s'" "ok s'" "view s' k = Some pg" "frame s' g"
    using Cons.IH [of s1] s1 Cons.prems(4) by auto
  moreover have "swap_run out inn (x # xs) s = rbind (swap_run out inn [x] s) (swap_run out inn xs)"
    by (cases x) (simp_all add: case_prod_unfold rbind_assoc)
  ultimately show ?case using s1(1) by simp
qed simp

lemma out_in_restores:
  assumes "ok s" "frame s f" "frame s g" "out s f = Inr (Some k, s1)" "swap_run_ok out inn view frame xs s1"
    "\<And>f. InOp k f \<notin> set xs"
  shows "\<exists>s2 s3. swap_run out inn xs s1 = Inr s2 \<and> inn s2 k g = Inr s3 \<and> page s3 g = page s f"
proof -
  have s1: "ok s1" "view s1 k = Some (page s f)" "frame s1 g"
    using out_law [OF assms(1,2)] assms(3,4) by auto
  from run_keeps_slot [OF s1(1) assms(5) s1(2) assms(6) s1(3)] obtain s2 where
    "swap_run out inn xs s1 = Inr s2" "ok s2" "view s2 k = Some (page s f)" "frame s2 g" by blast
  with in_law [of s2 g k] show ?thesis by blast
qed

end

interpretation swp: swap_backend swap_out swap_in swap_ok swap_view frame_page swap_frame "\<lambda>s. length (sw_free (fst s))"
proof unfold_locales
  fix sm :: "swap_partition \<times> memory" and f
  obtain s m where sm: "sm = (s, m)" by (cases sm)
  assume ok: "swap_ok sm" and f: "swap_frame sm f"
  show "(\<exists>s'. swap_out sm f = Inr (None, s') \<and> s' = sm \<and> dom (swap_view sm) = {..<length (sw_free (fst sm))}) \<or>
      (\<exists>k s'. swap_out sm f = Inr (Some k, s') \<and> swap_view sm k = None \<and> k < length (sw_free (fst sm)) \<and> swap_ok s' \<and>
         length (sw_free (fst s')) = length (sw_free (fst sm)) \<and> swap_view s' = (swap_view sm)(k \<mapsto> frame_page sm f) \<and>
         (\<forall>g. swap_frame sm g \<longrightarrow> swap_frame s' g \<and> frame_page s' g = frame_page sm g))"
  proof (cases "alloc_slot s")
    case (Pair r s1)
    show ?thesis
    proof (cases r)
      case None
      then have "\<not> sw_free s ! k" if "k < length (sw_free s)" for k using alloc_slot_None [of s s1 k] Pair that by simp
      moreover have "s1 = s" using Pair None by (auto simp: alloc_slot_def Let_def split: option.splits)
      ultimately have "swap_out sm f = Inr (None, sm) \<and> dom (swap_view sm) = {..<length (sw_free s)}"
        using Pair None by (auto simp: swap_out_def sm swap_view_def split: if_splits)
      then show ?thesis by (simp add: sm)
    next
      case (Some k)
      obtain s' m' where "swap_out (s, m) f = Inr (Some k, s', m')" "swap_ok (s', m')" "swap_view (s, m) k = None"
        "swap_view (s', m') = (swap_view (s, m))(k \<mapsto> frame_page (s, m) f)"
        "\<And>g. swap_frame (s, m) g \<Longrightarrow> swap_frame (s', m') g \<and> frame_page (s', m') g = frame_page (s, m) g"
        "length (sw_free s') = length (sw_free s)"
        using swap_out_page [of s m f k s1] ok f Pair Some unfolding sm by metis
      moreover have "k < length (sw_free s)" using alloc_slot_Some(1) Pair Some by metis
      ultimately show ?thesis unfolding sm by (intro disjI2 exI [of _ k] exI [of _ "(s', m')"]) simp
    qed
  qed
next
  fix sm :: "swap_partition \<times> memory" and f k pg
  obtain s m where sm: "sm = (s, m)" by (cases sm)
  assume "swap_ok sm" "swap_frame sm f" "swap_view sm k = Some pg"
  then obtain s' m' where "swap_in (s, m) k f = Inr (s', m')" "swap_ok (s', m')"
    "swap_view (s', m') = (swap_view (s, m))(k := None)" "frame_page (s', m') f = pg"
    "\<And>g. swap_frame (s, m) g \<Longrightarrow> swap_frame (s', m') g \<and> (g \<noteq> f \<longrightarrow> frame_page (s', m') g = frame_page (s, m) g)"
    "length (sw_free s') = length (sw_free s)"
    using swap_in_page [of s m f k pg] unfolding sm by metis
  then show "\<exists>s'. swap_in sm k f = Inr s' \<and> swap_ok s' \<and> length (sw_free (fst s')) = length (sw_free (fst sm)) \<and>
      swap_view s' = (swap_view sm)(k := None) \<and> frame_page s' f = pg \<and>
      (\<forall>g. swap_frame sm g \<longrightarrow> swap_frame s' g \<and> (g \<noteq> f \<longrightarrow> frame_page s' g = frame_page sm g))"
    unfolding sm by (intro exI [of _ "(s', m')"]) simp
qed

text \<open>
  A page survives swapping: written out to a slot and read back into any frame after any number of
  other swap operations that do not read that slot, it has the same 4096 bytes. None of these operations
  fails.
\<close>

theorem swap_round_trip:
  assumes "swap_ok sm" "swap_frame sm f" "swap_frame sm g" "swap_out sm f = Inr (Some k, sm1)"
    and "swap_run_ok swap_out swap_in swap_view swap_frame xs sm1" "\<forall>h. InOp k h \<notin> set xs"
  shows "\<exists>sm2 s3 m3. swap_run swap_out swap_in xs sm1 = Inr sm2 \<and> swap_in sm2 k g = Inr (s3, m3) \<and>
     read_bytes m3 (PHYS_MEM_OFFSET + g) 4096 = read_bytes (snd sm) (PHYS_MEM_OFFSET + f) 4096"
  using swp.out_in_restores [OF assms(1-5)] assms(6) unfolding frame_page_bytes by fastforce

definition example_swap :: "swap_partition \<times> memory" where
  "example_swap = (\<lparr>sw_disk = \<lparr>rd_base = 8192, rd_byte_len = 8192, rd_sector_size = 512, rd_cursor = 0,
     rd_crcs = replicate 16 (crc32 (replicate 512 0)), rd_frames = []\<rparr>, sw_free = [True, True], sw_cursor = 0\<rparr>, \<lambda>_. 0)"

lemma example_swap_ok: "swap_ok example_swap" "swap_frame example_swap 0x1000" "swap_frame example_swap 0x2000"
  by (simp_all add: example_swap_def swap_ok_def disk_ok_def disk_shape_def sector_bytes_def read_bytes_def map_replicate_const
      swap_frame_def PHYS_MEM_OFFSET_def U64_LIMIT_def)

theorem swap_round_trip_witness:
  "\<exists>k sm1 s3 m3. swap_out example_swap 0x1000 = Inr (Some k, sm1) \<and> swap_in sm1 k 0x2000 = Inr (s3, m3) \<and>
     read_bytes m3 (PHYS_MEM_OFFSET + 0x2000) 4096 = read_bytes (snd example_swap) (PHYS_MEM_OFFSET + 0x1000) 4096"
proof -
  have a: "alloc_slot (fst example_swap) = (Some 0, (fst example_swap)\<lparr>sw_free := [False, True], sw_cursor := 1\<rparr>)"
    by (simp add: example_swap_def alloc_slot_def upt_rec)
  obtain sm1 where o: "swap_out example_swap 0x1000 = Inr (Some 0, sm1)"
    by (rule swap_out_page [OF _ _ a, of "snd example_swap" "0x1000"]) (simp_all add: example_swap_ok)
  have "swap_run_ok swap_out swap_in swap_view swap_frame [] sm1" "\<forall>h. InOp 0 h \<notin> set []" by simp_all
  from swap_round_trip [OF example_swap_ok o this] show ?thesis using o by auto
qed

end
