(* ===== verification/Vmm.thy ===== *)
theory Vmm
  imports Swap
begin

text \<open>
  Address spaces (\<^verbatim>\<open>memory/vmm.rs\<close>) and the eviction of pages (\<^verbatim>\<open>evict_addr\<close> of \<^verbatim>\<open>memory/swap.rs\<close>). A
  page table is the parameter of \<^theory_text>\<open>Paging\<close>; frames are reached through the physical-memory window
  at \<open>PHYS_MEM_OFFSET\<close>. Loops that step by a page over an area run over \<open>page_steps\<close>; areas lie in the
  canonical range, so the stepping itself does not fail.
\<close>

datatype vm_area_kind = Anonymous

record vm_area =
  va_start :: nat
  va_end :: nat
  va_flags :: pflags
  va_kind :: vm_area_kind

record vmm =
  vm_areas :: "vm_area list"
  vm_swapped :: "nat \<rightharpoonup> nat \<times> pflags"

record 'pt space =
  sp_pt :: 'pt
  sp_fl :: free_list
  sp_mem :: memory
  sp_swap :: swap_partition

text \<open>The machine state the operations work on: the page table in use, the frame pool, memory and swap.\<close>

definition vmm_new :: vmm where
  "vmm_new = \<lparr>vm_areas = [], vm_swapped = Map.empty\<rparr>"

definition add_area :: "vmm \<Rightarrow> vm_area \<Rightarrow> vmm" where
  "add_area v area = v\<lparr>vm_areas := vm_areas v @ [area]\<rparr>"

definition record_swapped :: "vmm \<Rightarrow> nat \<Rightarrow> nat \<Rightarrow> pflags \<Rightarrow> vmm" where
  "record_swapped v page_vaddr slot flags = v\<lparr>vm_swapped := (vm_swapped v)(page_vaddr \<mapsto> (slot, flags))\<rparr>"

definition find_area :: "vmm \<Rightarrow> nat \<Rightarrow> vm_area option" where
  "find_area v a = find (\<lambda>area. va_start area \<le> a \<and> a < va_end area) (vm_areas v)"

text \<open>Taking a frame and mapping it; \<open>prep\<close> fills the frame before it is mapped.\<close>

definition frame_alloc :: "phys_ops \<Rightarrow> 'pt space \<Rightarrow> (nat option \<times> 'pt space) res" where
  "frame_alloc x sp =
     rbind (fl_allocate x (sp_fl sp, sp_mem sp)) (\<lambda>(r, fl, m). Inr (r, sp\<lparr>sp_fl := fl, sp_mem := m\<rparr>))"

definition frame_dealloc :: "'pt space \<Rightarrow> nat \<Rightarrow> 'pt space res" where
  "frame_dealloc sp frame =
     rbind (fl_deallocate (sp_fl sp, sp_mem sp) frame) (\<lambda>(fl, m). Inr (sp\<lparr>sp_fl := fl, sp_mem := m\<rparr>))"

definition space_map :: "('pt, free_list \<times> memory) pt_ops \<Rightarrow> 'pt space \<Rightarrow> nat \<Rightarrow> nat \<Rightarrow> pflags \<Rightarrow> 'pt space res" where
  "space_map P sp page frame flags =
     rbind (map_page P (sp_pt sp) page frame flags (sp_fl sp, sp_mem sp)) (\<lambda>(pt, fl, m).
     Inr (sp\<lparr>sp_pt := pt, sp_fl := fl, sp_mem := m\<rparr>))"

definition space_unmap :: "('pt, free_list \<times> memory) pt_ops \<Rightarrow> 'pt space \<Rightarrow> nat \<Rightarrow> (nat \<times> 'pt space) res" where
  "space_unmap P sp page = rbind (unmap_page P (sp_pt sp) page) (\<lambda>(f, pt). Inr (f, sp\<lparr>sp_pt := pt\<rparr>))"

definition space_swap_in :: "'pt space \<Rightarrow> nat \<Rightarrow> nat \<Rightarrow> 'pt space res" where
  "space_swap_in sp slot frame =
     rbind (swap_in (sp_swap sp, sp_mem sp) slot frame) (\<lambda>(sw, m). Inr (sp\<lparr>sp_swap := sw, sp_mem := m\<rparr>))"

text \<open>The page fault. The option is the \<^verbatim>\<open>Result<(), ()>\<close> of the code.\<close>

definition handle_fault :: "phys_ops \<Rightarrow> ('pt, free_list \<times> memory) pt_ops \<Rightarrow> vmm \<Rightarrow> 'pt space \<Rightarrow> nat \<Rightarrow> bool \<Rightarrow>
    (unit option \<times> vmm \<times> 'pt space) res" where
  "handle_fault x P v sp fault_addr is_write =
     (let page = page_of P fault_addr
      in case vm_swapped v page of
           Some (slot, flags) \<Rightarrow>
             (let v1 = v\<lparr>vm_swapped := (vm_swapped v)(page := None)\<rparr>
              in rbind (frame_alloc x sp) (\<lambda>(r, sp1).
                 case r of
                   None \<Rightarrow> Inr (None, v1, sp1)
                 | Some new_frame \<Rightarrow>
                     rbind (space_swap_in sp1 slot new_frame) (\<lambda>sp2.
                     rbind (space_map P sp2 page new_frame flags) (\<lambda>sp3.
                     Inr (Some (), v1, sp3)))))
         | None \<Rightarrow>
             (case find_area v fault_addr of
                None \<Rightarrow> Inr (None, v, sp)
              | Some area \<Rightarrow>
                  (case translate_addr P (sp_pt sp) fault_addr of
                     Some phys \<Rightarrow>
                       if \<not> is_write \<or> WRITABLE \<notin> va_flags area then Inr (None, v, sp)
                       else rbind (frame_alloc x sp) (\<lambda>(r, sp1).
                            case r of
                              None \<Rightarrow> Inr (None, v, sp1)
                            | Some new_frame \<Rightarrow>
                                rbind (add_u64 PHYS_MEM_OFFSET phys) (\<lambda>src.
                                rbind (add_u64 PHYS_MEM_OFFSET new_frame) (\<lambda>dst.
                                let sp2 = sp1\<lparr>sp_mem := write_bytes (sp_mem sp1) dst (read_bytes (sp_mem sp1) src 4096)\<rparr>
                                in rbind (space_unmap P sp2 page) (\<lambda>(_, sp3).
                                   rbind (space_map P sp3 page new_frame (va_flags area)) (\<lambda>sp4.
                                   Inr (Some (), v, sp4))))))
                   | None \<Rightarrow>
                       rbind (frame_alloc x sp) (\<lambda>(r, sp1).
                       case r of
                         None \<Rightarrow> Inr (None, v, sp1)
                       | Some new_frame \<Rightarrow>
                           rbind (add_u64 PHYS_MEM_OFFSET new_frame) (\<lambda>dst.
                           let sp2 = sp1\<lparr>sp_mem := write_bytes (sp_mem sp1) dst (replicate 4096 0)\<rparr>
                           in rbind (space_map P sp2 page new_frame (va_flags area)) (\<lambda>sp3.
                              Inr (Some (), v, sp3)))))))"

subsection \<open>The heap area and protection\<close>

fun update_first :: "('a \<Rightarrow> bool) \<Rightarrow> ('a \<Rightarrow> 'a) \<Rightarrow> 'a list \<Rightarrow> 'a list option" where
  "update_first Q f [] = None"
| "update_first Q f (y # ys) = (if Q y then Some (f y # ys) else map_option ((#) y) (update_first Q f ys))"

definition set_heap_end :: "vmm \<Rightarrow> nat \<Rightarrow> nat \<Rightarrow> pflags \<Rightarrow> vmm" where
  "set_heap_end v heap_start new_end flags =
     (case update_first (\<lambda>a. va_start a = heap_start) (\<lambda>a. a\<lparr>va_end := new_end\<rparr>) (vm_areas v) of
        Some areas \<Rightarrow> v\<lparr>vm_areas := areas\<rparr>
      | None \<Rightarrow> if new_end > heap_start
                then add_area v \<lparr>va_start = heap_start, va_end = new_end, va_flags = flags, va_kind = Anonymous\<rparr>
                else v)"

definition page_steps :: "nat \<Rightarrow> nat \<Rightarrow> nat list" where
  "page_steps a b = map (\<lambda>k. a + 4096 * k) [0 ..< (b - a + 4095) div 4096]"

fun shrink_loop :: "('pt, free_list \<times> memory) pt_ops \<Rightarrow> nat list \<Rightarrow> 'pt space \<Rightarrow> 'pt space res" where
  "shrink_loop P [] sp = Inr sp"
| "shrink_loop P (addr # rest) sp =
     (if translate_addr P (sp_pt sp) addr \<noteq> None
      then rbind (space_unmap P sp (page_of P addr)) (\<lambda>(frame, sp1).
           rbind (frame_dealloc sp1 frame) (shrink_loop P rest))
      else shrink_loop P rest sp)"

definition shrink_heap :: "('pt, free_list \<times> memory) pt_ops \<Rightarrow> vmm \<Rightarrow> 'pt space \<Rightarrow> nat \<Rightarrow> nat \<Rightarrow> nat \<Rightarrow> pflags \<Rightarrow>
    (vmm \<times> 'pt space) res" where
  "shrink_heap P v sp heap_start new_end old_end flags =
     rbind (shrink_loop P (page_steps new_end old_end) sp) (\<lambda>sp1.
     Inr (set_heap_end v heap_start new_end flags, sp1))"

fun remap_loop :: "('pt, 'fa) pt_ops \<Rightarrow> pflags \<Rightarrow> nat list \<Rightarrow> 'pt \<Rightarrow> 'pt res" where
  "remap_loop P flags [] pt = Inr pt"
| "remap_loop P flags (addr # rest) pt =
     (if translate_addr P pt addr \<noteq> None
      then rbind (remap_flags P pt (page_of P addr) flags) (remap_loop P flags rest)
      else remap_loop P flags rest pt)"

fun split_area :: "vm_area \<Rightarrow> nat \<Rightarrow> nat \<Rightarrow> pflags \<Rightarrow> vm_area list" where
  "split_area area addr end_addr new_flags =
     (if addr > va_start area then [area\<lparr>va_end := addr\<rparr>] else []) @
     [\<lparr>va_start = addr, va_end = end_addr, va_flags = new_flags, va_kind = va_kind area\<rparr>] @
     (if end_addr < va_end area then [area\<lparr>va_start := end_addr\<rparr>] else [])"

fun position :: "('a \<Rightarrow> bool) \<Rightarrow> 'a list \<Rightarrow> nat option" where
  "position Q [] = None"
| "position Q (y # ys) = (if Q y then Some 0 else map_option Suc (position Q ys))"

definition mprotect :: "('pt, 'fa) pt_ops \<Rightarrow> vmm \<Rightarrow> 'pt \<Rightarrow> nat \<Rightarrow> nat \<Rightarrow> pflags \<Rightarrow> (unit option \<times> vmm \<times> 'pt) res" where
  "mprotect P v pt addr len new_flags =
     rbind (add_u64 addr len) (\<lambda>end_addr.
     case position (\<lambda>a. va_start a \<le> addr \<and> addr < va_end a) (vm_areas v) of
       None \<Rightarrow> Inr (None, v, pt)
     | Some idx \<Rightarrow>
         (let area = vm_areas v ! idx
          in if end_addr > va_end area then Inr (None, v, pt)
             else let areas = take idx (vm_areas v) @ split_area area addr end_addr new_flags @ drop (idx + 1) (vm_areas v)
                  in rbind (remap_loop P new_flags (page_steps addr end_addr) pt) (\<lambda>pt'.
                     Inr (Some (), v\<lparr>vm_areas := areas\<rparr>, pt'))))"

subsection \<open>Forking\<close>

text \<open>The table of the space is the child's; the parent's is separate.\<close>

fun eager_loop :: "phys_ops \<Rightarrow> ('pt, free_list \<times> memory) pt_ops \<Rightarrow> pflags \<Rightarrow> 'pt \<Rightarrow> nat list \<Rightarrow> 'pt space \<Rightarrow>
    (unit option \<times> 'pt space) res" where
  "eager_loop x P flags parent [] sp = Inr (Some (), sp)"
| "eager_loop x P flags parent (addr # rest) sp =
     (case translate_addr P parent addr of
        None \<Rightarrow> eager_loop x P flags parent rest sp
      | Some phys \<Rightarrow>
          rbind (frame_alloc x sp) (\<lambda>(r, sp1).
          case r of
            None \<Rightarrow> Inr (None, sp1)
          | Some new_frame \<Rightarrow>
              rbind (add_u64 PHYS_MEM_OFFSET phys) (\<lambda>src.
              rbind (add_u64 PHYS_MEM_OFFSET new_frame) (\<lambda>dst.
              let sp2 = sp1\<lparr>sp_mem := write_bytes (sp_mem sp1) dst (read_bytes (sp_mem sp1) src 4096)\<rparr>
              in rbind (space_map P sp2 (page_of P addr) new_frame flags) (eager_loop x P flags parent rest)))))"

fun eager_areas :: "phys_ops \<Rightarrow> ('pt, free_list \<times> memory) pt_ops \<Rightarrow> 'pt \<Rightarrow> vm_area list \<Rightarrow> vmm \<Rightarrow> 'pt space \<Rightarrow>
    (vmm option \<times> 'pt space) res" where
  "eager_areas x P parent [] child sp = Inr (Some child, sp)"
| "eager_areas x P parent (area # rest) child sp =
     rbind (eager_loop x P (va_flags area) parent (page_steps (va_start area) (va_end area)) sp) (\<lambda>(r, sp1).
     case r of
       None \<Rightarrow> Inr (None, sp1)
     | Some _ \<Rightarrow> eager_areas x P parent rest (add_area child (area\<lparr>va_kind := Anonymous\<rparr>)) sp1)"

definition fork_eager :: "phys_ops \<Rightarrow> ('pt, free_list \<times> memory) pt_ops \<Rightarrow> vmm \<Rightarrow> 'pt \<Rightarrow> 'pt space \<Rightarrow>
    (vmm option \<times> 'pt space) res" where
  "fork_eager x P v parent sp = eager_areas x P parent (vm_areas v) vmm_new sp"

fun cow_loop :: "phys_ops \<Rightarrow> ('pt, free_list \<times> memory) pt_ops \<Rightarrow> pflags \<Rightarrow> nat list \<Rightarrow> 'pt \<Rightarrow> 'pt space \<Rightarrow> ('pt \<times> 'pt space) res" where
  "cow_loop x P ro [] parent sp = Inr (parent, sp)"
| "cow_loop x P ro (addr # rest) parent sp =
     (case translate_addr P parent addr of
        None \<Rightarrow> cow_loop x P ro rest parent sp
      | Some phys \<Rightarrow>
          (let page = page_of P addr; frame = containing_address x phys
           in rbind (remap_flags P parent page ro) (\<lambda>parent1.
              rbind (space_map P sp page frame ro) (\<lambda>sp1.
              cow_loop x P ro rest parent1 sp1))))"

fun cow_areas :: "phys_ops \<Rightarrow> ('pt, free_list \<times> memory) pt_ops \<Rightarrow> vm_area list \<Rightarrow> vmm \<Rightarrow> 'pt \<Rightarrow> 'pt space \<Rightarrow>
    (vmm \<times> 'pt \<times> 'pt space) res" where
  "cow_areas x P [] child parent sp = Inr (child, parent, sp)"
| "cow_areas x P (area # rest) child parent sp =
     rbind (cow_loop x P (va_flags area - {WRITABLE}) (page_steps (va_start area) (va_end area)) parent sp) (\<lambda>(parent1, sp1).
     cow_areas x P rest (add_area child area) parent1 sp1)"

definition fork_cow :: "phys_ops \<Rightarrow> ('pt, free_list \<times> memory) pt_ops \<Rightarrow> vmm \<Rightarrow> 'pt \<Rightarrow> 'pt space \<Rightarrow> (vmm \<times> 'pt \<times> 'pt space) res" where
  "fork_cow x P v parent sp = cow_areas x P (vm_areas v) vmm_new parent sp"

subsection \<open>Eviction\<close>

definition evict_addr :: "phys_ops \<Rightarrow> ('pt, free_list \<times> memory) pt_ops \<Rightarrow> vmm \<Rightarrow> 'pt space \<Rightarrow> nat \<Rightarrow>
    (bool \<times> vmm \<times> 'pt space) res" where
  "evict_addr x P v sp vaddr =
     (case (translate_addr P (sp_pt sp) vaddr, page_flags P (sp_pt sp) vaddr) of
        (Some phys, Some f) \<Rightarrow>
          (let flags = f - {ACCESSED, DIRTY}; frame = containing_address x phys
           in rbind (swap_out (sp_swap sp, sp_mem sp) frame) (\<lambda>(r, sw, m).
              let sp1 = sp\<lparr>sp_swap := sw, sp_mem := m\<rparr>
              in case r of
                   None \<Rightarrow> Inr (False, v, sp1)
                 | Some slot \<Rightarrow>
                     (let v1 = record_swapped v (vaddr - vaddr mod PAGE_SIZE) slot flags
                      in rbind (space_unmap P sp1 (page_of P vaddr)) (\<lambda>(freed, sp2).
                         rbind (frame_dealloc sp2 freed) (\<lambda>sp3. Inr (True, v1, sp3))))))
      | _ \<Rightarrow> Inr (False, v, sp))"

end
