(* ===== verification/VmmFault.thy ===== *)
theory VmmFault
  imports Vmm
begin

text \<open>
  What page faults do: demand paging delivers a zeroed frame, an evicted page comes back with its
  contents, and copy-on-write copies. The page-table hypotheses are \<open>pt_laws\<close> of \<^theory_text>\<open>Paging\<close> and
  \<open>pt_frame_laws\<close>: creating a mapping touches no memory but the frames it takes for page tables.
\<close>

definition outside :: "nat \<Rightarrow> nat \<Rightarrow> bool" where
  "outside a f \<longleftrightarrow> a < PHYS_MEM_OFFSET + f \<or> PHYS_MEM_OFFSET + f + 4096 \<le> a"

definition pt_frame_laws :: "phys_ops \<Rightarrow> ('pt, free_list \<times> memory) pt_ops \<Rightarrow> bool" where
  "pt_frame_laws x P \<longleftrightarrow> (\<forall>pt p f fl s m pt' s' m' fs.
     fl_rep_at x PHYS_MEM_OFFSET (s, m) fs \<longrightarrow> map_to P pt p f fl (s, m) = Some (pt', s', m') \<longrightarrow>
     (\<exists>n\<le>3. fl_rep_at x PHYS_MEM_OFFSET (s', m') (drop n fs) \<and>
        (\<forall>a. (\<forall>g\<in>set (take n fs). outside a g) \<longrightarrow> m' a = m a)))"

lemma pt_frame_lawsD:
  assumes "pt_frame_laws x P" "fl_rep_at x PHYS_MEM_OFFSET (s, m) fs" "map_to P pt p f fl (s, m) = Some (pt', s', m')"
  shows "\<exists>n\<le>3. fl_rep_at x PHYS_MEM_OFFSET (s', m') (drop n fs) \<and> (\<forall>a. (\<forall>g\<in>set (take n fs). outside a g) \<longrightarrow> m' a = m a)"
  using assms unfolding pt_frame_laws_def by meson

text \<open>
  The state between two operations: the free frames are \<open>fs\<close>, the swap partition is sound, and its disk
  does not overlap the window of any frame in use as a page or free.
\<close>

definition space_ok :: "phys_ops \<Rightarrow> 'pt space \<Rightarrow> nat list \<Rightarrow> bool" where
  "space_ok x sp fs \<longleftrightarrow> fl_rep_at x PHYS_MEM_OFFSET (sp_fl sp, sp_mem sp) fs \<and> swap_ok (sp_swap sp, sp_mem sp) \<and>
     (\<forall>f\<in>set fs. swap_frame (sp_swap sp, sp_mem sp) f)"

lemma space_okD:
  assumes "space_ok x sp fs"
  shows "fl_rep_at x PHYS_MEM_OFFSET (sp_fl sp, sp_mem sp) fs" "swap_ok (sp_swap sp, sp_mem sp)"
    "f \<in> set fs \<Longrightarrow> swap_frame (sp_swap sp, sp_mem sp) f" "distinct fs" "f \<in> set fs \<Longrightarrow> frame_ok PHYS_MEM_OFFSET f"
  using assms by (auto simp: space_ok_def fl_rep_at_def fl_rep_def)

lemma swap_frame_mem: "swap_frame (sw, m') f = swap_frame (sw, m) f"
  by (simp add: swap_frame_def)

lemma swap_ok_mem:
  assumes "swap_ok (sw, m)" "\<And>a. a \<in> disk_range (sw_disk sw) \<Longrightarrow> m' a = m a"
  shows "swap_ok (sw, m')" "k < length (sw_free sw) \<Longrightarrow> slot_page (sw_disk sw) m' k = slot_page (sw_disk sw) m k"
proof -
  let ?d = "sw_disk sw"
  have d: "disk_shape ?d" "rd_sector_size ?d = 512" "length (rd_crcs ?d) = 8 * length (sw_free sw)"
    using assms(1) by (simp_all add: swap_ok_def disk_ok_def)
  have sb: "sector_bytes ?d m' l = sector_bytes ?d m l" if "l < length (rd_crcs ?d)" for l
    unfolding sector_bytes_def using assms(2) sector_end_le [OF d(1) that]
    by (intro read_bytes_cong) (auto simp: disk_range_def)
  then show "swap_ok (sw, m')" using assms(1) by (simp add: swap_ok_def disk_ok_def)
  show "slot_page ?d m' k = slot_page ?d m k" if "k < length (sw_free sw)"
    unfolding slot_page_def using sb d(3) that by (intro arg_cong [where f = concat]) simp
qed

lemma swap_view_mem:
  assumes "swap_ok (sw, m)" "\<And>a. a \<in> disk_range (sw_disk sw) \<Longrightarrow> m' a = m a"
  shows "swap_view (sw, m') = swap_view (sw, m)"
  using swap_ok_mem(2) [OF assms] by (intro ext) (simp add: swap_view_def)

lemma swap_frame_outside: "swap_frame (sw, m) f \<Longrightarrow> a \<in> disk_range (sw_disk sw) \<Longrightarrow> outside a f"
  by (auto simp: swap_frame_def disk_range_def outside_def)

lemma frames_outside:
  assumes "frame_ok PHYS_MEM_OFFSET f" "frame_ok PHYS_MEM_OFFSET g" "f \<noteq> g"
    "PHYS_MEM_OFFSET + f \<le> a" "a < PHYS_MEM_OFFSET + f + 4096"
  shows "outside a g"
  using frames_apart [OF assms(1-3)] assms(4,5) by (auto simp: outside_def)

lemma alloc_ok:
  assumes "space_ok x sp (f # fs)"
  obtains sp1 where "frame_alloc x sp = Inr (Some f, sp1)" "space_ok x sp1 fs" "sp_mem sp1 = sp_mem sp"
    "sp_pt sp1 = sp_pt sp" "sp_swap sp1 = sp_swap sp"
proof -
  obtain sm' where sm': "fl_allocate x (sp_fl sp, sp_mem sp) = Inr (Some f, sm')" "fl_rep x sm' fs"
    "fl_offset (fst sm') = PHYS_MEM_OFFSET" "snd sm' = sp_mem sp"
    using fl_allocate_Cons [of x "(sp_fl sp, sp_mem sp)" f fs] space_okD(1) [OF assms] by (auto simp: fl_rep_at_def)
  let ?sp = "sp\<lparr>sp_fl := fst sm', sp_mem := snd sm'\<rparr>"
  have "frame_alloc x sp = Inr (Some f, ?sp)" using sm'(1) by (cases sm') (simp add: frame_alloc_def)
  moreover have "space_ok x ?sp fs"
    using assms sm' by (cases sm') (simp add: space_ok_def fl_rep_at_def)
  ultimately show thesis using sm'(4) by (intro that [of ?sp]) simp_all
qed

text \<open>Changing the bytes of a frame that is not free.\<close>

lemma fill_ok:
  assumes "space_ok x sp fs" "frame_ok PHYS_MEM_OFFSET f" "f \<notin> set fs" "swap_frame (sp_swap sp, sp_mem sp) f"
    and "\<And>a. outside a f \<Longrightarrow> m' a = sp_mem sp a"
  shows "space_ok x (sp\<lparr>sp_mem := m'\<rparr>) fs"
proof -
  have "fl_rep_at x PHYS_MEM_OFFSET (sp_fl sp, m') fs"
  proof (rule fl_rep_at_memory [OF space_okD(1) [OF assms(1)]])
    fix g a assume g: "g \<in> set fs" "PHYS_MEM_OFFSET + g \<le> a" "a < PHYS_MEM_OFFSET + g + 4096"
    then have "g \<noteq> f" using assms(3) by auto
    then show "m' a = sp_mem sp a"
      using frames_outside [OF space_okD(5) [OF assms(1) g(1)] assms(2) _ g(2,3)] by (intro assms(5))
  qed
  moreover have "swap_ok (sp_swap sp, m')"
    using space_okD(2) [OF assms(1)] by (rule swap_ok_mem) (intro assms(5) swap_frame_outside [OF assms(4)])
  ultimately show ?thesis
    using space_okD(3) [OF assms(1)] by (simp add: space_ok_def swap_frame_mem [of "sp_swap sp" m' _ "sp_mem sp"])
qed

lemma space_map_ok:
  assumes laws: "pt_laws P view (fl_rep_at x PHYS_MEM_OFFSET)" "pt_frame_laws x P"
    and ok: "space_ok x sp fs" and len: "3 \<le> length fs" and free: "view (sp_pt sp) page = None"
  obtains sp' n where "space_map P sp page frame flags = Inr sp'" "view (sp_pt sp') = (view (sp_pt sp))(page \<mapsto> (frame, flags))"
    "n \<le> 3" "space_ok x sp' (drop n fs)" "sp_swap sp' = sp_swap sp"
    "\<And>a. (\<And>g. g \<in> set (take n fs) \<Longrightarrow> outside a g) \<Longrightarrow> sp_mem sp' a = sp_mem sp a"
proof -
  let ?rep = "fl_rep_at x PHYS_MEM_OFFSET"
  obtain pt' s' m' where m: "map_page P (sp_pt sp) page frame flags (sp_fl sp, sp_mem sp) = Inr (pt', s', m')"
    using pt_laws_map_ok [OF laws(1) space_okD(1) [OF ok] len free] by (metis prod_cases3)
  then have mt: "map_to P (sp_pt sp) page frame flags (sp_fl sp, sp_mem sp) = Some (pt', s', m')"
    by (auto simp: map_page_def split: option.splits)
  obtain n where n: "n \<le> 3" "?rep (s', m') (drop n fs)"
    "\<And>a. (\<And>g. g \<in> set (take n fs) \<Longrightarrow> outside a g) \<Longrightarrow> m' a = sp_mem sp a"
    using pt_frame_lawsD [OF laws(2) space_okD(1) [OF ok] mt] by blast
  let ?sp = "sp\<lparr>sp_pt := pt', sp_fl := s', sp_mem := m'\<rparr>"
  have dr: "m' a = sp_mem sp a" if "a \<in> disk_range (sw_disk (sp_swap sp))" for a
    by (rule n(3), rule swap_frame_outside [OF space_okD(3) [OF ok] that]) (metis in_set_takeD)
  have "swap_ok (sp_swap sp, m')" using space_okD(2) [OF ok] dr by (rule swap_ok_mem)
  then have "space_ok x ?sp (drop n fs)"
    using n(2) space_okD(3) [OF ok] in_set_dropD [of _ n fs]
    by (simp add: space_ok_def swap_frame_mem [of "sp_swap sp" m' _ "sp_mem sp"])
  moreover have "space_map P sp page frame flags = Inr ?sp" using m by (simp add: space_map_def)
  moreover have "view pt' = (view (sp_pt sp))(page \<mapsto> (frame, flags))"
    using pt_laws_map(2) [OF laws(1) space_okD(1) [OF ok] m] .
  ultimately show thesis using n by (intro that [of ?sp n]) simp_all
qed

end
