(* ===== verification/FaultPaths.thy ===== *)
theory FaultPaths
  imports VmmFault
begin

text \<open>
  The three ways \<^verbatim>\<open>handle_fault\<close> resolves a page fault, and eviction, over the state predicate of
  \<^theory_text>\<open>VmmFault\<close>: each operation is described by what it does to the view of the page table, to the pool of
  free frames, to the bytes of the frames and to the swap slots.
\<close>

abbreviation frame_bytes :: "'pt space \<Rightarrow> nat \<Rightarrow> u8 list" where
  "frame_bytes sp f \<equiv> read_bytes (sp_mem sp) (PHYS_MEM_OFFSET + f) 4096"

abbreviation space_slots :: "'pt space \<Rightarrow> nat \<rightharpoonup> u8 list" where
  "space_slots sp \<equiv> swap_view (sp_swap sp, sp_mem sp)"

text \<open>A frame in use by a mapping: usable, not free, and apart from the swap disk.\<close>

definition used_frame :: "'pt space \<Rightarrow> nat list \<Rightarrow> nat \<Rightarrow> bool" where
  "used_frame sp fs f \<longleftrightarrow> frame_ok PHYS_MEM_OFFSET f \<and> f \<notin> set fs \<and> swap_frame (sp_swap sp, sp_mem sp) f"

lemma used_frameD:
  assumes "used_frame sp fs f"
  shows "frame_ok PHYS_MEM_OFFSET f" "f \<notin> set fs" "swap_frame (sp_swap sp, sp_mem sp) f"
    "add_u64 PHYS_MEM_OFFSET f = Inr (PHYS_MEM_OFFSET + f)"
  using assms by (auto simp: used_frame_def frame_ok_def)

lemma used_frame_head: "space_ok x sp (f # fs) \<Longrightarrow> sp_swap sp1 = sp_swap sp \<Longrightarrow> used_frame sp1 fs f"
  using space_okD [of x sp "f # fs"] by (simp add: used_frame_def swap_frame_def)

lemma frame_page_byte:
  assumes "frame_page (sw', m') g = frame_page (sw, m) g" "PHYS_MEM_OFFSET + g \<le> a" "a < PHYS_MEM_OFFSET + g + 4096"
  shows "m' a = m a"
proof -
  define k where "k = a - (PHYS_MEM_OFFSET + g)"
  have k: "a = PHYS_MEM_OFFSET + g + k" "k < 4096" using assms(2,3) by (simp_all add: k_def)
  have "read_bytes m' (PHYS_MEM_OFFSET + g) 4096 ! k = read_bytes m (PHYS_MEM_OFFSET + g) 4096 ! k"
    using assms(1) by (simp add: frame_page_bytes)
  then show ?thesis using k by simp
qed

lemma space_ok_swap:
  assumes "space_ok x sp fs" "swap_ok (sw', m')"
    and "\<And>g. g \<in> set fs \<Longrightarrow> swap_frame (sw', m') g \<and> frame_page (sw', m') g = frame_page (sp_swap sp, sp_mem sp) g"
  shows "space_ok x (sp\<lparr>sp_swap := sw', sp_mem := m'\<rparr>) fs"
proof -
  have "fl_rep_at x PHYS_MEM_OFFSET (sp_fl sp, m') fs"
    using space_okD(1) [OF assms(1)] by (rule fl_rep_at_memory) (use assms(3) frame_page_byte in blast)
  then show ?thesis using assms(2,3) by (simp add: space_ok_def)
qed

lemma frame_bytes_cong: "(\<And>a. PHYS_MEM_OFFSET + f \<le> a \<Longrightarrow> a < PHYS_MEM_OFFSET + f + 4096 \<Longrightarrow> sp_mem sp' a = sp_mem sp a) \<Longrightarrow>
    frame_bytes sp' f = frame_bytes sp f"
  by (rule read_bytes_cong) simp

text \<open>Mapping a page leaves every frame alone that is not free, and all swap slots.\<close>

lemma space_map_frames:
  assumes laws: "pt_laws P view (fl_rep_at x PHYS_MEM_OFFSET)" "pt_frame_laws x P"
    and ok: "space_ok x sp fs" and len: "3 \<le> length fs" and free: "view (sp_pt sp) page = None"
  obtains sp' n where "space_map P sp page frame flags = Inr sp'" "view (sp_pt sp') = (view (sp_pt sp))(page \<mapsto> (frame, flags))"
    "n \<le> 3" "space_ok x sp' (drop n fs)" "sp_swap sp' = sp_swap sp" "space_slots sp' = space_slots sp"
    "\<And>g. frame_ok PHYS_MEM_OFFSET g \<Longrightarrow> g \<notin> set fs \<Longrightarrow> frame_bytes sp' g = frame_bytes sp g"
proof -
  obtain sp' n where r: "space_map P sp page frame flags = Inr sp'" "view (sp_pt sp') = (view (sp_pt sp))(page \<mapsto> (frame, flags))"
    "n \<le> 3" "space_ok x sp' (drop n fs)" "sp_swap sp' = sp_swap sp"
    "\<And>a. (\<And>g. g \<in> set (take n fs) \<Longrightarrow> outside a g) \<Longrightarrow> sp_mem sp' a = sp_mem sp a"
    by (rule space_map_ok [OF laws ok len free, of frame flags]) blast
  have "space_slots sp' = space_slots sp" unfolding r(5) using space_okD(2) [OF ok]
  proof (rule swap_view_mem)
    fix a assume a: "a \<in> disk_range (sw_disk (sp_swap sp))"
    show "sp_mem sp' a = sp_mem sp a"
      by (rule r(6), rule swap_frame_outside [OF space_okD(3) [OF ok] a]) (metis in_set_takeD)
  qed
  moreover have "frame_bytes sp' g = frame_bytes sp g" if g: "frame_ok PHYS_MEM_OFFSET g" "g \<notin> set fs" for g
  proof (rule frame_bytes_cong, rule r(6))
    fix a h assume a: "PHYS_MEM_OFFSET + g \<le> a" "a < PHYS_MEM_OFFSET + g + 4096" "h \<in> set (take n fs)"
    then have h: "h \<in> set fs" by (metis in_set_takeD)
    show "outside a h" using frames_outside [OF g(1) space_okD(5) [OF ok h] _ a(1,2)] g(2) h by auto
  qed
  ultimately show thesis using r(1-5) by (intro that [of sp' n]) simp_all
qed

lemma space_unmap_ok:
  assumes "pt_laws P view rep" "view (sp_pt sp) page = Some (f, fl)"
  obtains pt' where "space_unmap P sp page = Inr (f, sp\<lparr>sp_pt := pt'\<rparr>)" "view pt' = (view (sp_pt sp))(page := None)"
proof -
  obtain pt' where "unmap_page P (sp_pt sp) page = Inr (f, pt')" "view pt' = (view (sp_pt sp))(page := None)"
    by (rule pt_laws_unmap [OF assms])
  then show thesis by (intro that [of pt']) (simp_all add: space_unmap_def)
qed

lemma space_ok_pt: "space_ok x (sp\<lparr>sp_pt := pt'\<rparr>) fs = space_ok x sp fs"
  by (simp add: space_ok_def)

text \<open>Filling a used frame.\<close>

lemma fill_frame:
  assumes "space_ok x sp fs" "used_frame sp fs f" "length bs = 4096"
  defines "sp' \<equiv> sp\<lparr>sp_mem := write_bytes (sp_mem sp) (PHYS_MEM_OFFSET + f) bs\<rparr>"
  shows "space_ok x sp' fs" "frame_bytes sp' f = bs" "space_slots sp' = space_slots sp" "used_frame sp' fs = used_frame sp fs"
    "\<And>g. frame_ok PHYS_MEM_OFFSET g \<Longrightarrow> g \<noteq> f \<Longrightarrow> frame_bytes sp' g = frame_bytes sp g"
proof -
  note f = used_frameD [OF assms(2)]
  show "space_ok x sp' fs" unfolding sp'_def
    using assms(1) f(1-3) by (rule fill_ok) (use assms(3) in \<open>auto simp: outside_def\<close>)
  show "frame_bytes sp' f = bs"
    using read_write_bytes [of "sp_mem sp" "PHYS_MEM_OFFSET + f" bs] assms(3) by (simp add: sp'_def)
  have sw: "sp_swap sp' = sp_swap sp" by (simp add: sp'_def)
  show "space_slots sp' = space_slots sp" unfolding sw using space_okD(2) [OF assms(1)]
    by (rule swap_view_mem) (use swap_frame_outside [OF f(3)] assms(3) in \<open>auto simp: sp'_def outside_def\<close>)
  show "used_frame sp' fs = used_frame sp fs" by (simp add: used_frame_def swap_frame_def sp'_def fun_eq_iff)
  show "frame_bytes sp' g = frame_bytes sp g" if "frame_ok PHYS_MEM_OFFSET g" "g \<noteq> f" for g
    using frames_apart [OF that(1) f(1) that(2)] assms(3) by (auto simp: sp'_def intro: read_write_bytes_other)
qed

lemma space_swap_in_ok:
  assumes "space_ok x sp fs" "used_frame sp fs f" "space_slots sp slot = Some pg"
  obtains sp' where "space_swap_in sp slot f = Inr sp'" "space_ok x sp' fs" "frame_bytes sp' f = pg" "sp_pt sp' = sp_pt sp"
    "space_slots sp' = (space_slots sp)(slot := None)"
    "\<And>g. g \<noteq> f \<Longrightarrow> swap_frame (sp_swap sp, sp_mem sp) g \<Longrightarrow> frame_bytes sp' g = frame_bytes sp g"
proof -
  note f = used_frameD [OF assms(2)]
  obtain s' m' where i: "swap_in (sp_swap sp, sp_mem sp) slot f = Inr (s', m')" "swap_ok (s', m')"
    "swap_view (s', m') = (space_slots sp)(slot := None)" "frame_page (s', m') f = pg"
    and fr: "\<And>g. swap_frame (sp_swap sp, sp_mem sp) g \<Longrightarrow>
      swap_frame (s', m') g \<and> (g \<noteq> f \<longrightarrow> frame_page (s', m') g = frame_page (sp_swap sp, sp_mem sp) g)"
    using swap_in_page [OF space_okD(2) [OF assms(1)] f(3) assms(3)] by metis
  let ?sp = "sp\<lparr>sp_swap := s', sp_mem := m'\<rparr>"
  have "space_ok x ?sp fs"
    using assms(1) i(2) by (rule space_ok_swap) (use fr f(2) space_okD(3) [OF assms(1)] in blast)
  moreover have "frame_bytes ?sp g = frame_bytes sp g" if "g \<noteq> f" "swap_frame (sp_swap sp, sp_mem sp) g" for g
    using fr [OF that(2)] that(1) by (simp add: frame_page_bytes)
  ultimately show thesis
    using i by (intro that [of ?sp]) (simp_all add: space_swap_in_def frame_page_bytes)
qed

lemma frame_dealloc_ok:
  assumes "space_ok x sp fs" "used_frame sp fs f"
  obtains sp' where "frame_dealloc sp f = Inr sp'" "space_ok x sp' (f # fs)" "sp_pt sp' = sp_pt sp" "sp_swap sp' = sp_swap sp"
    "space_slots sp' = space_slots sp" "\<And>a. outside a f \<Longrightarrow> sp_mem sp' a = sp_mem sp a"
proof -
  note f = used_frameD [OF assms(2)]
  have rep: "fl_rep x (sp_fl sp, sp_mem sp) fs" "fl_offset (sp_fl sp) = PHYS_MEM_OFFSET"
    using space_okD(1) [OF assms(1)] by (simp_all add: fl_rep_at_def)
  have "fl_returnable (sp_fl sp, sp_mem sp) f" using f(1) rep(2) by (simp add: fl_returnable_def)
  then obtain fl' m' where d: "fl_deallocate (sp_fl sp, sp_mem sp) f = Inr (fl', m')" "fl_rep x (fl', m') (f # fs)"
    "fl_offset fl' = PHYS_MEM_OFFSET"
    using fl_deallocate_push [OF rep(1) f(2)] rep(2) by (metis fst_conv prod.collapse)
  have m': "m' a = sp_mem sp a" if "outside a f" for a
    using d(1) that rep(2) by (auto simp: fl_deallocate_def frame_to_virt_def outside_def Let_def)
  have dr: "m' a = sp_mem sp a" if "a \<in> disk_range (sw_disk (sp_swap sp))" for a
    using swap_frame_outside [OF f(3) that] by (rule m')
  let ?sp = "sp\<lparr>sp_fl := fl', sp_mem := m'\<rparr>"
  have "space_ok x ?sp (f # fs)"
    using d(2,3) swap_ok_mem(1) [OF space_okD(2) [OF assms(1)] dr] space_okD(3) [OF assms(1)] f(3)
    by (simp add: space_ok_def fl_rep_at_def swap_frame_mem [of "sp_swap sp" m' _ "sp_mem sp"])
  moreover have "space_slots ?sp = space_slots sp" using swap_view_mem [OF space_okD(2) [OF assms(1)] dr] by simp
  ultimately show thesis using d(1) m' by (intro that [of ?sp]) (simp_all add: frame_dealloc_def)
qed

subsection \<open>The paths of a fault\<close>

lemma fault_swapped:
  assumes laws: "pt_laws P view (fl_rep_at x PHYS_MEM_OFFSET)" "pt_frame_laws x P"
    and ok: "space_ok x sp (f # fs)" "3 \<le> length fs" and free: "view (sp_pt sp) (page_start a) = None"
    and sw: "vm_swapped v (page_start a) = Some (slot, flags)" "space_slots sp slot = Some pg"
  obtains sp' where "handle_fault x P v sp a w = Inr (Some (), v\<lparr>vm_swapped := (vm_swapped v)(page_start a := None)\<rparr>, sp')"
    "view (sp_pt sp') = (view (sp_pt sp))(page_start a \<mapsto> (f, flags))" "frame_bytes sp' f = pg"
    "\<And>g. used_frame sp (f # fs) g \<Longrightarrow> frame_bytes sp' g = frame_bytes sp g"
    "space_slots sp' = (space_slots sp)(slot := None)" "\<exists>n\<le>3. space_ok x sp' (drop n fs)"
proof -
  obtain sp1 where s1: "frame_alloc x sp = Inr (Some f, sp1)" "space_ok x sp1 fs" "sp_mem sp1 = sp_mem sp"
    "sp_pt sp1 = sp_pt sp" "sp_swap sp1 = sp_swap sp"
    by (rule alloc_ok [OF ok(1)])
  have u1: "used_frame sp1 fs f" using ok(1) s1(5) by (rule used_frame_head)
  have "space_slots sp1 slot = Some pg" using sw(2) s1(3,5) by simp
  then obtain sp2 where s2: "space_swap_in sp1 slot f = Inr sp2" "space_ok x sp2 fs" "frame_bytes sp2 f = pg"
    "sp_pt sp2 = sp_pt sp1" "space_slots sp2 = (space_slots sp1)(slot := None)"
    "\<And>g. g \<noteq> f \<Longrightarrow> swap_frame (sp_swap sp1, sp_mem sp1) g \<Longrightarrow> frame_bytes sp2 g = frame_bytes sp1 g"
    using space_swap_in_ok [OF s1(2) u1] by metis
  have "view (sp_pt sp2) (page_start a) = None" using free s1(4) s2(4) by simp
  then obtain sp3 n where s3: "space_map P sp2 (page_start a) f flags = Inr sp3"
    "view (sp_pt sp3) = (view (sp_pt sp2))(page_start a \<mapsto> (f, flags))" "n \<le> 3" "space_ok x sp3 (drop n fs)"
    "space_slots sp3 = space_slots sp2"
    "\<And>g. frame_ok PHYS_MEM_OFFSET g \<Longrightarrow> g \<notin> set fs \<Longrightarrow> frame_bytes sp3 g = frame_bytes sp2 g"
    using space_map_frames [OF laws s2(2) ok(2)] by metis
  show thesis
  proof (rule that [of sp3])
    show "handle_fault x P v sp a w = Inr (Some (), v\<lparr>vm_swapped := (vm_swapped v)(page_start a := None)\<rparr>, sp3)"
      using sw(1) s1(1) s2(1) s3(1) by (simp add: handle_fault_def pt_laws_page_of [OF laws(1)])
    show "view (sp_pt sp3) = (view (sp_pt sp))(page_start a \<mapsto> (f, flags))" using s3(2) s2(4) s1(4) by simp
    show "frame_bytes sp3 f = pg" using s3(6) [OF used_frameD(1,2) [OF u1]] s2(3) by simp
    show "frame_bytes sp3 g = frame_bytes sp g" if g: "used_frame sp (f # fs) g" for g
    proof -
      have "g \<notin> set fs" "g \<noteq> f" using used_frameD(2) [OF g] by auto
      then show ?thesis using s3(6) [OF used_frameD(1) [OF g]] s2(6) [of g] used_frameD(3) [OF g] s1(3,5) by simp
    qed
    show "space_slots sp3 = (space_slots sp)(slot := None)" using s3(5) s2(5) s1(3,5) by simp
    show "\<exists>n\<le>3. space_ok x sp3 (drop n fs)" using s3(3,4) by blast
  qed
qed

text \<open>A fault that takes a frame, fills it with \<open>bs\<close> and maps it.\<close>

lemma fill_and_map:
  assumes laws: "pt_laws P view (fl_rep_at x PHYS_MEM_OFFSET)" "pt_frame_laws x P"
    and ok: "space_ok x sp fs" "used_frame sp fs f" "3 \<le> length fs" and free: "view pt page = None"
    and bs: "length bs = 4096"
  obtains sp' where "space_map P (sp\<lparr>sp_mem := write_bytes (sp_mem sp) (PHYS_MEM_OFFSET + f) bs, sp_pt := pt\<rparr>) page f flags = Inr sp'"
    "view (sp_pt sp') = (view pt)(page \<mapsto> (f, flags))" "frame_bytes sp' f = bs"
    "\<And>g. frame_ok PHYS_MEM_OFFSET g \<Longrightarrow> g \<notin> set (f # fs) \<Longrightarrow> frame_bytes sp' g = frame_bytes sp g"
    "space_slots sp' = space_slots sp" "\<exists>n\<le>3. space_ok x sp' (drop n fs)"
proof -
  let ?sp1 = "sp\<lparr>sp_mem := write_bytes (sp_mem sp) (PHYS_MEM_OFFSET + f) bs\<rparr>"
  let ?sp2 = "?sp1\<lparr>sp_pt := pt\<rparr>"
  note s1 = fill_frame [OF ok(1,2) bs]
  note f = used_frameD [OF ok(2)]
  have ok2: "space_ok x ?sp2 fs" using s1(1) unfolding space_ok_pt .
  have "view (sp_pt ?sp2) page = None" using free by simp
  then obtain sp3 n where s3: "space_map P ?sp2 page f flags = Inr sp3"
    "view (sp_pt sp3) = (view (sp_pt ?sp2))(page \<mapsto> (f, flags))" "n \<le> 3" "space_ok x sp3 (drop n fs)"
    "space_slots sp3 = space_slots ?sp2"
    "\<And>g. frame_ok PHYS_MEM_OFFSET g \<Longrightarrow> g \<notin> set fs \<Longrightarrow> frame_bytes sp3 g = frame_bytes ?sp2 g"
    by (rule space_map_frames [OF laws ok2 ok(3), of page f flags]) (rule that)
  show thesis
  proof (rule that [OF s3(1)])
    show "view (sp_pt sp3) = (view pt)(page \<mapsto> (f, flags))" using s3(2) by simp
    show "frame_bytes sp3 f = bs" using s3(6) [OF f(1,2)] s1(2) by simp
    show "frame_bytes sp3 g = frame_bytes sp g" if "frame_ok PHYS_MEM_OFFSET g" "g \<notin> set (f # fs)" for g
      using s3(6) [OF that(1)] s1(5) [OF that(1)] that(2) by simp
    show "space_slots sp3 = space_slots sp" using s3(5) s1(3) by simp
    show "\<exists>n\<le>3. space_ok x sp3 (drop n fs)" using s3(3,4) by blast
  qed
qed

lemma fault_absent:
  assumes laws: "pt_laws P view (fl_rep_at x PHYS_MEM_OFFSET)" "pt_frame_laws x P"
    and ok: "space_ok x sp (f # fs)" "3 \<le> length fs" and free: "view (sp_pt sp) (page_start a) = None"
    and area: "vm_swapped v (page_start a) = None" "find_area v a = Some area"
  obtains sp' where "handle_fault x P v sp a w = Inr (Some (), v, sp')"
    "view (sp_pt sp') = (view (sp_pt sp))(page_start a \<mapsto> (f, va_flags area))" "frame_bytes sp' f = replicate 4096 0"
    "\<And>g. frame_ok PHYS_MEM_OFFSET g \<Longrightarrow> g \<notin> set (f # fs) \<Longrightarrow> frame_bytes sp' g = frame_bytes sp g"
    "space_slots sp' = space_slots sp" "\<exists>n\<le>3. space_ok x sp' (drop n fs)"
proof -
  obtain sp1 where s1: "frame_alloc x sp = Inr (Some f, sp1)" "space_ok x sp1 fs" "sp_mem sp1 = sp_mem sp"
    "sp_pt sp1 = sp_pt sp" "sp_swap sp1 = sp_swap sp"
    by (rule alloc_ok [OF ok(1)])
  have u1: "used_frame sp1 fs f" using ok(1) s1(5) by (rule used_frame_head)
  have f1: "view (sp_pt sp1) (page_start a) = None" using free s1(4) by simp
  obtain sp' where r: "space_map P (sp1\<lparr>sp_mem := write_bytes (sp_mem sp1) (PHYS_MEM_OFFSET + f) (replicate 4096 0), sp_pt := sp_pt sp1\<rparr>)
      (page_start a) f (va_flags area) = Inr sp'"
    "view (sp_pt sp') = (view (sp_pt sp1))(page_start a \<mapsto> (f, va_flags area))" "frame_bytes sp' f = replicate 4096 0"
    "\<And>g. frame_ok PHYS_MEM_OFFSET g \<Longrightarrow> g \<notin> set (f # fs) \<Longrightarrow> frame_bytes sp' g = frame_bytes sp1 g"
    "space_slots sp' = space_slots sp1" "\<exists>n\<le>3. space_ok x sp' (drop n fs)"
    by (rule fill_and_map [OF laws s1(2) u1 ok(2) f1 length_replicate]) (rule that)
  have "translate_addr P (sp_pt sp) a = None" using free by (simp add: translate_addr_def pt_laws_translate [OF laws(1)])
  then have "handle_fault x P v sp a w = Inr (Some (), v, sp')"
    using area s1(1) r(1) used_frameD(4) [OF u1] by (simp add: handle_fault_def pt_laws_page_of [OF laws(1)] Let_def)
  then show thesis by (rule that) (use r(2-6) s1(3-5) in simp_all)
qed

lemma fault_cow:
  assumes laws: "pt_laws P view (fl_rep_at x PHYS_MEM_OFFSET)" "pt_frame_laws x P"
    and ok: "space_ok x sp (f # fs)" "3 \<le> length fs" and old: "view (sp_pt sp) (page_start a) = Some (g, fl)"
    and g: "PHYS_MEM_OFFSET + g + 4096 \<le> U64_LIMIT"
    and area: "vm_swapped v (page_start a) = None" "find_area v a = Some area" "WRITABLE \<in> va_flags area"
  obtains sp' where "handle_fault x P v sp a True = Inr (Some (), v, sp')"
    "view (sp_pt sp') = (view (sp_pt sp))(page_start a \<mapsto> (f, va_flags area))"
    "frame_bytes sp' f = read_bytes (sp_mem sp) (PHYS_MEM_OFFSET + g + a mod 4096) 4096"
    "\<And>h. frame_ok PHYS_MEM_OFFSET h \<Longrightarrow> h \<notin> set (f # fs) \<Longrightarrow> frame_bytes sp' h = frame_bytes sp h"
    "space_slots sp' = space_slots sp" "\<exists>n\<le>3. space_ok x sp' (drop n fs)"
proof -
  let ?src = "PHYS_MEM_OFFSET + (g + a mod 4096)" and ?p = "page_start a"
  let ?bs = "read_bytes (sp_mem sp) ?src 4096"
  obtain sp1 where s1: "frame_alloc x sp = Inr (Some f, sp1)" "space_ok x sp1 fs" "sp_mem sp1 = sp_mem sp"
    "sp_pt sp1 = sp_pt sp" "sp_swap sp1 = sp_swap sp"
    by (rule alloc_ok [OF ok(1)])
  have u1: "used_frame sp1 fs f" using ok(1) s1(5) by (rule used_frame_head)
  let ?sp2 = "sp1\<lparr>sp_mem := write_bytes (sp_mem sp1) (PHYS_MEM_OFFSET + f) ?bs\<rparr>"
  have "view (sp_pt ?sp2) ?p = Some (g, fl)" using old s1(4) by simp
  then obtain pt' where un: "space_unmap P ?sp2 ?p = Inr (g, ?sp2\<lparr>sp_pt := pt'\<rparr>)" "view pt' = (view (sp_pt ?sp2))(?p := None)"
    by (rule space_unmap_ok [OF laws(1)])
  then have "view pt' ?p = None" by simp
  then obtain sp' where r: "space_map P (?sp2\<lparr>sp_pt := pt'\<rparr>) ?p f (va_flags area) = Inr sp'"
    "view (sp_pt sp') = (view pt')(?p \<mapsto> (f, va_flags area))" "frame_bytes sp' f = ?bs"
    "\<And>g. frame_ok PHYS_MEM_OFFSET g \<Longrightarrow> g \<notin> set (f # fs) \<Longrightarrow> frame_bytes sp' g = frame_bytes sp1 g"
    "space_slots sp' = space_slots sp1" "\<exists>n\<le>3. space_ok x sp' (drop n fs)"
    by (rule fill_and_map [OF laws s1(2) u1 ok(2) _ length_read_bytes]) (rule that)
  have "a mod 4096 < 4096" by simp
  then have "add_u64 PHYS_MEM_OFFSET (g + a mod 4096) = Inr ?src" using g unfolding add_u64_Inr by linarith
  moreover have "translate_addr P (sp_pt sp) a = Some (g + a mod 4096)"
    using old by (simp add: translate_addr_def pt_laws_translate [OF laws(1)])
  ultimately have "handle_fault x P v sp a True = Inr (Some (), v, sp')"
    using area s1(1,3) un(1) r(1) used_frameD(4) [OF u1] by (simp add: handle_fault_def pt_laws_page_of [OF laws(1)] Let_def)
  then show thesis by (rule that) (use r(2-6) un(2) s1(3-5) in \<open>simp_all add: add.assoc\<close>)
qed

subsection \<open>Eviction\<close>

lemma evict_ok:
  assumes laws: "pt_laws P view (fl_rep_at x PHYS_MEM_OFFSET)"
    and ok: "space_ok x sp fs" "used_frame sp fs f" and old: "view (sp_pt sp) (page_start a) = Some (f, fl)"
  shows "evict_addr x P v sp a = Inr (False, v, sp) \<and> dom (space_slots sp) = {..<length (sw_free (sp_swap sp))} \<or>
    (\<exists>slot sp'. evict_addr x P v sp a = Inr (True, record_swapped v (page_start a) slot (fl - {ACCESSED, DIRTY}), sp') \<and>
       space_slots sp slot = None \<and> space_slots sp' = (space_slots sp)(slot \<mapsto> frame_bytes sp f) \<and>
       view (sp_pt sp') = (view (sp_pt sp))(page_start a := None) \<and> space_ok x sp' (f # fs) \<and>
       (\<forall>g. swap_frame (sp_swap sp, sp_mem sp) g \<longrightarrow> swap_frame (sp_swap sp', sp_mem sp') g \<and>
          (frame_ok PHYS_MEM_OFFSET g \<longrightarrow> g \<noteq> f \<longrightarrow> frame_bytes sp' g = frame_bytes sp g)))"
proof -
  note f = used_frameD [OF ok(2)]
  have "phys_laws x" using space_okD(1) [OF ok(1)] by (simp add: fl_rep_at_def fl_rep_def)
  then have ca: "containing_address x (f + a mod 4096) = f" using f(1) by (auto simp: phys_laws_def frame_ok_def)
  have tr: "translate_addr P (sp_pt sp) a = Some (f + a mod 4096)" "page_flags P (sp_pt sp) a = Some fl"
    using old by (simp_all add: translate_addr_def page_flags_def pt_laws_translate [OF laws])
  have pg: "a - a mod PAGE_SIZE = page_start a" by (simp add: PAGE_SIZE_def page_start_def)
  note ev = evict_addr_def [of x P v sp a, unfolded tr option.case prod.case Let_def ca pg pt_laws_page_of [OF laws]]
  from swp.out_law [OF space_okD(2) [OF ok(1)] f(3)] show ?thesis
  proof (elim disjE exE conjE)
    fix s' assume o: "swap_out (sp_swap sp, sp_mem sp) f = Inr (None, s')" "s' = (sp_swap sp, sp_mem sp)"
      and d: "dom (space_slots sp) = {..<length (sw_free (fst (sp_swap sp, sp_mem sp)))}"
    then show ?thesis by (simp add: ev)
  next
    fix slot s' assume "swap_out (sp_swap sp, sp_mem sp) f = Inr (Some slot, s')" and free: "space_slots sp slot = None"
      and "swap_ok s'" "swap_view s' = (space_slots sp)(slot \<mapsto> frame_page (sp_swap sp, sp_mem sp) f)"
      "\<forall>g. swap_frame (sp_swap sp, sp_mem sp) g \<longrightarrow> swap_frame s' g \<and> frame_page s' g = frame_page (sp_swap sp, sp_mem sp) g"
    moreover obtain sw' m' where s': "s' = (sw', m')" by (cases s')
    ultimately have o: "swap_out (sp_swap sp, sp_mem sp) f = Inr (Some slot, sw', m')" and ok': "swap_ok (sw', m')"
      and sl: "swap_view (sw', m') = (space_slots sp)(slot \<mapsto> frame_bytes sp f)"
      and fr: "\<And>g. swap_frame (sp_swap sp, sp_mem sp) g \<Longrightarrow>
        swap_frame (sw', m') g \<and> frame_page (sw', m') g = frame_page (sp_swap sp, sp_mem sp) g"
      by (simp_all add: frame_page_bytes)
    let ?sp1 = "sp\<lparr>sp_swap := sw', sp_mem := m'\<rparr>"
    have ok1: "space_ok x ?sp1 fs" using ok(1) ok' by (rule space_ok_swap) (use fr space_okD(3) [OF ok(1)] in blast)
    have "view (sp_pt ?sp1) (page_start a) = Some (f, fl)" using old by simp
    then obtain pt' where un: "space_unmap P ?sp1 (page_start a) = Inr (f, ?sp1\<lparr>sp_pt := pt'\<rparr>)"
      "view pt' = (view (sp_pt ?sp1))(page_start a := None)" by (rule space_unmap_ok [OF laws])
    have "space_ok x (?sp1\<lparr>sp_pt := pt'\<rparr>) fs" "used_frame (?sp1\<lparr>sp_pt := pt'\<rparr>) fs f"
      using ok1 f fr [OF f(3)] by (simp_all add: space_ok_pt used_frame_def)
    then obtain sp3 where d: "frame_dealloc (?sp1\<lparr>sp_pt := pt'\<rparr>) f = Inr sp3" "space_ok x sp3 (f # fs)" "sp_pt sp3 = pt'"
      "space_slots sp3 = swap_view (sw', m')" and sw3: "sp_swap sp3 = sw'" and mem3: "\<And>a. outside a f \<Longrightarrow> sp_mem sp3 a = m' a"
      by (rule frame_dealloc_ok) simp
    have keep: "swap_frame (sp_swap sp3, sp_mem sp3) g \<and>
        (frame_ok PHYS_MEM_OFFSET g \<longrightarrow> g \<noteq> f \<longrightarrow> frame_bytes sp3 g = frame_bytes sp g)"
      if "swap_frame (sp_swap sp, sp_mem sp) g" for g
    proof (intro conjI impI)
      show "swap_frame (sp_swap sp3, sp_mem sp3) g"
        using fr [OF that] by (simp add: sw3 swap_frame_mem [of sw' "sp_mem sp3" g m'])
      assume g: "frame_ok PHYS_MEM_OFFSET g" "g \<noteq> f"
      have "frame_bytes sp3 g = read_bytes m' (PHYS_MEM_OFFSET + g) 4096"
        by (intro read_bytes_cong mem3 frames_outside [OF g(1) f(1) g(2)]) simp_all
      then show "frame_bytes sp3 g = frame_bytes sp g" using fr [OF that] by (simp add: frame_page_bytes)
    qed
    have "evict_addr x P v sp a = Inr (True, record_swapped v (page_start a) slot (fl - {ACCESSED, DIRTY}), sp3)"
      using o un(1) d(1) by (simp add: ev)
    moreover have "\<forall>g. swap_frame (sp_swap sp, sp_mem sp) g \<longrightarrow> swap_frame (sp_swap sp3, sp_mem sp3) g \<and>
        (frame_ok PHYS_MEM_OFFSET g \<longrightarrow> g \<noteq> f \<longrightarrow> frame_bytes sp3 g = frame_bytes sp g)"
      using keep by blast
    ultimately show ?thesis using free sl d(2-4) un(2)
      by (intro disjI2 exI [of _ slot] exI [of _ sp3] conjI) simp_all
  qed
qed

subsection \<open>An address space\<close>

lemma simple_pt_frame_laws: "pt_frame_laws x simple_pt_ops"
  unfolding pt_frame_laws_def
proof (intro allI impI)
  fix pt :: pt_view and p f fl s m pt' s' m' fs
  assume "fl_rep_at x PHYS_MEM_OFFSET (s, m) fs" "map_to simple_pt_ops pt p f fl (s, m) = Some (pt', s', m')"
  then show "\<exists>n\<le>3. fl_rep_at x PHYS_MEM_OFFSET (s', m') (drop n fs) \<and> (\<forall>a. (\<forall>g\<in>set (take n fs). outside a g) \<longrightarrow> m' a = m a)"
    by (intro exI [of _ 0]) (auto simp: simple_pt_ops_def split: if_splits)
qed

definition example_partition :: "memory \<Rightarrow> swap_partition" where
  "example_partition m = (let d = \<lparr>rd_base = 8192, rd_byte_len = 8192, rd_sector_size = 512, rd_cursor = 0,
       rd_crcs = replicate 16 0, rd_frames = []\<rparr>
     in \<lparr>sw_disk = d\<lparr>rd_crcs := map (\<lambda>l. crc32 (sector_bytes d m l)) [0 ..< 16]\<rparr>, sw_free = [True, True], sw_cursor = 0\<rparr>)"

lemma example_partition_ok: "swap_ok (example_partition m, m)" "4096 dvd f \<Longrightarrow> f < 0x100000 \<Longrightarrow> swap_frame (example_partition m, m) f"
  by (simp_all add: example_partition_def swap_ok_def disk_ok_def disk_shape_def sector_bytes_def Let_def
      swap_frame_def PHYS_MEM_OFFSET_def U64_LIMIT_def)

abbreviation example_pool_frames :: "nat list" where
  "example_pool_frames \<equiv> [20480, 16384, 8192, 4096]"

lemma example_space:
  assumes "length bs = 4096"
  obtains sp :: "pt_view space" and m where "space_ok example_phys sp example_pool_frames" "used_frame sp example_pool_frames 0x6000"
    "sp_pt sp = pt" "frame_bytes sp 0x6000 = bs" "sp_swap sp = example_partition m"
proof -
  obtain fl m where m: "fl_rep_at example_phys PHYS_MEM_OFFSET (fl, m) example_pool_frames"
    using example_pool unfolding PHYS_MEM_OFFSET_def by auto
  let ?sp = "\<lparr>sp_pt = pt, sp_fl = fl, sp_mem = m, sp_swap = example_partition m\<rparr>"
  have ok: "space_ok example_phys ?sp example_pool_frames" using m example_partition_ok by (simp add: space_ok_def)
  have u: "used_frame ?sp example_pool_frames 0x6000"
    using example_partition_ok(2) [of "0x6000" m] by (simp add: used_frame_def frame_ok_def PHYS_MEM_OFFSET_def U64_LIMIT_def)
  note f = fill_frame [OF ok u assms]
  show thesis
    by (rule that [OF f(1), of m]) (use u f(2,4) in simp_all)
qed

definition example_area :: vm_area where
  "example_area = \<lparr>va_start = 0x400000, va_end = 0x402000, va_flags = {PRESENT, WRITABLE}, va_kind = Anonymous\<rparr>"

subsection \<open>Properties\<close>

text \<open>
  C21. Demand paging. A fault on an address of an area whose page is neither mapped nor swapped out succeeds:
  the page is mapped with the area's flags to the next free frame, whose 4096 bytes are zero; no other
  mapping, no byte of a frame in use and no swap slot changes, and at most three more frames leave the pool
  (for page tables).
\<close>

theorem demand_paging:
  assumes "pt_laws P view (fl_rep_at x PHYS_MEM_OFFSET)" "pt_frame_laws x P"
    and "space_ok x sp (f # fs)" "3 \<le> length fs" "view (sp_pt sp) (page_start a) = None"
    and "vm_swapped v (page_start a) = None" "find_area v a = Some area"
  shows "\<exists>sp'. handle_fault x P v sp a is_write = Inr (Some (), v, sp') \<and>
     view (sp_pt sp') = (view (sp_pt sp))(page_start a \<mapsto> (f, va_flags area)) \<and> frame_bytes sp' f = replicate 4096 0 \<and>
     (\<forall>g. frame_ok PHYS_MEM_OFFSET g \<longrightarrow> g \<notin> set (f # fs) \<longrightarrow> frame_bytes sp' g = frame_bytes sp g) \<and>
     space_slots sp' = space_slots sp \<and> (\<exists>n\<le>3. space_ok x sp' (drop n fs))"
  by (rule fault_absent [OF assms, of is_write]) blast

theorem demand_paging_witness:
  "\<exists>(sp :: pt_view space) sp'. space_ok example_phys sp example_pool_frames \<and>
     handle_fault example_phys simple_pt_ops (add_area vmm_new example_area) sp 0x400123 False =
       Inr (Some (), add_area vmm_new example_area, sp') \<and>
     sp_pt sp' 0x400000 = Some (20480, {PRESENT, WRITABLE}) \<and> frame_bytes sp' 20480 = replicate 4096 0"
proof -
  obtain sp :: "pt_view space" where sp: "space_ok example_phys sp example_pool_frames" "sp_pt sp = Map.empty"
    by (rule example_space [OF length_replicate, of Map.empty]) (rule that)
  have view_free: "sp_pt sp (page_start 0x400123) = None" using sp(2) by simp
  have "vm_swapped (add_area vmm_new example_area) (page_start 0x400123) = None"
    "find_area (add_area vmm_new example_area) 0x400123 = Some example_area"
    by (simp_all add: add_area_def vmm_new_def find_area_def example_area_def)
  from demand_paging [where view = "\<lambda>pt. pt", OF simple_pt_laws simple_pt_frame_laws sp(1) _ view_free this, of False]
  show ?thesis using sp(1) by (fastforce simp: page_start_def example_area_def)
qed

text \<open>
  C6. An evicted page comes back unchanged. When \<^verbatim>\<open>evict_addr\<close> has swapped a page out, a later fault
  on any address of that page, in any state in which the page is still recorded and its slot still holds
  what was written, maps the page again with the flags it had, accessed and dirty bits cleared, to a frame
  with the same 4096 bytes.
\<close>

theorem eviction_round_trip:
  assumes "pt_laws P view (fl_rep_at x PHYS_MEM_OFFSET)" "pt_frame_laws x P"
    and "space_ok x sp fs" "used_frame sp fs f" "view (sp_pt sp) (page_start a) = Some (f, fl)"
    and "evict_addr x P v sp a = Inr (True, v1, sp1)"
    and "vm_swapped v2 (page_start a) = vm_swapped v1 (page_start a)" "space_slots sp1 \<subseteq>\<^sub>m space_slots sp2"
    and "space_ok x sp2 (g # gs)" "3 \<le> length gs" "view (sp_pt sp2) (page_start a) = None" "page_start b = page_start a"
  shows "\<exists>sp3. handle_fault x P v2 sp2 b is_write =
       Inr (Some (), v2\<lparr>vm_swapped := (vm_swapped v2)(page_start a := None)\<rparr>, sp3) \<and>
     view (sp_pt sp3) = (view (sp_pt sp2))(page_start a \<mapsto> (g, fl - {ACCESSED, DIRTY})) \<and>
     frame_bytes sp3 g = frame_bytes sp f"
proof -
  obtain slot where e: "v1 = record_swapped v (page_start a) slot (fl - {ACCESSED, DIRTY})"
    "space_slots sp1 = (space_slots sp)(slot \<mapsto> frame_bytes sp f)"
    using evict_ok [OF assms(1,3,4,5), of v] assms(6) by auto
  have sw: "vm_swapped v2 (page_start b) = Some (slot, fl - {ACCESSED, DIRTY})"
    using assms(7,12) e(1) by (simp add: record_swapped_def)
  have "slot \<in> dom (space_slots sp1)" using e(2) by (simp add: dom_def)
  then have sl: "space_slots sp2 slot = Some (frame_bytes sp f)" using assms(8) e(2) by (simp add: map_le_def)
  have free: "view (sp_pt sp2) (page_start b) = None" using assms(11,12) by simp
  obtain sp3 where "handle_fault x P v2 sp2 b is_write = Inr (Some (), v2\<lparr>vm_swapped := (vm_swapped v2)(page_start b := None)\<rparr>, sp3)"
    "view (sp_pt sp3) = (view (sp_pt sp2))(page_start b \<mapsto> (g, fl - {ACCESSED, DIRTY}))" "frame_bytes sp3 g = frame_bytes sp f"
    by (rule fault_swapped [OF assms(1,2,9,10) free sw sl, of is_write]) (rule that)
  then show ?thesis unfolding assms(12) by blast
qed

theorem eviction_round_trip_witness:
  "\<exists>(sp :: pt_view space) v1 sp1 v2 sp3. evict_addr example_phys simple_pt_ops vmm_new sp 0x400000 = Inr (True, v1, sp1) \<and>
     handle_fault example_phys simple_pt_ops v1 sp1 0x400FFF True = Inr (Some (), v2, sp3) \<and>
     frame_bytes sp3 0x6000 = frame_bytes sp 0x6000 \<and> sp_pt sp3 0x400000 = Some (0x6000, {PRESENT})"
proof -
  let ?pt = "[0x400000 \<mapsto> (0x6000, {PRESENT, ACCESSED})]"
  obtain sp :: "pt_view space" and m where sp: "space_ok example_phys sp example_pool_frames" "used_frame sp example_pool_frames 0x6000"
    "sp_pt sp = ?pt" "sp_swap sp = example_partition m"
    by (rule example_space [OF length_replicate, of ?pt]) (rule that)
  have old: "sp_pt sp (page_start 0x400000) = Some (0x6000, {PRESENT, ACCESSED})" using sp(3) by (simp add: page_start_def)
  have pg: "page_start 0x400FFF = page_start 0x400000" by (simp add: page_start_def)
  have "0 \<notin> dom (space_slots sp)" using sp(4) by (simp add: dom_def swap_view_def example_partition_def Let_def)
  moreover have "0 < length (sw_free (sp_swap sp))" using sp(4) by (simp add: example_partition_def Let_def)
  ultimately have "dom (space_slots sp) \<noteq> {..<length (sw_free (sp_swap sp))}" by blast
  then obtain slot sp1 where e: "evict_addr example_phys simple_pt_ops vmm_new sp 0x400000 =
      Inr (True, record_swapped vmm_new (page_start 0x400000) slot ({PRESENT, ACCESSED} - {ACCESSED, DIRTY}), sp1)"
    "sp_pt sp1 = (sp_pt sp)(page_start 0x400000 := None)" "space_ok example_phys sp1 (0x6000 # example_pool_frames)"
    using evict_ok [where view = "\<lambda>pt. pt", OF simple_pt_laws sp(1,2) old, of vmm_new] by blast
  have free: "sp_pt sp1 (page_start 0x400000) = None" using e(2) by simp
  from eviction_round_trip [where view = "\<lambda>pt. pt", OF simple_pt_laws simple_pt_frame_laws sp(1,2) old e(1) refl map_le_refl e(3) _ free pg, of True]
  obtain sp3 v2 where "handle_fault example_phys simple_pt_ops
       (record_swapped vmm_new (page_start 0x400000) slot ({PRESENT, ACCESSED} - {ACCESSED, DIRTY})) sp1 0x400FFF True = Inr (Some (), v2, sp3)"
    "sp_pt sp3 = (sp_pt sp1)(page_start 0x400000 \<mapsto> (0x6000, {PRESENT, ACCESSED} - {ACCESSED, DIRTY}))"
    "frame_bytes sp3 0x6000 = frame_bytes sp 0x6000" by auto
  moreover have "{PRESENT, ACCESSED} - {ACCESSED, DIRTY} = {PRESENT}" "page_start 0x400000 = 0x400000" by (auto simp: page_start_def)
  ultimately show ?thesis using e(1) by (intro exI conjI) (assumption | simp)+
qed



end
