(* ===== verification/VmmFork.thy ===== *)
theory VmmFork
  imports FaultPaths
begin

text \<open>
  Changing the protection of a range of an address space and copying an address space on fork: what
  \<^verbatim>\<open>mprotect\<close> and \<^verbatim>\<open>fork_cow\<close> do to the areas and to the page tables.
\<close>

subsection \<open>Areas\<close>

definition areas_ok :: "vm_area list \<Rightarrow> bool" where
  "areas_ok xs \<longleftrightarrow> (\<forall>a\<in>set xs. va_start a < va_end a) \<and>
     sorted_wrt (\<lambda>a b. va_end a \<le> va_start b \<or> va_end b \<le> va_start a) xs"

abbreviation inside :: "nat \<Rightarrow> vm_area \<Rightarrow> bool" where
  "inside b a \<equiv> va_start a \<le> b \<and> b < va_end a"

definition flags_at :: "vmm \<Rightarrow> nat \<Rightarrow> pflags option" where
  "flags_at v b = map_option va_flags (find_area v b)"

lemma position_Some: "position Q xs = Some i \<Longrightarrow> i < length xs \<and> Q (xs ! i)"
  by (induction xs arbitrary: i) (auto split: if_splits)

lemma find_append: "find Q (xs @ ys) = (case find Q xs of None \<Rightarrow> find Q ys | Some y \<Rightarrow> Some y)"
  by (induction xs) auto

lemma areas_ok_append:
  "areas_ok (xs @ ys) \<longleftrightarrow> areas_ok xs \<and> areas_ok ys \<and>
     (\<forall>a\<in>set xs. \<forall>b\<in>set ys. va_end a \<le> va_start b \<or> va_end b \<le> va_start a)"
  by (auto simp: areas_ok_def sorted_wrt_append)

lemma areas_ok_split:
  assumes "inside addr area" "addr < e" "e \<le> va_end area"
  shows "areas_ok (split_area area addr e fl)"
    "\<And>a. a \<in> set (split_area area addr e fl) \<Longrightarrow> va_start area \<le> va_start a \<and> va_end a \<le> va_end area"
    "inside b area \<Longrightarrow> map_option va_flags (find (inside b) (split_area area addr e fl)) =
       Some (if addr \<le> b \<and> b < e then fl else va_flags area)"
  using assms by (auto simp: areas_ok_def)

declare split_area.simps [simp del]

lemma areas_replace:
  assumes ok: "areas_ok (xs @ area # ys)" and mid: "areas_ok mid"
    and sub: "\<And>a. a \<in> set mid \<Longrightarrow> va_start area \<le> va_start a \<and> va_end a \<le> va_end area"
  shows "areas_ok (xs @ mid @ ys)"
    "map_option va_flags (find (inside b) (xs @ mid @ ys)) =
       (if inside b area then map_option va_flags (find (inside b) mid)
        else map_option va_flags (find (inside b) (xs @ area # ys)))"
proof -
  have parts: "areas_ok xs" "areas_ok ys" "\<And>a c. a \<in> set xs \<Longrightarrow> c \<in> set ys \<Longrightarrow> va_end a \<le> va_start c \<or> va_end c \<le> va_start a"
    and area: "\<And>a. a \<in> set xs \<union> set ys \<Longrightarrow> va_end a \<le> va_start area \<or> va_end area \<le> va_start a"
    using ok by (auto simp: areas_ok_def sorted_wrt_append)
  have "va_end a \<le> va_start c \<or> va_end c \<le> va_start a" if "a \<in> set xs \<union> set ys" "c \<in> set mid" for a c
    using area [OF that(1)] sub [OF that(2)] by linarith
  then show "areas_ok (xs @ mid @ ys)"
    using parts mid unfolding areas_ok_append set_append by blast
  show "map_option va_flags (find (inside b) (xs @ mid @ ys)) =
       (if inside b area then map_option va_flags (find (inside b) mid)
        else map_option va_flags (find (inside b) (xs @ area # ys)))"
  proof (cases "inside b area")
    case True
    then have "find (inside b) xs = None" "find (inside b) ys = None"
      using area unfolding find_None_iff by fastforce+
    then show ?thesis using True by (simp add: find_append split: option.splits)
  next
    case False
    then have "find (inside b) mid = None" using sub unfolding find_None_iff by fastforce
    then show ?thesis using False by (auto simp: find_append split: option.splits)
  qed
qed

lemma page_count: "k < (n + 4095) div 4096 \<longleftrightarrow> 4096 * k < (n :: nat)"
  using less_eq_div_iff_mult_less_eq [of 4096 "Suc k" "n + 4095"] by (simp add: Suc_le_eq) linarith

lemma page_steps_pages:
  assumes "4096 dvd a" "4096 dvd p"
  shows "p \<in> set (page_steps a b) \<longleftrightarrow> a \<le> p \<and> p < b"
proof
  assume "p \<in> set (page_steps a b)"
  then obtain k where "p = a + 4096 * k" "k < (b - a + 4095) div 4096" by (auto simp: page_steps_def)
  then show "a \<le> p \<and> p < b" by (auto simp: page_count)
next
  assume p: "a \<le> p \<and> p < b"
  have "4096 dvd p - a" using assms by (rule dvd_diff_nat [rotated])
  then obtain k where "p - a = 4096 * k" by (rule dvdE)
  then have k: "p = a + 4096 * k" using p by linarith
  have "k < (b - a + 4095) div 4096" using p k by (auto simp: page_count)
  then show "p \<in> set (page_steps a b)" using k by (auto simp: page_steps_def)
qed

lemma page_steps_aligned: "4096 dvd a \<Longrightarrow> p \<in> set (page_steps a b) \<Longrightarrow> 4096 dvd p"
  by (auto simp: page_steps_def)

lemma page_steps_distinct: "distinct (page_steps a b)"
  by (simp add: page_steps_def distinct_map inj_on_def)

definition reflag :: "pflags \<Rightarrow> nat set \<Rightarrow> pt_view \<Rightarrow> pt_view" where
  "reflag fl S w = (\<lambda>p. if p \<in> S then map_option (\<lambda>(f, _). (f, fl)) (w p) else w p)"

lemma remap_loop_view:
  assumes laws: "pt_laws P view rep" and "\<forall>a\<in>set as. 4096 dvd a"
  shows "\<exists>pt'. remap_loop P fl as pt = Inr pt' \<and> view pt' = reflag fl (set as) (view pt)"
  using assms(2)
proof (induction as arbitrary: pt)
  case Nil
  then show ?case by (simp add: reflag_def)
next
  case (Cons a as)
  have a: "page_start a = a" using Cons.prems by (simp add: page_start_aligned)
  show ?case
  proof (cases "view pt a")
    case None
    obtain pt' where "remap_loop P fl as pt = Inr pt'" "view pt' = reflag fl (set as) (view pt)"
      using Cons by auto
    then show ?thesis using None a
      by (intro exI [of _ pt']) (auto simp: reflag_def translate_addr_def pt_laws_translate [OF laws] fun_eq_iff)
  next
    case (Some e)
    obtain f fl0 where e: "view pt a = Some (f, fl0)" using Some by (cases e) simp
    obtain pt1 where pt1: "remap_flags P pt a fl = Inr pt1" "view pt1 = (view pt)(a \<mapsto> (f, fl))"
      by (rule pt_laws_update [OF laws e])
    obtain pt' where "remap_loop P fl as pt1 = Inr pt'" "view pt' = reflag fl (set as) (view pt1)"
      using Cons.IH [of pt1] Cons.prems by auto
    then show ?thesis using pt1 e a
      by (intro exI [of _ pt']) (auto simp: reflag_def translate_addr_def pt_laws_translate [OF laws] pt_laws_page_of [OF laws] fun_eq_iff)
  qed
qed

subsection \<open>Protection\<close>

text \<open>
  C22. Protection changes are exact. When \<^verbatim>\<open>mprotect\<close> succeeds on a page-aligned range of an address
  space whose areas do not overlap, the areas still do not overlap, every address of the range has the new
  flags and every other address the flags it had; the mapped pages of the range have the new flags and keep
  their frames, and all other mappings are unchanged. The record of swapped-out pages, which holds the flags
  such pages return with, is not changed.
\<close>

theorem mprotect_exact:
  assumes "pt_laws P view rep" "areas_ok (vm_areas v)" "4096 dvd addr" "0 < len"
    and "mprotect P v pt addr len fl = Inr (Some (), v', pt')"
  shows "areas_ok (vm_areas v') \<and>
     (\<forall>b. flags_at v' b = (if addr \<le> b \<and> b < addr + len then Some fl else flags_at v b)) \<and>
     (\<forall>p. 4096 dvd p \<longrightarrow> view pt' p =
        (if addr \<le> p \<and> p < addr + len then map_option (\<lambda>(f, _). (f, fl)) (view pt p) else view pt p)) \<and>
     vm_swapped v' = vm_swapped v"
proof -
  let ?e = "addr + len" and ?xs = "vm_areas v"
  obtain i where i: "position (inside addr) ?xs = Some i" "?e \<le> va_end (?xs ! i)"
    and r: "remap_loop P fl (page_steps addr ?e) pt = Inr pt'"
    and v': "v' = v\<lparr>vm_areas := take i ?xs @ split_area (?xs ! i) addr ?e fl @ drop (i + 1) ?xs\<rparr>"
    using assms(5) by (auto simp: mprotect_def Let_def split: option.splits if_splits)
  define pre area post where parts: "pre = take i ?xs" "area = ?xs ! i" "post = drop (i + 1) ?xs"
  have at: "i < length ?xs" "inside addr area" using position_Some [OF i(1)] parts(2) by simp_all
  have xs: "?xs = pre @ area # post" unfolding parts using id_take_nth_drop [OF at(1)] by simp
  have e: "?e \<le> va_end area" "addr < ?e" using assms(4) i(2) parts(2) by simp_all
  have v'': "vm_areas v' = pre @ split_area area addr ?e fl @ post" using v' parts by simp
  note sp = areas_ok_split [OF at(2) e(2,1), where fl = fl]
  have ok: "areas_ok (pre @ area # post)" using assms(2) xs by simp
  note rep = areas_replace [OF ok sp(1,2)]
  have "flags_at v' b = (if addr \<le> b \<and> b < ?e then Some fl else flags_at v b)" for b
  proof (cases "inside b area")
    case True
    have "areas_ok [area]" using ok by (simp add: areas_ok_def)
    then have "map_option va_flags (find (inside b) (pre @ [area] @ post)) = map_option va_flags (find (inside b) [area])"
      using areas_replace(2) [OF ok, of "[area]" b] True by simp
    then have "flags_at v b = Some (va_flags area)" using True xs by (simp add: flags_at_def find_area_def)
    moreover have "flags_at v' b = Some (if addr \<le> b \<and> b < ?e then fl else va_flags area)"
      using rep(2) [of b] sp(3) [OF True] True by (simp add: flags_at_def find_area_def v'')
    ultimately show ?thesis by simp
  next
    case False
    then have "\<not> (addr \<le> b \<and> b < ?e)" using at(2) e by auto
    moreover have "flags_at v' b = flags_at v b"
      using rep(2) [of b] False xs by (auto simp: flags_at_def find_area_def v'')
    ultimately show ?thesis by auto
  qed
  moreover obtain pt'' where "remap_loop P fl (page_steps addr ?e) pt = Inr pt''" "view pt'' = reflag fl (set (page_steps addr ?e)) (view pt)"
    using remap_loop_view [OF assms(1), of "page_steps addr ?e" fl pt] page_steps_aligned [OF assms(3)] by blast
  then have "view pt' p = (if addr \<le> p \<and> p < ?e then map_option (\<lambda>(f, _). (f, fl)) (view pt p) else view pt p)" if "4096 dvd p" for p
    using r page_steps_pages [OF assms(3) that, of ?e] by (simp add: reflag_def)
  moreover have "areas_ok (vm_areas v')" using rep(1) v'' by simp
  ultimately show ?thesis by (simp add: v')
qed

theorem mprotect_exact_witness:
  "\<exists>v' pt'. mprotect (simple_pt_ops :: (pt_view, unit) pt_ops) (add_area vmm_new example_area) [0x401000 \<mapsto> (0x6000, {PRESENT, WRITABLE})] 0x401000 4096 {PRESENT} =
       Inr (Some (), v', pt') \<and>
     flags_at v' 0x400FFF = Some {PRESENT, WRITABLE} \<and> flags_at v' 0x401000 = Some {PRESENT} \<and> pt' 0x401000 = Some (0x6000, {PRESENT})"
proof -
  let ?P = "simple_pt_ops :: (pt_view, unit) pt_ops"
  let ?v = "add_area vmm_new example_area" and ?pt = "[0x401000 \<mapsto> (0x6000, {PRESENT, WRITABLE})]"
  have "\<forall>a\<in>set (page_steps 0x401000 0x402000). 4096 dvd a" using page_steps_aligned [of "0x401000"] by simp
  then obtain pt' where "remap_loop ?P {PRESENT} (page_steps 0x401000 0x402000) ?pt = Inr pt'"
    using remap_loop_view [OF simple_pt_laws, of "page_steps 0x401000 0x402000" "{PRESENT}" ?pt] by blast
  then have "\<exists>v'. mprotect ?P ?v ?pt 0x401000 4096 {PRESENT} = Inr (Some (), v', pt')"
    by (simp add: mprotect_def add_u64_def U64_LIMIT_def add_area_def vmm_new_def example_area_def)
  then obtain v' where m: "mprotect ?P ?v ?pt 0x401000 4096 {PRESENT} = Inr (Some (), v', pt')" by blast
  have ok: "areas_ok (vm_areas ?v)" by (simp add: areas_ok_def add_area_def vmm_new_def example_area_def)
  have "flags_at ?v 0x400FFF = Some {PRESENT, WRITABLE}"
    by (simp add: flags_at_def find_area_def add_area_def vmm_new_def example_area_def)
  with mprotect_exact [where view = "\<lambda>pt. pt", OF simple_pt_laws ok _ _ m] m show ?thesis by auto
qed

subsection \<open>Copy-on-write fork\<close>

text \<open>The frames of a page table are page aligned.\<close>

definition frames_aligned :: "pt_view \<Rightarrow> bool" where
  "frames_aligned w \<longleftrightarrow> (\<forall>p f fl. w p = Some (f, fl) \<longrightarrow> 4096 dvd f)"

lemma frames_aligned_reflag: "frames_aligned w \<Longrightarrow> frames_aligned (reflag fl S w)"
  by (auto simp: frames_aligned_def reflag_def split: if_splits)

text \<open>The child's view of the pages \<open>S\<close>: the parent's frames with the flags \<open>ro\<close>.\<close>

definition share :: "pflags \<Rightarrow> nat set \<Rightarrow> pt_view \<Rightarrow> pt_view \<Rightarrow> pt_view" where
  "share ro S parent w = (\<lambda>p. if p \<in> S then map_option (\<lambda>(f, _). (f, ro)) (parent p) else w p)"

lemma cow_loop_view:
  assumes laws: "pt_laws P view (fl_rep_at x PHYS_MEM_OFFSET)" "pt_frame_laws x P"
  shows "\<forall>a\<in>set as. 4096 dvd a \<and> view (sp_pt sp) a = None \<Longrightarrow> distinct as \<Longrightarrow> frames_aligned (view parent) \<Longrightarrow>
    space_ok x sp fs \<Longrightarrow> 3 * length as \<le> length fs \<Longrightarrow>
    \<exists>parent' sp' n. cow_loop x P ro as parent sp = Inr (parent', sp') \<and> view parent' = reflag ro (set as) (view parent) \<and>
      view (sp_pt sp') = share ro (set as) (view parent) (view (sp_pt sp)) \<and> n \<le> 3 * length as \<and> space_ok x sp' (drop n fs)"
proof (induction as arbitrary: parent sp fs)
  case Nil
  then show ?case by (auto simp: reflag_def share_def intro!: exI [of _ 0])
next
  case (Cons a as)
  have a: "page_start a = a" "page_of P a = a" using Cons.prems(1) by (simp_all add: page_start_aligned pt_laws_page_of [OF laws(1)])
  show ?case
  proof (cases "view parent a")
    case None
    obtain parent' sp' n where "cow_loop x P ro as parent sp = Inr (parent', sp')" "view parent' = reflag ro (set as) (view parent)"
      "view (sp_pt sp') = share ro (set as) (view parent) (view (sp_pt sp))" "n \<le> 3 * length as" "space_ok x sp' (drop n fs)"
      using Cons.IH [of sp parent fs] Cons.prems by auto
    then show ?thesis using None a Cons.prems(1)
      by (intro exI [of _ parent'] exI [of _ sp'] exI [of _ n])
         (auto simp: reflag_def share_def translate_addr_def pt_laws_translate [OF laws(1)] fun_eq_iff)
  next
    case (Some e)
    obtain f fl0 where e: "view parent a = Some (f, fl0)" using Some by (cases e) simp
    have "phys_laws x" using space_okD(1) [OF Cons.prems(4)] by (simp add: fl_rep_at_def fl_rep_def)
    moreover have "4096 dvd f" "a mod 4096 = 0" using Cons.prems(1,3) e by (auto simp: frames_aligned_def)
    ultimately have ca: "containing_address x (f + a mod 4096) = f" by (simp add: phys_laws_def)
    obtain parent1 where p1: "remap_flags P parent a ro = Inr parent1" "view parent1 = (view parent)(a \<mapsto> (f, ro))"
      by (rule pt_laws_update [OF laws(1) e])
    have len: "3 \<le> length fs" "view (sp_pt sp) a = None" using Cons.prems(1,5) by simp_all
    obtain sp1 n1 where s1: "space_map P sp a f ro = Inr sp1" "view (sp_pt sp1) = (view (sp_pt sp))(a \<mapsto> (f, ro))" "n1 \<le> 3"
      "space_ok x sp1 (drop n1 fs)"
      by (rule space_map_frames [OF laws Cons.prems(4) len, of f ro]) (rule that)
    have al: "frames_aligned (view parent1)" using Cons.prems(3) \<open>4096 dvd f\<close> p1(2) by (simp add: frames_aligned_def)
    have len1: "3 * length as \<le> length (drop n1 fs)" using Cons.prems(5) s1(3) by simp
    have fr: "\<forall>b\<in>set as. 4096 dvd b \<and> view (sp_pt sp1) b = None" using Cons.prems(1,2) s1(2) by auto
    obtain parent' sp' n where r: "cow_loop x P ro as parent1 sp1 = Inr (parent', sp')" "view parent' = reflag ro (set as) (view parent1)"
      "view (sp_pt sp') = share ro (set as) (view parent1) (view (sp_pt sp1))" "n \<le> 3 * length as" "space_ok x sp' (drop n (drop n1 fs))"
      using Cons.IH [OF fr _ al s1(4) len1] Cons.prems(2) by auto
    have "cow_loop x P ro (a # as) parent sp = Inr (parent', sp')"
      using e a ca p1(1) s1(1) r(1) by (simp add: translate_addr_def pt_laws_translate [OF laws(1)] Let_def)
    moreover have "view parent' = reflag ro (set (a # as)) (view parent)"
      using r(2) p1(2) e by (auto simp: reflag_def fun_eq_iff)
    moreover have "view (sp_pt sp') = share ro (set (a # as)) (view parent) (view (sp_pt sp))"
      using r(3) p1(2) s1(2) e Cons.prems(2) by (auto simp: share_def fun_eq_iff)
    moreover have "space_ok x sp' (drop (n1 + n) fs)" "n1 + n \<le> 3 * length (a # as)" using r(4,5) s1(3) by (simp_all add: add.commute)
    ultimately show ?thesis by blast
  qed
qed

abbreviation area_pages :: "vm_area \<Rightarrow> nat list" where
  "area_pages a \<equiv> page_steps (va_start a) (va_end a)"

text \<open>The mapping of page \<open>p\<close> after the areas \<open>xs\<close> are shared: read-only, in the frame it had.\<close>

definition shared_entry :: "vm_area list \<Rightarrow> pt_view \<Rightarrow> nat \<Rightarrow> (nat \<times> pflags) option \<Rightarrow> (nat \<times> pflags) option" where
  "shared_entry xs parent p e =
     (case find (inside p) xs of None \<Rightarrow> e
      | Some a \<Rightarrow> map_option (\<lambda>(f, _). (f, va_flags a - {WRITABLE})) (parent p))"

lemma cow_areas_view:
  assumes laws: "pt_laws P view (fl_rep_at x PHYS_MEM_OFFSET)" "pt_frame_laws x P"
  shows "areas_ok xs \<Longrightarrow> \<forall>a\<in>set xs. 4096 dvd va_start a \<Longrightarrow> \<forall>a\<in>set xs. \<forall>p\<in>set (area_pages a). view (sp_pt sp) p = None \<Longrightarrow>
    frames_aligned (view parent) \<Longrightarrow> space_ok x sp fs \<Longrightarrow> 3 * (\<Sum>a\<leftarrow>xs. length (area_pages a)) \<le> length fs \<Longrightarrow>
    \<exists>parent' sp' n. cow_areas x P xs child parent sp = Inr (child\<lparr>vm_areas := vm_areas child @ xs\<rparr>, parent', sp') \<and>
      (\<forall>p. 4096 dvd p \<longrightarrow> view parent' p = shared_entry xs (view parent) p (view parent p) \<and>
         view (sp_pt sp') p = shared_entry xs (view parent) p (view (sp_pt sp) p)) \<and> space_ok x sp' (drop n fs)"
proof (induction xs arbitrary: child parent sp fs)
  case Nil
  then show ?case by (auto simp: shared_entry_def intro!: exI [of _ 0])
next
  case (Cons a xs)
  let ?S = "set (area_pages a)" and ?ro = "va_flags a - {WRITABLE}"
  have al: "4096 dvd va_start a" using Cons.prems(2) by simp
  have S: "p \<in> ?S \<longleftrightarrow> inside p a" if "4096 dvd p" for p using page_steps_pages [OF al that] .
  have ok: "areas_ok xs" "\<And>p b. inside p a \<Longrightarrow> b \<in> set xs \<Longrightarrow> \<not> inside p b" using Cons.prems(1) unfolding areas_ok_def by (simp, simp, meson leD le_less_trans less_le_trans)
  have "\<forall>p\<in>?S. 4096 dvd p \<and> view (sp_pt sp) p = None" using page_steps_aligned [OF al] Cons.prems(3) by auto
  moreover have "3 * length (area_pages a) \<le> length fs" using Cons.prems(6) by simp
  ultimately obtain parent1 sp1 n where s1: "cow_loop x P ?ro (area_pages a) parent sp = Inr (parent1, sp1)"
    "view parent1 = reflag ?ro ?S (view parent)" "view (sp_pt sp1) = share ?ro ?S (view parent) (view (sp_pt sp))"
    "n \<le> 3 * length (area_pages a)" "space_ok x sp1 (drop n fs)"
    using cow_loop_view [OF laws _ page_steps_distinct Cons.prems(4,5), where ro = ?ro] by blast
  have pages: "\<forall>b\<in>set xs. \<forall>p\<in>set (area_pages b). view (sp_pt sp1) p = None"
  proof (intro ballI)
    fix b p assume b: "b \<in> set xs" "p \<in> set (area_pages b)"
    have d: "4096 dvd va_start b" using Cons.prems(2) b(1) by simp
    then have p: "4096 dvd p" using page_steps_aligned b(2) by blast
    have "inside p b" using page_steps_pages [OF d p] b(2) by simp
    then have "p \<notin> ?S" unfolding S [OF p] using ok(2) [of p, OF _ b(1)] by metis
    then show "view (sp_pt sp1) p = None" using Cons.prems(3) b by (simp add: s1(3) share_def)
  qed
  have fa: "frames_aligned (view parent1)" using frames_aligned_reflag [OF Cons.prems(4)] s1(2) by simp
  have len: "3 * (\<Sum>b\<leftarrow>xs. length (area_pages b)) \<le> length (drop n fs)" using Cons.prems(6) s1(4) by simp
  have "\<forall>b\<in>set xs. 4096 dvd va_start b" using Cons.prems(2) by simp
  from Cons.IH [OF ok(1) this pages fa s1(5) len, of "add_area child a"]
  obtain parent' sp' k where r: "cow_areas x P xs (add_area child a) parent1 sp1 =
      Inr ((add_area child a)\<lparr>vm_areas := vm_areas (add_area child a) @ xs\<rparr>, parent', sp')"
    "\<And>p. 4096 dvd p \<Longrightarrow> view parent' p = shared_entry xs (view parent1) p (view parent1 p)"
    "\<And>p. 4096 dvd p \<Longrightarrow> view (sp_pt sp') p = shared_entry xs (view parent1) p (view (sp_pt sp1) p)"
    "space_ok x sp' (drop k (drop n fs))" by blast
  have "shared_entry xs (view parent1) p (view parent1 p) = shared_entry (a # xs) (view parent) p (view parent p) \<and>
      shared_entry xs (view parent1) p (view (sp_pt sp1) p) = shared_entry (a # xs) (view parent) p (view (sp_pt sp) p)" if "4096 dvd p" for p
  proof (cases "inside p a")
    case True
    then have "find (inside p) xs = None" using ok(2) unfolding find_None_iff by blast
    then show ?thesis using True S [OF that] by (simp add: shared_entry_def s1(2,3) reflag_def share_def)
  next
    case False
    then have "find (inside p) (a # xs) = find (inside p) xs" "p \<notin> ?S" using S [OF that] by auto
    then show ?thesis unfolding shared_entry_def by (simp only: s1(2,3) reflag_def share_def if_False)
  qed
  moreover have "cow_areas x P (a # xs) child parent sp = Inr (child\<lparr>vm_areas := vm_areas child @ a # xs\<rparr>, parent', sp')"
    using s1(1) r(1) by (simp add: add_area_def)
  ultimately show ?case using r(2-4) unfolding drop_drop by (intro exI [of _ parent'] exI [of _ sp'] exI [of _ "k + n"]) simp
qed



end
