(* ===== verification/Task.thy ===== *)
theory Task
  imports Prelude
begin

text \<open>
  Tasks, their identifiers and the task registry (\<^verbatim>\<open>process/pid.rs\<close>, \<^verbatim>\<open>process/task.rs\<close>,
  \<^verbatim>\<open>process/table.rs\<close>), and the signal state of a task (\<^verbatim>\<open>process/signal.rs\<close>). The address-space
  description of a task is the type parameter \<open>'v\<close>. Kernel stacks are memory: the address of a new
  stack is an argument of the constructors, as the heap decides it, and so are the addresses of the
  trampolines, which the linker decides.
\<close>

unbundle bit_operations_syntax

subsection \<open>Identifiers\<close>

record id_counters =
  next_pid :: nat
  next_tid :: nat

definition initial_ids :: id_counters where
  "initial_ids = \<lparr>next_pid = 1, next_tid = 1\<rparr>"

definition pid_next :: "id_counters \<Rightarrow> nat \<times> id_counters" where
  "pid_next ids = (next_pid ids, ids\<lparr>next_pid := (next_pid ids + 1) mod U64_LIMIT\<rparr>)"

definition tid_next :: "id_counters \<Rightarrow> nat \<times> id_counters" where
  "tid_next ids = (next_tid ids, ids\<lparr>next_tid := (next_tid ids + 1) mod U64_LIMIT\<rparr>)"

subsection \<open>Signal state\<close>

definition MAX_SIGNALS :: nat where
  "MAX_SIGNALS = 32"

record signal_state =
  sg_pending :: u32
  sg_handlers :: "nat list"

definition signals_new :: signal_state where
  "signals_new = \<lparr>sg_pending = 0, sg_handlers = replicate MAX_SIGNALS 0\<rparr>"

definition set_pending :: "signal_state \<Rightarrow> u8 \<Rightarrow> signal_state" where
  "set_pending s signum =
     (if unat signum < MAX_SIGNALS then s\<lparr>sg_pending := sg_pending s OR push_bit (unat signum) 1\<rparr> else s)"

definition clear_pending :: "signal_state \<Rightarrow> u8 \<Rightarrow> signal_state" where
  "clear_pending s signum =
     (if unat signum < MAX_SIGNALS then s\<lparr>sg_pending := sg_pending s AND NOT (push_bit (unat signum) 1)\<rparr> else s)"

definition set_handler :: "signal_state \<Rightarrow> u8 \<Rightarrow> nat \<Rightarrow> signal_state" where
  "set_handler s signum handler =
     (if unat signum < MAX_SIGNALS then s\<lparr>sg_handlers := (sg_handlers s)[unat signum := handler]\<rparr> else s)"

fun trailing_zeros_from :: "nat \<Rightarrow> u32 \<Rightarrow> nat" where
  "trailing_zeros_from 0 w = 0"
| "trailing_zeros_from (Suc n) w = (if bit w 0 then 0 else Suc (trailing_zeros_from n (drop_bit 1 w)))"

definition trailing_zeros :: "u32 \<Rightarrow> nat" where
  "trailing_zeros w = trailing_zeros_from 32 w"

definition next_pending :: "signal_state \<Rightarrow> (u8 \<times> nat) option res" where
  "next_pending s =
     (if sg_pending s = 0 then Inr None
      else let signum = word_of_nat (trailing_zeros (sg_pending s)) :: u8
           in if unat signum < length (sg_handlers s) then Inr (Some (signum, sg_handlers s ! unat signum))
              else Inl IndexOutOfBounds)"

subsection \<open>Tasks\<close>

datatype task_state = Running | Ready | Blocked | Zombie

record per_cpu_scratch =
  user_rsp_scratch :: nat
  kernel_rsp :: nat

definition scratch_new :: "nat \<Rightarrow> per_cpu_scratch" where
  "scratch_new kernel_stack_top = \<lparr>user_rsp_scratch = 0, kernel_rsp = kernel_stack_top\<rparr>"

record 'v task =
  t_pid :: nat
  t_tid :: nat
  t_thread_group :: nat
  t_state :: task_state
  t_rsp :: nat
  t_cr3 :: nat
  t_preempt_count :: nat
  t_priority :: nat
  t_parent :: "nat option"
  t_children :: "nat list"
  t_exit_code :: "int option"
  t_vmm :: 'v
  t_kernel_stack_top :: nat
  t_scratch :: per_cpu_scratch
  t_user_entry :: nat
  t_user_stack :: nat
  t_uid :: nat
  t_gid :: nat
  t_heap_start :: nat
  t_brk :: nat
  t_signals :: signal_state
  t_kernel_stack :: nat

definition KERNEL_STACK_SIZE :: nat where
  "KERNEL_STACK_SIZE = 64 * 1024"

definition GUARD_SIZE :: nat where
  "GUARD_SIZE = 4096"

definition GUARD_POISON :: u8 where
  "GUARD_POISON = 0xDE"

definition alloc_kernel_stack :: "memory \<Rightarrow> nat \<Rightarrow> memory \<times> nat" where
  "alloc_kernel_stack m base =
     (let m1 = write_bytes m base (replicate (KERNEL_STACK_SIZE + GUARD_SIZE) 0);
          m2 = write_bytes m1 base (replicate GUARD_SIZE GUARD_POISON);
          stk = (base + (KERNEL_STACK_SIZE + GUARD_SIZE)) div 16 * 16
      in (m2, stk))"

text \<open>
  The initial kernel stack: the context switch pops six callee-saved registers and returns to
  the trampoline, whose \<^verbatim>\<open>ret\<close> enters the task.
\<close>

definition setup_stack :: "memory \<Rightarrow> nat \<Rightarrow> nat \<Rightarrow> nat \<Rightarrow> memory \<times> nat" where
  "setup_stack m stk entry trampoline =
     (let m1 = store_u64 m (stk - 8) (word_of_nat entry);
          m2 = store_u64 m1 (stk - 16) (word_of_nat trampoline);
          m3 = store_u64 m2 (stk - 24) 0;
          m4 = store_u64 m3 (stk - 32) 0;
          m5 = store_u64 m4 (stk - 40) 0;
          m6 = store_u64 m5 (stk - 48) 0;
          m7 = store_u64 m6 (stk - 56) 0;
          m8 = store_u64 m7 (stk - 64) 0
      in (m8, stk - 64))"

definition task_new :: "id_counters \<Rightarrow> memory \<Rightarrow> nat \<Rightarrow> 'v \<Rightarrow> nat \<Rightarrow> nat \<Rightarrow> nat \<Rightarrow> nat \<Rightarrow> nat option \<Rightarrow>
    'v task \<times> id_counters \<times> memory" where
  "task_new ids m base empty_vmm cr3 trampoline entry priority parent =
     (let (m1, stk) = alloc_kernel_stack m base;
          (m2, rsp) = setup_stack m1 stk entry trampoline;
          (pid, ids1) = pid_next ids; (tid, ids2) = tid_next ids1
      in (\<lparr>t_pid = pid, t_tid = tid, t_thread_group = pid, t_state = Ready, t_rsp = rsp, t_cr3 = cr3,
           t_preempt_count = 0, t_priority = priority, t_parent = parent, t_children = [], t_exit_code = None,
           t_vmm = empty_vmm, t_kernel_stack_top = stk, t_scratch = scratch_new stk, t_user_entry = 0,
           t_user_stack = 0, t_uid = 0, t_gid = 0, t_heap_start = 0, t_brk = 0, t_signals = signals_new,
           t_kernel_stack = base\<rparr>, ids2, m2))"

definition clone_thread :: "'v task \<Rightarrow> id_counters \<Rightarrow> memory \<Rightarrow> nat \<Rightarrow> 'v \<Rightarrow> nat \<Rightarrow> nat \<Rightarrow> nat \<Rightarrow>
    'v task \<times> id_counters \<times> memory" where
  "clone_thread self ids m base empty_vmm trampoline entry priority =
     (let (m1, stk) = alloc_kernel_stack m base;
          (m2, rsp) = setup_stack m1 stk entry trampoline;
          (tid, ids1) = tid_next ids
      in (\<lparr>t_pid = t_pid self, t_tid = tid, t_thread_group = t_thread_group self, t_state = Ready, t_rsp = rsp,
           t_cr3 = t_cr3 self, t_preempt_count = 0, t_priority = priority, t_parent = t_parent self, t_children = [],
           t_exit_code = None, t_vmm = empty_vmm, t_kernel_stack_top = stk, t_scratch = scratch_new stk,
           t_user_entry = 0, t_user_stack = 0, t_uid = t_uid self, t_gid = t_gid self, t_heap_start = 0, t_brk = 0,
           t_signals = signals_new, t_kernel_stack = base\<rparr>, ids1, m2))"

definition fork_kernel :: "'v task \<Rightarrow> id_counters \<Rightarrow> memory \<Rightarrow> nat \<Rightarrow> 'v \<Rightarrow> nat \<Rightarrow> nat \<Rightarrow> nat \<Rightarrow>
    'v task \<times> id_counters \<times> memory" where
  "fork_kernel self ids m base empty_vmm trampoline entry priority =
     (let (m1, stk) = alloc_kernel_stack m base;
          (m2, rsp) = setup_stack m1 stk entry trampoline;
          (pid, ids1) = pid_next ids; (tid, ids2) = tid_next ids1
      in (\<lparr>t_pid = pid, t_tid = tid, t_thread_group = pid, t_state = Ready, t_rsp = rsp, t_cr3 = 0,
           t_preempt_count = 0, t_priority = priority, t_parent = Some (t_pid self), t_children = [],
           t_exit_code = None, t_vmm = empty_vmm, t_kernel_stack_top = stk, t_scratch = scratch_new stk,
           t_user_entry = 0, t_user_stack = 0, t_uid = t_uid self, t_gid = t_gid self,
           t_heap_start = t_heap_start self, t_brk = t_brk self,
           t_signals = \<lparr>sg_pending = 0, sg_handlers = sg_handlers (t_signals self)\<rparr>,
           t_kernel_stack = base\<rparr>, ids2, m2))"

definition new_user :: "id_counters \<Rightarrow> memory \<Rightarrow> nat \<Rightarrow> nat \<Rightarrow> nat \<Rightarrow> nat \<Rightarrow> nat \<Rightarrow> nat \<Rightarrow> 'v \<Rightarrow> nat \<Rightarrow>
    'v task \<times> id_counters \<times> memory" where
  "new_user ids m base trampoline user_trampoline entry user_stack cr3 vmm priority =
     (let (m1, stk) = alloc_kernel_stack m base;
          (m2, rsp) = setup_stack m1 stk user_trampoline trampoline;
          (pid, ids1) = pid_next ids; (tid, ids2) = tid_next ids1
      in (\<lparr>t_pid = pid, t_tid = tid, t_thread_group = pid, t_state = Ready, t_rsp = rsp, t_cr3 = cr3,
           t_preempt_count = 0, t_priority = priority, t_parent = None, t_children = [], t_exit_code = None,
           t_vmm = vmm, t_kernel_stack_top = stk, t_scratch = scratch_new stk, t_user_entry = entry,
           t_user_stack = user_stack, t_uid = 0, t_gid = 0, t_heap_start = 0, t_brk = 0, t_signals = signals_new,
           t_kernel_stack = base\<rparr>, ids2, m2))"

definition check_stack_canary :: "memory \<Rightarrow> 'v task \<Rightarrow> unit res" where
  "check_stack_canary m t =
     (if list_ex (\<lambda>b. b \<noteq> GUARD_POISON) (read_bytes m (t_kernel_stack t + (GUARD_SIZE - 8)) 8)
      then Inl ExpectFailed else Inr ())"

subsection \<open>The task registry\<close>

text \<open>
  Tasks are shared objects (\<^verbatim>\<open>Arc<Spinlock<Task>>\<close>) kept alive by the queues as well as by the
  table. They live in a store indexed by thread id; the table is the set of the ids it holds.
\<close>

type_synonym 'v tasks = "nat \<Rightarrow> 'v task"

definition table_get :: "nat set \<Rightarrow> nat \<Rightarrow> nat option" where
  "table_get tbl tid = (if tid \<in> tbl then Some tid else None)"

definition table_insert :: "nat set \<Rightarrow> nat \<Rightarrow> nat set" where
  "table_insert tbl tid = insert tid tbl"

definition table_remove :: "nat set \<Rightarrow> nat \<Rightarrow> nat set" where
  "table_remove tbl tid = tbl - {tid}"

definition all_tids :: "nat set \<Rightarrow> nat list" where
  "all_tids tbl = sorted_list_of_set tbl"

subsection \<open>The initial stack frame\<close>

lemma setup_stack_frame:
  assumes "64 \<le> stk" "entry < U64_LIMIT" "trampoline < U64_LIMIT"
  shows "snd (setup_stack m stk entry trampoline) = stk - 64"
    and "i < 6 \<Longrightarrow> load_u64 (fst (setup_stack m stk entry trampoline)) (stk - 64 + 8 * i) = 0"
    and "load_u64 (fst (setup_stack m stk entry trampoline)) (stk - 64 + 48) = word_of_nat trampoline"
    and "load_u64 (fst (setup_stack m stk entry trampoline)) (stk - 64 + 56) = word_of_nat entry"
proof -
  obtain b where b: "stk = b + 64" using assms(1) by (metis add.commute le_add_diff_inverse)
  show "snd (setup_stack m stk entry trampoline) = stk - 64" by (simp add: setup_stack_def Let_def)
  show "load_u64 (fst (setup_stack m stk entry trampoline)) (stk - 64 + 8 * i) = 0" if "i < 6"
  proof -
    have "i = 0 \<or> i = 1 \<or> i = 2 \<or> i = 3 \<or> i = 4 \<or> i = 5" using that by linarith
    then show ?thesis
      unfolding b setup_stack_def Let_def by (elim disjE) (simp_all add: load_store_u64_other add.commute [of b])
  qed
  show "load_u64 (fst (setup_stack m stk entry trampoline)) (stk - 64 + 48) = word_of_nat trampoline"
    "load_u64 (fst (setup_stack m stk entry trampoline)) (stk - 64 + 56) = word_of_nat entry"
    unfolding b setup_stack_def Let_def by (simp_all add: load_store_u64_other add.commute [of b])
qed

end
