(* ===== verification/Reaper.thy ===== *)
theory Reaper
  imports VmmFork Task
begin

text \<open>
  The page reaper of \<^verbatim>\<open>memory/swap.rs\<close>: the victim list over all user tasks, three sweeps of second-chance
  replacement over it, and the loop that repeats them until the pool of free frames has reached its target. A
  task is named by its thread id, a page table by the frame in the \<^verbatim>\<open>cr3\<close> field of its task. The sweeps are one
  sequence of steps: no other task runs between them.
\<close>

definition POOL_MIN :: nat where
  "POOL_MIN = 64"

definition POOL_MAX :: nat where
  "POOL_MAX = 256"

record 'pt mm =
  mm_tasks :: "vmm tasks"
  mm_table :: "nat set"
  mm_pts :: "nat \<Rightarrow> 'pt"
  mm_fl :: free_list
  mm_mem :: memory
  mm_swap :: swap_partition

text \<open>\<^verbatim>\<open>PageMapper::new_from_frame\<close>: the state with the table of a task, and the state put back.\<close>

definition mm_space :: "'pt mm \<Rightarrow> nat \<Rightarrow> 'pt space" where
  "mm_space s cr3 = \<lparr>sp_pt = mm_pts s cr3, sp_fl = mm_fl s, sp_mem = mm_mem s, sp_swap = mm_swap s\<rparr>"

definition mm_put :: "'pt mm \<Rightarrow> nat \<Rightarrow> nat \<Rightarrow> vmm \<Rightarrow> 'pt space \<Rightarrow> 'pt mm" where
  "mm_put s tid cr3 v sp = s\<lparr>mm_tasks := (mm_tasks s)(tid := (mm_tasks s tid)\<lparr>t_vmm := v\<rparr>),
     mm_pts := (mm_pts s)(cr3 := sp_pt sp), mm_fl := sp_fl sp, mm_mem := sp_mem sp, mm_swap := sp_swap sp\<rparr>"

subsection \<open>The victim list\<close>

record candidate =
  c_tid :: nat
  c_cr3 :: nat
  c_vaddr :: nat

record task_pages =
  tp_tid :: nat
  tp_cr3 :: nat
  tp_vsize :: nat
  tp_resident :: "nat list"

fun areas_size :: "vm_area list \<Rightarrow> nat \<Rightarrow> nat res" where
  "areas_size [] vsize = Inr vsize"
| "areas_size (a # as) vsize =
     (if va_end a < va_start a then Inl Overflow else rbind (add_u64 vsize (va_end a - va_start a)) (areas_size as))"

definition resident_pages :: "('pt, 'fa) pt_ops \<Rightarrow> 'pt \<Rightarrow> vm_area list \<Rightarrow> nat list" where
  "resident_pages P pt areas =
     concat (map (\<lambda>a. filter (\<lambda>p. translate_addr P pt p \<noteq> None) (page_steps (va_start a) (va_end a))) areas)"

fun gather_tasks :: "('pt, 'fa) pt_ops \<Rightarrow> 'pt mm \<Rightarrow> nat list \<Rightarrow> nat \<Rightarrow> (task_pages list \<times> nat) res" where
  "gather_tasks P s [] total_vsize = Inr ([], total_vsize)"
| "gather_tasks P s (t # ts) total_vsize =
     (let task = mm_tasks s t
      in if t_user_entry task = 0 then gather_tasks P s ts total_vsize
         else rbind (areas_size (vm_areas (t_vmm task)) 0) (\<lambda>vsize.
              rbind (add_u64 total_vsize vsize) (\<lambda>total_vsize1.
              rbind (gather_tasks P s ts total_vsize1) (\<lambda>(rest, total_vsize2).
              Inr (\<lparr>tp_tid = t, tp_cr3 = t_cr3 task, tp_vsize = vsize,
                    tp_resident = resident_pages P (mm_pts s (t_cr3 task)) (vm_areas (t_vmm task))\<rparr> # rest, total_vsize2)))))"

text \<open>
  Pages over the share of a task. The product is taken in 128 bits; the quotient is at most the number of resident
  pages, so the subtraction in 64 bits does not overflow.
\<close>

definition page_share :: "nat \<Rightarrow> nat \<Rightarrow> nat \<Rightarrow> int" where
  "page_share vsize total_resident total_vsize =
     (if total_vsize > 0 then sint (word_of_nat (vsize * total_resident div total_vsize) :: u64) else 0)"

definition score_task :: "nat \<Rightarrow> nat \<Rightarrow> task_pages \<Rightarrow> (int \<times> candidate) list" where
  "score_task total_resident total_vsize tp =
     (let excess = int (length (tp_resident tp)) - page_share (tp_vsize tp) total_resident total_vsize
      in map (\<lambda>a. (excess, \<lparr>c_tid = tp_tid tp, c_cr3 = tp_cr3 tp, c_vaddr = a\<rparr>)) (tp_resident tp))"

definition gather_candidates :: "('pt, 'fa) pt_ops \<Rightarrow> 'pt mm \<Rightarrow> candidate list res" where
  "gather_candidates P s =
     rbind (gather_tasks P s (all_tids (mm_table s)) 0) (\<lambda>(per_task, total_vsize).
     let total_resident = sum_list (map (\<lambda>tp. length (tp_resident tp)) per_task);
         scored = concat (map (score_task total_resident total_vsize) per_task)
     in Inr (map snd (sort_key (\<lambda>(excess, _). - excess) scored)))"

subsection \<open>The sweeps\<close>

definition read_bits :: "('pt, 'fa) pt_ops \<Rightarrow> 'pt mm \<Rightarrow> nat \<Rightarrow> nat \<Rightarrow> (bool \<times> bool) option" where
  "read_bits P s cr3 vaddr =
     (case page_flags P (mm_pts s cr3) vaddr of None \<Rightarrow> None | Some flags \<Rightarrow> Some (ACCESSED \<in> flags, DIRTY \<in> flags))"

definition mm_clear_accessed :: "('pt, 'fa) pt_ops \<Rightarrow> 'pt mm \<Rightarrow> nat \<Rightarrow> nat \<Rightarrow> 'pt mm" where
  "mm_clear_accessed P s cr3 vaddr =
     s\<lparr>mm_pts := (mm_pts s)(cr3 := clear_accessed P (mm_pts s cr3) (page_of P vaddr))\<rparr>"

definition sweep_takes :: "nat \<Rightarrow> bool \<Rightarrow> bool \<Rightarrow> bool" where
  "sweep_takes sweep accessed dirty =
     (if sweep = 0 then \<not> accessed \<and> \<not> dirty else if sweep = 1 then \<not> accessed else True)"

text \<open>What a sweep does with one candidate, and whether it was evicted.\<close>

definition sweep_one :: "phys_ops \<Rightarrow> ('pt, free_list \<times> memory) pt_ops \<Rightarrow> nat \<Rightarrow> candidate \<Rightarrow> 'pt mm \<Rightarrow> (bool \<times> 'pt mm) res" where
  "sweep_one x P sweep c s =
     (case read_bits P s (c_cr3 c) (c_vaddr c) of
        None \<Rightarrow> Inr (False, s)
      | Some (accessed, dirty) \<Rightarrow>
          if sweep_takes sweep accessed dirty
          then rbind (evict_addr x P (t_vmm (mm_tasks s (c_tid c))) (mm_space s (c_cr3 c)) (c_vaddr c)) (\<lambda>(evicted, v, sp).
               Inr (evicted, mm_put s (c_tid c) (c_cr3 c) v sp))
          else if accessed \<and> sweep \<ge> 1 then Inr (False, mm_clear_accessed P s (c_cr3 c) (c_vaddr c))
          else Inr (False, s))"

text \<open>One sweep; the flag of the result says that the target was reached and the sweeps end.\<close>

fun sweep_loop :: "phys_ops \<Rightarrow> ('pt, free_list \<times> memory) pt_ops \<Rightarrow> nat \<Rightarrow> nat \<Rightarrow> candidate list \<Rightarrow> nat \<Rightarrow> 'pt mm \<Rightarrow>
    (bool \<times> nat \<times> 'pt mm) res" where
  "sweep_loop x P target_free sweep [] reaped s = Inr (False, reaped, s)"
| "sweep_loop x P target_free sweep (c # cs) reaped s =
     rbind (sweep_one x P sweep c s) (\<lambda>(evicted, s1).
     if evicted then if fl_count (mm_fl s1) \<ge> target_free then Inr (True, reaped + 1, s1)
                     else sweep_loop x P target_free sweep cs (reaped + 1) s1
     else sweep_loop x P target_free sweep cs reaped s1)"

fun sweeps :: "phys_ops \<Rightarrow> ('pt, free_list \<times> memory) pt_ops \<Rightarrow> nat \<Rightarrow> candidate list \<Rightarrow> nat list \<Rightarrow> nat \<Rightarrow> 'pt mm \<Rightarrow> (nat \<times> 'pt mm) res" where
  "sweeps x P target_free cs [] reaped s = Inr (reaped, s)"
| "sweeps x P target_free cs (sweep # rest) reaped s =
     rbind (sweep_loop x P target_free sweep cs reaped s) (\<lambda>(reached, reaped1, s1).
     if reached then Inr (reaped1, s1) else sweeps x P target_free cs rest reaped1 s1)"

subsection \<open>Every round that makes progress fills a slot\<close>

definition free_slots :: "swap_partition \<Rightarrow> nat" where
  "free_slots sw = length (filter (\<lambda>b. b) (sw_free sw))"

lemma filter_update_False:
  "k < length bs \<Longrightarrow> bs ! k \<Longrightarrow> Suc (length (filter (\<lambda>b. b) (bs[k := False]))) = length (filter (\<lambda>b. b) bs)"
proof (induction bs arbitrary: k)
  case (Cons b bs)
  then show ?case by (cases k) auto
qed simp

lemma swap_out_slots:
  assumes "swap_out sm frame = Inr (r, sm')"
  shows "free_slots (fst sm') + (if r = None then 0 else 1) \<le> free_slots (fst sm)"
proof -
  obtain r0 s1 where a: "alloc_slot (fst sm) = (r0, s1)" by (cases "alloc_slot (fst sm)")
  show ?thesis
  proof (cases r0)
    case None
    then have "r = None" "fst sm' = s1" using assms a by (auto simp: swap_out_def case_prod_beta)
    moreover have "s1 = fst sm" using a None by (auto simp: alloc_slot_def Let_def split: option.splits)
    ultimately show ?thesis by simp
  next
    case (Some k)
    then have "sw_free (fst sm') = sw_free s1" using assms a by (auto simp: swap_out_def case_prod_beta)
    moreover have "Suc (free_slots s1) = free_slots (fst sm)"
      using alloc_slot_Some [OF a [unfolded Some]] filter_update_False by (simp add: free_slots_def)
    ultimately show ?thesis by (simp add: free_slots_def)
  qed
qed

lemma evict_slots:
  assumes "evict_addr x P v sp a = Inr (evicted, v', sp')"
  shows "free_slots (sp_swap sp') + (if evicted then 1 else 0) \<le> free_slots (sp_swap sp)"
proof (cases "\<exists>phys f. translate_addr P (sp_pt sp) a = Some phys \<and> page_flags P (sp_pt sp) a = Some f")
  case True
  then obtain phys f where t: "translate_addr P (sp_pt sp) a = Some phys" "page_flags P (sp_pt sp) a = Some f" by blast
  then obtain r sw m where o: "swap_out (sp_swap sp, sp_mem sp) (containing_address x phys) = Inr (r, sw, m)"
    and "sp_swap sp' = sw \<and> (evicted \<longrightarrow> r \<noteq> None)"
    using assms by (auto simp: evict_addr_def Let_def frame_dealloc_def space_unmap_def case_prod_beta split: option.splits)
  then show ?thesis using swap_out_slots [OF o] by (auto split: if_splits)
next
  case False
  then show ?thesis using assms by (auto simp: evict_addr_def split: option.splits)
qed

lemma sweep_one_slots:
  assumes "sweep_one x P sweep c s = Inr (evicted, s')"
  shows "free_slots (mm_swap s') + (if evicted then 1 else 0) \<le> free_slots (mm_swap s)"
proof -
  have "(\<not> evicted \<and> mm_swap s' = mm_swap s) \<or>
    (\<exists>v sp. evict_addr x P (t_vmm (mm_tasks s (c_tid c))) (mm_space s (c_cr3 c)) (c_vaddr c) = Inr (evicted, v, sp) \<and> mm_swap s' = sp_swap sp)"
    using assms by (auto simp: sweep_one_def mm_clear_accessed_def mm_put_def split: option.split_asm if_split_asm)
  then show ?thesis
  proof (elim disjE exE conjE)
    fix v sp
    assume e: "evict_addr x P (t_vmm (mm_tasks s (c_tid c))) (mm_space s (c_cr3 c)) (c_vaddr c) = Inr (evicted, v, sp)" "mm_swap s' = sp_swap sp"
    show ?thesis using evict_slots [OF e(1)] e(2) by (simp add: mm_space_def)
  qed simp
qed

lemma sweep_slots:
  assumes "sweep_loop x P target sweep cs n s = Inr (reached, n', s')"
  shows "n \<le> n' \<and> (reached \<longrightarrow> n < n') \<and> free_slots (mm_swap s') + n' \<le> free_slots (mm_swap s) + n"
  using assms
proof (induction cs arbitrary: n s)
  case (Cons c cs)
  then obtain evicted s1 where e: "sweep_one x P sweep c s = Inr (evicted, s1)"
    "(if evicted then if fl_count (mm_fl s1) \<ge> target then Inr (True, n + 1, s1)
       else sweep_loop x P target sweep cs (n + 1) s1 else sweep_loop x P target sweep cs n s1) = Inr (reached, n', s')"
    by auto
  then show ?case
    using sweep_one_slots [OF e(1)] Cons.IH [of "n + 1" s1] Cons.IH [of n s1] by (auto split: if_split_asm)
qed simp

lemma sweeps_slots:
  assumes "sweeps x P target cs ss n s = Inr (n', s')"
  shows "n \<le> n' \<and> free_slots (mm_swap s') + n' \<le> free_slots (mm_swap s) + n"
  using assms
proof (induction ss arbitrary: n s)
  case (Cons sweep ss)
  then obtain reached n1 s1 where l: "sweep_loop x P target sweep cs n s = Inr (reached, n1, s1)"
    "(if reached then Inr (n1, s1) else sweeps x P target cs ss n1 s1) = Inr (n', s')"
    by auto
  then show ?case using sweep_slots [OF l(1)] Cons.IH [of n1 s1] by (fastforce split: if_split_asm)
qed simp

lemma rbind_fundef_cong [fundef_cong]:
  "m = m' \<Longrightarrow> (\<And>y. m' = Inr y \<Longrightarrow> f y = g y) \<Longrightarrow> rbind m f = rbind m' g"
  by (cases m') simp_all

function reap_to :: "phys_ops \<Rightarrow> ('pt, free_list \<times> memory) pt_ops \<Rightarrow> nat \<Rightarrow> nat \<Rightarrow> 'pt mm \<Rightarrow> (nat \<times> 'pt mm) res" where
  "reap_to x P target_free reaped s =
     (if fl_count (mm_fl s) \<ge> target_free then Inr (reaped, s)
      else rbind (gather_candidates P s) (\<lambda>candidates.
           if candidates = [] then Inr (reaped, s)
           else rbind (sweeps x P target_free candidates [0, 1, 2] reaped s) (\<lambda>(reaped1, s1).
                if reaped1 = reaped then Inr (reaped1, s1) else reap_to x P target_free reaped1 s1)))"
  by pat_completeness auto
termination
proof (relation "measure (\<lambda>(x, P, target, n, s). free_slots (mm_swap s))")
  fix x P target n cs r n1 and s s1 :: "'pt mm"
  assume "sweeps x P target cs [0, 1, 2] n s = Inr r" "(n1, s1) = r" "n1 \<noteq> n"
  then have "n \<le> n1" "free_slots (mm_swap s1) + n1 \<le> free_slots (mm_swap s) + n" "n1 \<noteq> n"
    using sweeps_slots [of x P target cs "[0, 1, 2]" n s n1 s1] by auto
  then show "((x, P, target, n1, s1), x, P, target, n, s) \<in> measure (\<lambda>(x, P, target, n, s). free_slots (mm_swap s))"
    by simp
qed simp

declare reap_to.simps [simp del]

definition reap_if_needed :: "phys_ops \<Rightarrow> ('pt, free_list \<times> memory) pt_ops \<Rightarrow> 'pt mm \<Rightarrow> 'pt mm res" where
  "reap_if_needed x P s =
     (if fl_count (mm_fl s) < POOL_MIN then rbind (reap_to x P POOL_MAX 0 s) (\<lambda>(_, s1). Inr s1) else Inr s)"


end
