(* ===== verification/ReaperProps.thy ===== *)
theory ReaperProps
  imports Reaper
begin

text \<open>
  What the reaper does to the address spaces: every user page keeps its value, which is in a frame or in a swap
  slot, each eviction adds one frame to the pool, and the loop ends only when the pool has reached its target, no
  user page is resident, or every slot is in use. The hypothesis that no two user pages share a frame is
  needed: a frame shared by a copy-on-write fork is put into the pool while the other task still maps it.
\<close>

definition user_task :: "'pt mm \<Rightarrow> nat \<Rightarrow> bool" where
  "user_task s t \<longleftrightarrow> t \<in> mm_table s \<and> t_user_entry (mm_tasks s t) \<noteq> 0"

abbreviation task_areas :: "'pt mm \<Rightarrow> nat \<Rightarrow> vm_area list" where
  "task_areas s t \<equiv> vm_areas (t_vmm (mm_tasks s t))"

abbreviation task_swapped :: "'pt mm \<Rightarrow> nat \<Rightarrow> nat \<rightharpoonup> nat \<times> pflags" where
  "task_swapped s t \<equiv> vm_swapped (t_vmm (mm_tasks s t))"

abbreviation task_view :: "('pt \<Rightarrow> pt_view) \<Rightarrow> 'pt mm \<Rightarrow> nat \<Rightarrow> pt_view" where
  "task_view view s t \<equiv> view (mm_pts s (t_cr3 (mm_tasks s t)))"

abbreviation mm_slots :: "'pt mm \<Rightarrow> nat \<rightharpoonup> u8 list" where
  "mm_slots s \<equiv> swap_view (mm_swap s, mm_mem s)"

definition user_page :: "'pt mm \<Rightarrow> nat \<Rightarrow> nat \<Rightarrow> bool" where
  "user_page s t p \<longleftrightarrow> user_task s t \<and> 4096 dvd p \<and> (\<exists>a\<in>set (task_areas s t). va_start a \<le> p \<and> p < va_end a)"

text \<open>The value of a page: its bytes and its flags, without the two the processor sets.\<close>

definition page_value :: "('pt \<Rightarrow> pt_view) \<Rightarrow> 'pt mm \<Rightarrow> nat \<Rightarrow> nat \<Rightarrow> (u8 list \<times> pflags) option" where
  "page_value view s t p =
     (case task_swapped s t p of
        Some (slot, fl) \<Rightarrow> map_option (\<lambda>bs. (bs, fl)) (mm_slots s slot)
      | None \<Rightarrow> map_option (\<lambda>(f, fl). (read_bytes (mm_mem s) (PHYS_MEM_OFFSET + f) 4096, fl - {ACCESSED, DIRTY})) (task_view view s t p))"

definition pages_ok :: "('pt \<Rightarrow> pt_view) \<Rightarrow> 'pt mm \<Rightarrow> nat list \<Rightarrow> bool" where
  "pages_ok view s fs \<longleftrightarrow> inj_on (\<lambda>t. t_cr3 (mm_tasks s t)) {t. user_task s t} \<and>
     (\<forall>t p f fl. user_page s t p \<longrightarrow> task_view view s t p = Some (f, fl) \<longrightarrow>
        used_frame (mm_space s 0) fs f \<and> task_swapped s t p = None \<and>
        (\<forall>t' p' fl'. user_page s t' p' \<longrightarrow> task_view view s t' p' = Some (f, fl') \<longrightarrow> t' = t \<and> p' = p)) \<and>
     (\<forall>t p slot fl. user_page s t p \<longrightarrow> task_swapped s t p = Some (slot, fl) \<longrightarrow> slot \<in> dom (mm_slots s))"

definition areas_fit :: "'pt mm \<Rightarrow> bool" where
  "areas_fit s \<longleftrightarrow> finite (mm_table s) \<and>
     (\<forall>t a. user_task s t \<longrightarrow> a \<in> set (task_areas s t) \<longrightarrow> va_start a \<le> va_end a \<and> 4096 dvd va_start a) \<and>
     (\<Sum>t\<leftarrow>all_tids (mm_table s). \<Sum>a\<leftarrow>task_areas s t. va_end a - va_start a) < U64_LIMIT"

definition mm_ok :: "phys_ops \<Rightarrow> ('pt \<Rightarrow> pt_view) \<Rightarrow> 'pt mm \<Rightarrow> nat list \<Rightarrow> bool" where
  "mm_ok x view s fs \<longleftrightarrow> areas_fit s \<and> space_ok x (mm_space s 0) fs \<and> pages_ok view s fs"

text \<open>What a step keeps: the tasks up to the record of their swapped pages, and the value of every user page.\<close>

definition reaped_from :: "('pt \<Rightarrow> pt_view) \<Rightarrow> 'pt mm \<Rightarrow> 'pt mm \<Rightarrow> bool" where
  "reaped_from view s s' \<longleftrightarrow> mm_table s' = mm_table s \<and>
     (\<forall>t. mm_tasks s' t = (mm_tasks s t)\<lparr>t_vmm := (t_vmm (mm_tasks s t))\<lparr>vm_swapped := task_swapped s' t\<rparr>\<rparr>) \<and>
     (\<forall>t p. user_page s t p \<longrightarrow> page_value view s' t p = page_value view s t p)"

lemma reaped_fromD:
  assumes "reaped_from view s s'"
  shows "mm_table s' = mm_table s" "task_areas s' t = task_areas s t" "t_cr3 (mm_tasks s' t) = t_cr3 (mm_tasks s t)"
    "user_task s' t = user_task s t" "user_page s' t p = user_page s t p"
    "user_page s t p \<Longrightarrow> page_value view s' t p = page_value view s t p"
proof -
  have t: "mm_tasks s' t = (mm_tasks s t)\<lparr>t_vmm := (t_vmm (mm_tasks s t))\<lparr>vm_swapped := task_swapped s' t\<rparr>\<rparr>"
    using assms by (simp add: reaped_from_def)
  have "task_areas s' t = task_areas s t" "t_user_entry (mm_tasks s' t) = t_user_entry (mm_tasks s t)"
    "t_cr3 (mm_tasks s' t) = t_cr3 (mm_tasks s t)"
    by (subst t, simp)+
  then show "mm_table s' = mm_table s" "task_areas s' t = task_areas s t" "t_cr3 (mm_tasks s' t) = t_cr3 (mm_tasks s t)"
    "user_task s' t = user_task s t" "user_page s' t p = user_page s t p"
    "user_page s t p \<Longrightarrow> page_value view s' t p = page_value view s t p"
    using assms by (simp_all add: user_task_def user_page_def reaped_from_def)
qed

lemma reaped_from_refl: "reaped_from view s s"
  by (simp add: reaped_from_def)

lemma reaped_from_trans:
  assumes "reaped_from view s s1" "reaped_from view s1 s2"
  shows "reaped_from view s s2"
proof -
  have "mm_tasks s2 t = (mm_tasks s t)\<lparr>t_vmm := (t_vmm (mm_tasks s t))\<lparr>vm_swapped := task_swapped s2 t\<rparr>\<rparr>" for t
  proof -
    define w1 w2 where "w1 = task_swapped s1 t" and "w2 = task_swapped s2 t"
    have e: "mm_tasks s2 t = (mm_tasks s1 t)\<lparr>t_vmm := (t_vmm (mm_tasks s1 t))\<lparr>vm_swapped := w2\<rparr>\<rparr>"
      "mm_tasks s1 t = (mm_tasks s t)\<lparr>t_vmm := (t_vmm (mm_tasks s t))\<lparr>vm_swapped := w1\<rparr>\<rparr>"
      using assms by (simp_all add: reaped_from_def w1_def w2_def)
    have "mm_tasks s2 t = (mm_tasks s t)\<lparr>t_vmm := (t_vmm (mm_tasks s t))\<lparr>vm_swapped := w2\<rparr>\<rparr>"
      unfolding e by simp
    then show ?thesis unfolding w2_def .
  qed
  then show ?thesis
    using reaped_fromD [OF assms(1)] reaped_fromD [OF assms(2)] by (simp add: reaped_from_def)
qed

lemma areas_fit_reaped: "reaped_from view s s' \<Longrightarrow> areas_fit s \<Longrightarrow> areas_fit s'"
  using reaped_fromD [of view s s'] by (simp add: areas_fit_def)

subsection \<open>One eviction\<close>

lemma space_ok_mm: "space_ok x (mm_space s c) fs = space_ok x (mm_space s 0) fs"
  by (simp add: space_ok_def mm_space_def)

lemma used_frame_mm: "used_frame (mm_space s c) fs f = used_frame (mm_space s 0) fs f"
  by (simp add: used_frame_def mm_space_def)

lemma mm_okD:
  assumes "mm_ok x view s fs"
  shows "areas_fit s" "space_ok x (mm_space s c) fs"
    "user_task s t \<Longrightarrow> user_task s t' \<Longrightarrow> t_cr3 (mm_tasks s t) = t_cr3 (mm_tasks s t') \<Longrightarrow> t = t'"
    "user_page s t p \<Longrightarrow> task_view view s t p = Some (f, fl) \<Longrightarrow> used_frame (mm_space s c) fs f"
    "user_page s t p \<Longrightarrow> task_view view s t p = Some (f, fl) \<Longrightarrow> task_swapped s t p = None"
    "user_page s t p \<Longrightarrow> task_view view s t p = Some (f, fl) \<Longrightarrow> user_page s t' p' \<Longrightarrow> task_view view s t' p' = Some (f, fl') \<Longrightarrow> t' = t \<and> p' = p"
    "user_page s t p \<Longrightarrow> task_swapped s t p = Some (slot, fl0) \<Longrightarrow> slot \<in> dom (mm_slots s)"
    "fl_count (mm_fl s) = length fs"
proof -
  have p: "pages_ok view s fs" and sp: "space_ok x (mm_space s 0) fs" using assms by (simp_all add: mm_ok_def)
  show "areas_fit s" "space_ok x (mm_space s c) fs" using assms by (simp_all add: mm_ok_def space_ok_mm [of x s c])
  show "t = t'" if "user_task s t" "user_task s t'" "t_cr3 (mm_tasks s t) = t_cr3 (mm_tasks s t')"
    using p that by (auto simp: pages_ok_def inj_on_def)
  show "used_frame (mm_space s c) fs f" "task_swapped s t p = None" if "user_page s t p" "task_view view s t p = Some (f, fl)"
    using p that unfolding pages_ok_def used_frame_mm [of s c] by blast+
  show "t' = t \<and> p' = p" if "user_page s t p" "task_view view s t p = Some (f, fl)" "user_page s t' p'" "task_view view s t' p' = Some (f, fl')"
    using p that unfolding pages_ok_def by blast
  show "slot \<in> dom (mm_slots s)" if "user_page s t p" "task_swapped s t p = Some (slot, fl0)"
    using p that unfolding pages_ok_def by blast
  show "fl_count (mm_fl s) = length fs"
    using space_okD(1) [OF sp] by (simp add: fl_rep_at_def fl_rep_def mm_space_def)
qed

definition cand_ok :: "'pt mm \<Rightarrow> candidate \<Rightarrow> bool" where
  "cand_ok s c \<longleftrightarrow> user_page s (c_tid c) (c_vaddr c) \<and> c_cr3 c = t_cr3 (mm_tasks s (c_tid c))"

definition swap_full :: "'pt mm \<Rightarrow> bool" where
  "swap_full s \<longleftrightarrow> True \<notin> set (sw_free (mm_swap s))"

lemma swap_full_dom: "dom (mm_slots s) = {..<length (sw_free (mm_swap s))} \<Longrightarrow> swap_full s"
  by (auto simp: swap_full_def swap_view_def in_set_conv_nth dom_def set_eq_iff split: if_splits)

lemma cand_reaped: "reaped_from view s s' \<Longrightarrow> cand_ok s c \<Longrightarrow> cand_ok s' c"
  using reaped_fromD [of view s s'] by (simp add: cand_ok_def)

lemma evicted_ok:
  assumes ok: "mm_ok x view s fs" and up: "user_page s t p" and res: "task_view view s t p = Some (f, fl)"
    and s': "mm_tasks s' = (mm_tasks s)(t := (mm_tasks s t)\<lparr>t_vmm := record_swapped (t_vmm (mm_tasks s t)) p slot (fl - {ACCESSED, DIRTY})\<rparr>)"
      "mm_table s' = mm_table s" "mm_pts s' = (mm_pts s)(t_cr3 (mm_tasks s t) := pt')" "view pt' = (task_view view s t)(p := None)"
    and sl: "mm_slots s slot = None" "mm_slots s' = (mm_slots s)(slot \<mapsto> read_bytes (mm_mem s) (PHYS_MEM_OFFSET + f) 4096)"
    and sok: "space_ok x (mm_space s' 0) (f # fs)"
    and keep: "\<forall>g. swap_frame (mm_swap s, mm_mem s) g \<longrightarrow> swap_frame (mm_swap s', mm_mem s') g \<and>
      (frame_ok PHYS_MEM_OFFSET g \<longrightarrow> g \<noteq> f \<longrightarrow>
       read_bytes (mm_mem s') (PHYS_MEM_OFFSET + g) 4096 = read_bytes (mm_mem s) (PHYS_MEM_OFFSET + g) 4096)"
  shows "mm_ok x view s' (f # fs) \<and> reaped_from view s s'"
proof -
  note D = mm_okD [OF ok]
  have fld: "t_cr3 (mm_tasks s' u) = t_cr3 (mm_tasks s u)" "task_areas s' u = task_areas s u"
    "t_user_entry (mm_tasks s' u) = t_user_entry (mm_tasks s u)" for u
    by (simp_all add: s'(1) record_swapped_def)
  have ut: "user_task s' u = user_task s u" for u by (simp add: user_task_def fld s'(2))
  have upg: "user_page s' u q = user_page s u q" for u q by (simp add: user_page_def fld ut)
  have tv: "task_view view s' u q = (if u = t \<and> q = p then None else task_view view s u q)" if "user_page s u q" for u q
  proof -
    have "u = t" if "t_cr3 (mm_tasks s u) = t_cr3 (mm_tasks s t)"
      using D(3) [of u t] that up \<open>user_page s u q\<close> by (simp add: user_page_def)
    then show ?thesis by (auto simp: fld s'(3,4))
  qed
  have sw: "task_swapped s' u q = (if u = t \<and> q = p then Some (slot, fl - {ACCESSED, DIRTY}) else task_swapped s u q)" for u q
    by (simp add: s'(1) record_swapped_def)
  have other: "g \<noteq> f \<and> used_frame (mm_space s' 0) (f # fs) g \<and>
      read_bytes (mm_mem s') (PHYS_MEM_OFFSET + g) 4096 = read_bytes (mm_mem s) (PHYS_MEM_OFFSET + g) 4096"
    if "user_page s u q" "task_view view s u q = Some (g, fl')" "\<not> (u = t \<and> q = p)" for u q g fl'
  proof -
    have "g \<noteq> f" using D(6) [OF up res that(1)] that(2,3) by blast
    then show ?thesis using used_frameD [OF D(4) [OF that(1,2), of 0]] keep by (simp add: used_frame_def mm_space_def)
  qed
  have "reaped_from view s s'"
    unfolding reaped_from_def
  proof (intro conjI allI impI)
    show "mm_tasks s' u = (mm_tasks s u)\<lparr>t_vmm := (t_vmm (mm_tasks s u))\<lparr>vm_swapped := task_swapped s' u\<rparr>\<rparr>" for u
      by (simp add: s'(1) record_swapped_def)
    fix u q assume u: "user_page s u q"
    show "page_value view s' u q = page_value view s u q"
    proof (cases "u = t \<and> q = p")
      case True
      then show ?thesis using D(5) [OF up res] res by (simp add: page_value_def sw sl(2))
    next
      case False
      show ?thesis
      proof (cases "task_swapped s u q")
        case None
        then show ?thesis
          using False other [OF u _ False] by (cases "task_view view s u q") (auto simp: page_value_def sw tv [OF u])
      next
        case (Some e)
        then have "fst e \<noteq> slot" using D(7) [OF u, of "fst e" "snd e"] sl(1) by auto
        then show ?thesis using Some False by (auto simp: page_value_def sw sl(2) split: prod.split)
      qed
    qed
  qed (simp add: s'(2))
  moreover have "pages_ok view s' (f # fs)"
    unfolding pages_ok_def
  proof (intro conjI allI impI)
    show "inj_on (\<lambda>t. t_cr3 (mm_tasks s' t)) {t. user_task s' t}" using D(3) by (simp add: inj_on_def fld ut)
  next
    fix u q g fl' assume u: "user_page s' u q" "task_view view s' u q = Some (g, fl')"
    then have uq: "user_page s u q" "\<not> (u = t \<and> q = p)" "task_view view s u q = Some (g, fl')"
      using tv [of u q] by (auto simp: upg split: if_splits)
    then show "used_frame (mm_space s' 0) (f # fs) g" using other by blast
    show "task_swapped s' u q = None" using D(5) [OF uq(1,3)] uq(2) by (simp add: sw)
    fix u' q' fl'' assume u': "user_page s' u' q'" "task_view view s' u' q' = Some (g, fl'')"
    then have "user_page s u' q'" "task_view view s u' q' = Some (g, fl'')" using tv [of u' q'] by (auto simp: upg split: if_splits)
    then show "u' = u" "q' = q" using D(6) [OF uq(1,3)] by blast+
  next
    fix u q sl' fl' assume "user_page s' u q" "task_swapped s' u q = Some (sl', fl')"
    then show "sl' \<in> dom (mm_slots s')" using D(7) [of u q sl' fl'] by (auto simp: sw upg sl(2) split: if_splits)
  qed
  ultimately show ?thesis using areas_fit_reaped D(1) sok by (auto simp: mm_ok_def)
qed

lemma evict_step:
  assumes laws: "pt_laws P view (fl_rep_at x PHYS_MEM_OFFSET)" and ok: "mm_ok x view s fs" and c: "cand_ok s c"
    and res: "task_view view s (c_tid c) (c_vaddr c) = Some (f, fl)"
  shows "evict_addr x P (t_vmm (mm_tasks s (c_tid c))) (mm_space s (c_cr3 c)) (c_vaddr c) =
       Inr (False, t_vmm (mm_tasks s (c_tid c)), mm_space s (c_cr3 c)) \<and> swap_full s \<or>
    (\<exists>v sp. evict_addr x P (t_vmm (mm_tasks s (c_tid c))) (mm_space s (c_cr3 c)) (c_vaddr c) = Inr (True, v, sp) \<and>
       mm_ok x view (mm_put s (c_tid c) (c_cr3 c) v sp) (f # fs) \<and> reaped_from view s (mm_put s (c_tid c) (c_cr3 c) v sp))"
proof -
  let ?t = "c_tid c" and ?p = "c_vaddr c" and ?cr3 = "c_cr3 c" and ?sp = "mm_space s (c_cr3 c)"
  have up: "user_page s ?t ?p" and cr3: "?cr3 = t_cr3 (mm_tasks s ?t)" using c by (simp_all add: cand_ok_def)
  have ps: "page_start ?p = ?p" using up by (simp add: user_page_def page_start_aligned(2))
  note D = mm_okD [OF ok]
  have v: "view (sp_pt ?sp) (page_start ?p) = Some (f, fl)" using res cr3 ps by (simp add: mm_space_def)
  from evict_ok [OF laws D(2) D(4) [OF up res] v, of "t_vmm (mm_tasks s ?t)"] show ?thesis
  proof (elim disjE exE conjE)
    assume "dom (space_slots ?sp) = {..<length (sw_free (sp_swap ?sp))}"
      "evict_addr x P (t_vmm (mm_tasks s ?t)) ?sp ?p = Inr (False, t_vmm (mm_tasks s ?t), ?sp)"
    then show ?thesis using swap_full_dom [of s] by (simp add: mm_space_def)
  next
    fix slot sp'
    let ?v = "record_swapped (t_vmm (mm_tasks s ?t)) (page_start ?p) slot (fl - {ACCESSED, DIRTY})"
    let ?s = "mm_put s ?t ?cr3 ?v sp'"
    assume e: "evict_addr x P (t_vmm (mm_tasks s ?t)) ?sp ?p = Inr (True, ?v, sp')"
      and sl: "space_slots ?sp slot = None" "space_slots sp' = (space_slots ?sp)(slot \<mapsto> frame_bytes ?sp f)"
      and pt: "view (sp_pt sp') = (view (sp_pt ?sp))(page_start ?p := None)" and sok: "space_ok x sp' (f # fs)"
      and keep: "\<forall>g. swap_frame (sp_swap ?sp, sp_mem ?sp) g \<longrightarrow> swap_frame (sp_swap sp', sp_mem sp') g \<and>
          (frame_ok PHYS_MEM_OFFSET g \<longrightarrow> g \<noteq> f \<longrightarrow> frame_bytes sp' g = frame_bytes ?sp g)"
    have "mm_ok x view ?s (f # fs) \<and> reaped_from view s ?s"
      using ok up res
    proof (rule evicted_ok)
      show "space_ok x (mm_space ?s 0) (f # fs)" using sok by (simp add: space_ok_def mm_space_def mm_put_def)
      show "view (sp_pt sp') = (task_view view s ?t)(?p := None)" using pt ps cr3 by (simp add: mm_space_def)
    qed (use sl keep ps cr3 in \<open>simp_all add: mm_put_def mm_space_def\<close>)
    then show ?thesis using e by blast
  qed
qed


subsection \<open>The sweeps\<close>

abbreviation same_resident :: "('pt \<Rightarrow> pt_view) \<Rightarrow> 'pt mm \<Rightarrow> 'pt mm \<Rightarrow> bool" where
  "same_resident view s s' \<equiv> \<forall>t p. user_page s t p \<longrightarrow> (task_view view s' t p = None) = (task_view view s t p = None)"

text \<open>Changing the accessed and dirty bits of a user page.\<close>

lemma reflag_step:
  assumes ok: "mm_ok x view s fs" and up: "user_page s t p" and res: "task_view view s t p = Some (f, fl)"
    and pt: "view pt' = (task_view view s t)(p \<mapsto> (f, fl'))" "fl' - {ACCESSED, DIRTY} = fl - {ACCESSED, DIRTY}"
  defines "s' \<equiv> s\<lparr>mm_pts := (mm_pts s)(t_cr3 (mm_tasks s t) := pt')\<rparr>"
  shows "mm_ok x view s' fs \<and> reaped_from view s s' \<and> same_resident view s s'"
proof -
  note D = mm_okD [OF ok]
  have eq: "user_task s' u = user_task s u" "user_page s' u q = user_page s u q" "mm_space s' 0 = (mm_space s 0)\<lparr>sp_pt := mm_pts s' 0\<rparr>" for u q
    by (simp_all add: s'_def user_task_def user_page_def mm_space_def)
  have tv: "task_view view s' u q = (if u = t \<and> q = p then Some (f, fl') else task_view view s u q)" if "user_page s u q" for u q
  proof -
    have "u = t" if "t_cr3 (mm_tasks s u) = t_cr3 (mm_tasks s t)"
      using D(3) [of u t] that up \<open>user_page s u q\<close> by (simp add: user_page_def)
    then show ?thesis by (auto simp: s'_def pt)
  qed
  have frame: "\<exists>fl0. task_view view s u q = Some (g, fl0)" if "user_page s u q" "task_view view s' u q = Some (g, fl1)" for u q g fl1
    using that(2) res unfolding tv [OF that(1)] by (auto split: if_splits)
  have rf: "reaped_from view s s'"
    unfolding reaped_from_def
  proof (intro conjI allI impI)
    fix u q assume u: "user_page s u q"
    have "mm_tasks s' = mm_tasks s" "mm_mem s' = mm_mem s" "mm_swap s' = mm_swap s" by (simp_all add: s'_def)
    then show "page_value view s' u q = page_value view s u q"
      unfolding page_value_def tv [OF u] using res pt(2) by (auto split: option.split)
  qed (simp_all add: s'_def)
  moreover have "pages_ok view s' fs"
    unfolding pages_ok_def
  proof (intro conjI allI impI)
    show "inj_on (\<lambda>t. t_cr3 (mm_tasks s' t)) {t. user_task s' t}" using D(3) by (simp add: inj_on_def eq s'_def user_task_def)
  next
    fix u q g fl1 assume u: "user_page s' u q" "task_view view s' u q = Some (g, fl1)"
    then obtain fl0 where u0: "user_page s u q" "task_view view s u q = Some (g, fl0)" using frame eq(2) by blast
    show "used_frame (mm_space s' 0) fs g" using D(4) [OF u0, of 0] by (simp add: used_frame_def mm_space_def s'_def)
    show "task_swapped s' u q = None" using D(5) [OF u0] by (simp add: s'_def)
    fix u' q' fl2 assume "user_page s' u' q'" "task_view view s' u' q' = Some (g, fl2)"
    then obtain fl3 where "user_page s u' q'" "task_view view s u' q' = Some (g, fl3)" using frame eq(2) by blast
    then show "u' = u" "q' = q" using D(6) [OF u0] by blast+
  next
    fix u q slot fl0 assume "user_page s' u q" "task_swapped s' u q = Some (slot, fl0)"
    then show "slot \<in> dom (mm_slots s')" using D(7) [of u q slot fl0] unfolding eq(2) by (simp add: s'_def)
  qed
  moreover have "space_ok x (mm_space s' 0) fs" using D(2) [of 0] by (simp add: space_ok_def mm_space_def s'_def)
  moreover have "same_resident view s s'" using tv res by auto
  ultimately show ?thesis using areas_fit_reaped [OF rf D(1)] by (simp add: mm_ok_def)
qed

lemma clear_step:
  assumes laws: "pt_laws P view (fl_rep_at x PHYS_MEM_OFFSET)" and ok: "mm_ok x view s fs" and c: "cand_ok s c"
    and res: "task_view view s (c_tid c) (c_vaddr c) = Some (f, fl)" "ACCESSED \<in> fl"
  defines "s' \<equiv> mm_clear_accessed P s (c_cr3 c) (c_vaddr c)"
  shows "mm_ok x view s' fs \<and> reaped_from view s s' \<and> same_resident view s s' \<and> mm_swap s' = mm_swap s"
proof -
  let ?pt = "mm_pts s (c_cr3 c)" and ?p = "c_vaddr c"
  have up: "user_page s (c_tid c) ?p" and cr3: "c_cr3 c = t_cr3 (mm_tasks s (c_tid c))" using c by (simp_all add: cand_ok_def)
  have ps: "page_start ?p = ?p" using up by (simp add: user_page_def page_start_aligned(2))
  have v: "view ?pt ?p = Some (f, fl)" using res(1) cr3 by simp
  then have fl: "page_flags P ?pt ?p = Some fl" by (simp add: page_flags_def pt_laws_translate [OF laws] ps)
  obtain pt' where "remap_flags P ?pt ?p (fl - {ACCESSED}) = Inr pt'" and view': "view pt' = (view ?pt)(?p \<mapsto> (f, fl - {ACCESSED}))"
    by (rule pt_laws_update [OF laws v]) (rule that)
  then have "clear_accessed P ?pt ?p = pt'"
    using fl res(2) by (auto simp: clear_accessed_def remap_flags_def split: option.splits)
  then have s': "s' = s\<lparr>mm_pts := (mm_pts s)(t_cr3 (mm_tasks s (c_tid c)) := pt')\<rparr>"
    by (simp add: s'_def mm_clear_accessed_def pt_laws_page_of [OF laws] ps cr3)
  have "fl - {ACCESSED} - {ACCESSED, DIRTY} = fl - {ACCESSED, DIRTY}" by blast
  from reflag_step [OF ok up res(1) view' [unfolded cr3] this, folded s'] show ?thesis by (simp add: s')
qed

lemma sweep_one_ok:
  assumes laws: "pt_laws P view (fl_rep_at x PHYS_MEM_OFFSET)" and ok: "mm_ok x view s fs" and c: "cand_ok s c"
  shows "\<exists>evicted s' fs'. sweep_one x P sweep c s = Inr (evicted, s') \<and> mm_ok x view s' fs' \<and> reaped_from view s s' \<and>
    length fs' = length fs + (if evicted then 1 else 0) \<and>
    (\<not> evicted \<longrightarrow> mm_swap s' = mm_swap s \<and> same_resident view s s' \<and>
       (2 \<le> sweep \<longrightarrow> task_view view s (c_tid c) (c_vaddr c) = None \<or> swap_full s'))"
proof -
  let ?v = "task_view view s (c_tid c) (c_vaddr c)"
  have ps: "page_start (c_vaddr c) = c_vaddr c" and cr3: "c_cr3 c = t_cr3 (mm_tasks s (c_tid c))"
    using c by (simp_all add: cand_ok_def user_page_def page_start_aligned(2))
  have bits: "read_bits P s (c_cr3 c) (c_vaddr c) = map_option (\<lambda>(f, fl). (ACCESSED \<in> fl, DIRTY \<in> fl)) ?v"
    by (simp add: read_bits_def page_flags_def pt_laws_translate [OF laws] ps cr3 split: option.split)
  show ?thesis
  proof (cases ?v)
    case None
    then have "sweep_one x P sweep c s = Inr (False, s)" using bits by (simp add: sweep_one_def)
    then show ?thesis using None ok by (intro exI [of _ False] exI [of _ s] exI [of _ fs]) (simp add: reaped_from_refl)
  next
    case (Some e)
    obtain f fl where e: "?v = Some (f, fl)" using Some by (cases e) simp
    consider (takes) "sweep_takes sweep (ACCESSED \<in> fl) (DIRTY \<in> fl)" |
      (clear) "\<not> sweep_takes sweep (ACCESSED \<in> fl) (DIRTY \<in> fl)" "ACCESSED \<in> fl" "sweep \<ge> 1" |
      (leave) "\<not> sweep_takes sweep (ACCESSED \<in> fl) (DIRTY \<in> fl)" "\<not> (ACCESSED \<in> fl \<and> sweep \<ge> 1)" by blast
    then show ?thesis
    proof cases
      case takes
      from evict_step [OF laws ok c e] show ?thesis
      proof (elim disjE exE conjE)
        let ?t = "mm_tasks s (c_tid c)" and ?s = "mm_put s (c_tid c) (c_cr3 c) (t_vmm (mm_tasks s (c_tid c))) (mm_space s (c_cr3 c))"
        assume a: "evict_addr x P (t_vmm ?t) (mm_space s (c_cr3 c)) (c_vaddr c) = Inr (False, t_vmm ?t, mm_space s (c_cr3 c))" and full: "swap_full s"
        have "?s = s" by (simp add: mm_put_def mm_space_def)
        then have "sweep_one x P sweep c s = Inr (False, s)" using a takes e bits by (simp add: sweep_one_def)
        then show ?thesis using full ok by (intro exI [of _ False] exI [of _ s] exI [of _ fs]) (simp add: reaped_from_refl)
      next
        fix v sp
        let ?s = "mm_put s (c_tid c) (c_cr3 c) v sp"
        assume "evict_addr x P (t_vmm (mm_tasks s (c_tid c))) (mm_space s (c_cr3 c)) (c_vaddr c) = Inr (True, v, sp)"
          and m: "mm_ok x view ?s (f # fs)" "reaped_from view s ?s"
        then have "sweep_one x P sweep c s = Inr (True, ?s)" using takes e bits by (simp add: sweep_one_def)
        then show ?thesis using m by (intro exI [of _ True] exI [of _ ?s] exI [of _ "f # fs"]) simp
      qed
    next
      case clear
      let ?s = "mm_clear_accessed P s (c_cr3 c) (c_vaddr c)"
      have "sweep_one x P sweep c s = Inr (False, ?s)" using clear e bits by (simp add: sweep_one_def)
      moreover have "sweep < 2" using clear(1) by (simp add: sweep_takes_def split: if_splits)
      ultimately show ?thesis using clear_step [OF laws ok c e clear(2)]
        by (intro exI [of _ False] exI [of _ ?s] exI [of _ fs]) simp
    next
      case leave
      then have "sweep_one x P sweep c s = Inr (False, s)" using e bits by (auto simp: sweep_one_def)
      moreover have "sweep < 2" using leave(1) by (simp add: sweep_takes_def split: if_splits)
      ultimately show ?thesis using ok by (intro exI [of _ False] exI [of _ s] exI [of _ fs]) (simp add: reaped_from_refl)
    qed
  qed
qed


lemma same_resident_trans:
  "reaped_from view s s1 \<Longrightarrow> same_resident view s s1 \<Longrightarrow> same_resident view s1 s2 \<Longrightarrow> same_resident view s s2"
  using reaped_fromD(5) [of view s s1] by simp

lemma sweep_loop_ok:
  assumes laws: "pt_laws P view (fl_rep_at x PHYS_MEM_OFFSET)" and "mm_ok x view s fs" "\<forall>c\<in>set cs. cand_ok s c"
  shows "\<exists>reached n' s' fs'. sweep_loop x P target sweep cs n s = Inr (reached, n', s') \<and> mm_ok x view s' fs' \<and> reaped_from view s s' \<and>
    length fs' + n = length fs + n' \<and>
    (n' = n \<longrightarrow> mm_swap s' = mm_swap s \<and> same_resident view s s' \<and>
       (2 \<le> sweep \<longrightarrow> (\<forall>c\<in>set cs. task_view view s (c_tid c) (c_vaddr c) = None) \<or> swap_full s'))"
  using assms(2,3)
proof (induction cs arbitrary: n s fs)
  case Nil
  then show ?case by (intro exI [of _ False] exI [of _ n] exI [of _ s] exI [of _ fs]) (simp add: reaped_from_refl)
next
  case (Cons c cs)
  have "cand_ok s c" using Cons.prems(2) by simp
  from sweep_one_ok [OF laws Cons.prems(1) this] obtain evicted s1 fs1 where
    one: "sweep_one x P sweep c s = Inr (evicted, s1)" "mm_ok x view s1 fs1" "reaped_from view s s1"
      "length fs1 = length fs + (if evicted then 1 else 0)"
    and idle: "\<not> evicted \<longrightarrow> mm_swap s1 = mm_swap s \<and> same_resident view s s1 \<and>
       (2 \<le> sweep \<longrightarrow> task_view view s (c_tid c) (c_vaddr c) = None \<or> swap_full s1)" by meson
  have cs: "\<forall>c\<in>set cs. cand_ok s1 c" using Cons.prems(2) cand_reaped [OF one(3)] by simp
  let ?n = "n + (if evicted then 1 else 0)"
  show ?case
  proof (cases "evicted \<and> fl_count (mm_fl s1) \<ge> target")
    case True
    then have "sweep_loop x P target sweep (c # cs) n s = Inr (True, n + 1, s1)" using one(1) by simp
    then show ?thesis using one True by (intro exI [of _ True] exI [of _ "n + 1"] exI [of _ s1] exI [of _ fs1]) simp
  next
    case False
    then have l: "sweep_loop x P target sweep (c # cs) n s = sweep_loop x P target sweep cs ?n s1" using one(1) by auto
    from Cons.IH [OF one(2) cs, of ?n] obtain reached n' s' fs' where
      rest: "sweep_loop x P target sweep cs ?n s1 = Inr (reached, n', s')" "mm_ok x view s' fs'" "reaped_from view s1 s'"
        "length fs' + ?n = length fs1 + n'"
      and idle': "n' = ?n \<longrightarrow> mm_swap s' = mm_swap s1 \<and> same_resident view s1 s' \<and>
        (2 \<le> sweep \<longrightarrow> (\<forall>c\<in>set cs. task_view view s1 (c_tid c) (c_vaddr c) = None) \<or> swap_full s')" by meson
    have "mm_swap s' = mm_swap s \<and> same_resident view s s' \<and>
        (2 \<le> sweep \<longrightarrow> (\<forall>c\<in>set (c # cs). task_view view s (c_tid c) (c_vaddr c) = None) \<or> swap_full s')" if "n' = n"
    proof -
      have ev: "\<not> evicted" "n' = ?n" using that sweep_slots [OF rest(1)] by (auto split: if_splits)
      have i: "mm_swap s1 = mm_swap s" "same_resident view s s1" "2 \<le> sweep \<Longrightarrow> task_view view s (c_tid c) (c_vaddr c) = None \<or> swap_full s1"
        "mm_swap s' = mm_swap s1" "same_resident view s1 s'"
        "2 \<le> sweep \<Longrightarrow> (\<forall>c\<in>set cs. task_view view s1 (c_tid c) (c_vaddr c) = None) \<or> swap_full s'"
        using idle idle' ev by blast+
      have "(\<forall>c\<in>set cs. task_view view s1 (c_tid c) (c_vaddr c) = None) \<Longrightarrow> \<forall>c\<in>set cs. task_view view s (c_tid c) (c_vaddr c) = None"
        using i(2) Cons.prems(2) by (simp add: cand_ok_def)
      moreover have "swap_full s1 \<Longrightarrow> swap_full s'" using i(4) by (simp add: swap_full_def)
      ultimately show ?thesis using i same_resident_trans [OF one(3) i(2,5)] by auto
    qed
    then show ?thesis unfolding l
      using rest one(4) reaped_from_trans [OF one(3) rest(3)]
      by (intro exI [of _ reached] exI [of _ n'] exI [of _ s'] exI [of _ fs']) auto
  qed
qed

lemma sweeps_ok:
  assumes laws: "pt_laws P view (fl_rep_at x PHYS_MEM_OFFSET)" and "mm_ok x view s fs" "\<forall>c\<in>set cs. cand_ok s c"
  shows "\<exists>n' s' fs'. sweeps x P target cs ss n s = Inr (n', s') \<and> mm_ok x view s' fs' \<and> reaped_from view s s' \<and>
    length fs' + n = length fs + n' \<and>
    (n' = n \<longrightarrow> same_resident view s s' \<and>
       ((\<exists>sweep\<in>set ss. 2 \<le> sweep) \<longrightarrow> (\<forall>c\<in>set cs. task_view view s (c_tid c) (c_vaddr c) = None) \<or> swap_full s') \<and> mm_swap s' = mm_swap s)"
  using assms(2,3)
proof (induction ss arbitrary: n s fs)
  case Nil
  then show ?case by (intro exI [of _ n] exI [of _ s] exI [of _ fs]) (simp add: reaped_from_refl)
next
  case (Cons sweep ss)
  from sweep_loop_ok [OF laws Cons.prems, of target sweep n] obtain reached n1 s1 fs1 where
    one: "sweep_loop x P target sweep cs n s = Inr (reached, n1, s1)" "mm_ok x view s1 fs1" "reaped_from view s s1"
      "length fs1 + n = length fs + n1"
    and idle: "n1 = n \<longrightarrow> mm_swap s1 = mm_swap s \<and> same_resident view s s1 \<and>
       (2 \<le> sweep \<longrightarrow> (\<forall>c\<in>set cs. task_view view s (c_tid c) (c_vaddr c) = None) \<or> swap_full s1)" by meson
  have cs: "\<forall>c\<in>set cs. cand_ok s1 c" using Cons.prems(2) cand_reaped [OF one(3)] by simp
  show ?case
  proof (cases reached)
    case True
    then have "n1 \<noteq> n" "sweeps x P target cs (sweep # ss) n s = Inr (n1, s1)" using sweep_slots [OF one(1)] one(1) by simp_all
    then show ?thesis using one by (intro exI [of _ n1] exI [of _ s1] exI [of _ fs1]) simp
  next
    case False
    then have l: "sweeps x P target cs (sweep # ss) n s = sweeps x P target cs ss n1 s1" using one(1) by simp
    from Cons.IH [OF one(2) cs, of n1] obtain n' s' fs' where
      rest: "sweeps x P target cs ss n1 s1 = Inr (n', s')" "mm_ok x view s' fs'" "reaped_from view s1 s'" "length fs' + n1 = length fs1 + n'"
      and idle': "n' = n1 \<longrightarrow> same_resident view s1 s' \<and>
        ((\<exists>sweep\<in>set ss. 2 \<le> sweep) \<longrightarrow> (\<forall>c\<in>set cs. task_view view s1 (c_tid c) (c_vaddr c) = None) \<or> swap_full s') \<and> mm_swap s' = mm_swap s1" by meson
    have "same_resident view s s' \<and>
        ((\<exists>sweep\<in>set (sweep # ss). 2 \<le> sweep) \<longrightarrow> (\<forall>c\<in>set cs. task_view view s (c_tid c) (c_vaddr c) = None) \<or> swap_full s') \<and>
        mm_swap s' = mm_swap s" if "n' = n"
    proof -
      have n: "n1 = n" "n' = n1" using that sweep_slots [OF one(1)] sweeps_slots [OF rest(1)] by auto
      then have i: "mm_swap s1 = mm_swap s" "same_resident view s s1" "mm_swap s' = mm_swap s1" "same_resident view s1 s'"
        using idle idle' by blast+
      have "(\<forall>c\<in>set cs. task_view view s1 (c_tid c) (c_vaddr c) = None) \<Longrightarrow> \<forall>c\<in>set cs. task_view view s (c_tid c) (c_vaddr c) = None"
        using i(2) Cons.prems(2) by (simp add: cand_ok_def)
      moreover have "swap_full s1 \<Longrightarrow> swap_full s'" using i(3) by (simp add: swap_full_def)
      ultimately show ?thesis using i idle idle' n same_resident_trans [OF one(3) i(2,4)] by auto
    qed
    then show ?thesis unfolding l
      using rest one(4) reaped_from_trans [OF one(3) rest(3)] by (intro exI [of _ n'] exI [of _ s'] exI [of _ fs']) auto
  qed
qed


subsection \<open>The victim list\<close>

lemma areas_size_ok:
  "\<forall>a\<in>set as. va_start a \<le> va_end a \<Longrightarrow> n + (\<Sum>a\<leftarrow>as. va_end a - va_start a) < U64_LIMIT \<Longrightarrow>
   areas_size as n = Inr (n + (\<Sum>a\<leftarrow>as. va_end a - va_start a))"
  by (induction as arbitrary: n) (simp_all add: add_u64_def add.assoc)

definition tp_ok :: "('pt, 'fa) pt_ops \<Rightarrow> 'pt mm \<Rightarrow> task_pages \<Rightarrow> bool" where
  "tp_ok P s tp \<longleftrightarrow> t_user_entry (mm_tasks s (tp_tid tp)) \<noteq> 0 \<and> tp_cr3 tp = t_cr3 (mm_tasks s (tp_tid tp)) \<and>
     tp_resident tp = resident_pages P (mm_pts s (tp_cr3 tp)) (task_areas s (tp_tid tp))"

lemma gather_tasks_ok:
  assumes "\<forall>t\<in>set ts. t_user_entry (mm_tasks s t) \<noteq> 0 \<longrightarrow> (\<forall>a\<in>set (task_areas s t). va_start a \<le> va_end a)"
    and "n + (\<Sum>t\<leftarrow>ts. \<Sum>a\<leftarrow>task_areas s t. va_end a - va_start a) < U64_LIMIT"
  shows "\<exists>tps n'. gather_tasks P s ts n = Inr (tps, n') \<and> (\<forall>tp\<in>set tps. tp_ok P s tp) \<and>
    tp_tid ` set tps = {t \<in> set ts. t_user_entry (mm_tasks s t) \<noteq> 0}"
  using assms
proof (induction ts arbitrary: n)
  case (Cons t ts)
  let ?sz = "\<Sum>a\<leftarrow>task_areas s t. va_end a - va_start a"
  show ?case
  proof (cases "t_user_entry (mm_tasks s t) = 0")
    case True
    then show ?thesis using Cons.IH [of n] Cons.prems by auto
  next
    case False
    have sz: "areas_size (task_areas s t) 0 = Inr ?sz" "add_u64 n ?sz = Inr (n + ?sz)"
      using areas_size_ok [of "task_areas s t" 0] Cons.prems False by simp_all
    obtain tps n' where "gather_tasks P s ts (n + ?sz) = Inr (tps, n')" "\<forall>tp\<in>set tps. tp_ok P s tp"
      "tp_tid ` set tps = {t \<in> set ts. t_user_entry (mm_tasks s t) \<noteq> 0}"
      using Cons.IH [of "n + ?sz"] Cons.prems by (auto simp: add.assoc)
    then show ?thesis using False sz by (auto simp: Let_def tp_ok_def)
  qed
qed simp

lemma resident_pages_set:
  assumes "pt_laws P view rep" "\<forall>a\<in>set as. 4096 dvd va_start a"
  shows "p \<in> set (resident_pages P pt as) \<longleftrightarrow>
    4096 dvd p \<and> (\<exists>a\<in>set as. va_start a \<le> p \<and> p < va_end a) \<and> view pt p \<noteq> None"
proof -
  have "translate_addr P pt p \<noteq> None \<longleftrightarrow> view pt p \<noteq> None" if "4096 dvd p"
    by (auto simp: translate_addr_def pt_laws_translate [OF assms(1)] page_start_aligned(2) [OF that] split: option.splits)
  moreover have "p \<in> set (page_steps (va_start a) (va_end a)) \<longleftrightarrow> 4096 dvd p \<and> va_start a \<le> p \<and> p < va_end a" if "a \<in> set as" for a
    using page_steps_pages [of "va_start a" p "va_end a"] page_steps_aligned [of "va_start a" p "va_end a"] assms(2) that by blast
  ultimately show ?thesis by (auto simp: resident_pages_def)
qed

lemma gather_ok:
  assumes laws: "pt_laws P view rep" and fit: "areas_fit s"
  shows "\<exists>cs. gather_candidates P s = Inr cs \<and> (\<forall>c\<in>set cs. cand_ok s c \<and> task_view view s (c_tid c) (c_vaddr c) \<noteq> None) \<and>
    (cs = [] \<longrightarrow> (\<forall>t p. user_page s t p \<longrightarrow> task_view view s t p = None))"
proof -
  have tids: "set (all_tids (mm_table s)) = mm_table s" using fit by (simp add: areas_fit_def all_tids_def)
  have al: "va_start a \<le> va_end a" "4096 dvd va_start a" if "user_task s t" "a \<in> set (task_areas s t)" for t a
    using fit that by (auto simp: areas_fit_def)
  have "\<exists>tps n'. gather_tasks P s (all_tids (mm_table s)) 0 = Inr (tps, n') \<and> (\<forall>tp\<in>set tps. tp_ok P s tp) \<and>
      tp_tid ` set tps = {t \<in> set (all_tids (mm_table s)). t_user_entry (mm_tasks s t) \<noteq> 0}"
    by (rule gather_tasks_ok) (use fit al tids in \<open>auto simp: areas_fit_def user_task_def\<close>)
  then obtain tps n' where g: "gather_tasks P s (all_tids (mm_table s)) 0 = Inr (tps, n')" "\<forall>tp\<in>set tps. tp_ok P s tp"
    "tp_tid ` set tps = {t. user_task s t}" unfolding tids user_task_def by auto
  define R where "R = sum_list (map (\<lambda>tp. length (tp_resident tp)) tps)"
  define cs where "cs = map snd (sort_key (\<lambda>(excess, _). - excess) (concat (map (score_task R n') tps)))"
  have gc: "gather_candidates P s = Inr cs" using g(1) by (simp add: gather_candidates_def cs_def R_def)
  have set_cs: "set cs = (\<Union>tp\<in>set tps. (\<lambda>a. \<lparr>c_tid = tp_tid tp, c_cr3 = tp_cr3 tp, c_vaddr = a\<rparr>) ` set (tp_resident tp))"
    by (force simp: cs_def score_task_def Let_def)
  have res: "p \<in> set (tp_resident tp) \<longleftrightarrow> user_page s (tp_tid tp) p \<and> task_view view s (tp_tid tp) p \<noteq> None" if "tp \<in> set tps" for tp p
  proof -
    have "user_task s (tp_tid tp)" using g(3) that by blast
    then show ?thesis
      using g(2) that resident_pages_set [OF laws, of "task_areas s (tp_tid tp)" p "mm_pts s (tp_cr3 tp)"] al(2)
      by (auto simp: tp_ok_def user_page_def)
  qed
  have "cand_ok s c \<and> task_view view s (c_tid c) (c_vaddr c) \<noteq> None" if "c \<in> set cs" for c
    using that res g(2) unfolding set_cs by (auto simp: cand_ok_def tp_ok_def)
  moreover have "task_view view s t p = None" if "cs = []" "user_page s t p" for t p
  proof -
    have "t \<in> tp_tid ` set tps" using that(2) g(3) by (simp add: user_page_def)
    then obtain tp where tp: "tp \<in> set tps" "tp_tid tp = t" by blast
    have "p \<notin> set (tp_resident tp)" using set_cs that(1) tp(1) by auto
    then show ?thesis using res [OF tp(1), of p] that(2) unfolding tp(2) by (simp del: not_None_eq)
  qed
  ultimately show ?thesis using gc by blast
qed

subsection \<open>The loop\<close>

lemma reap_to_ok:
  assumes laws: "pt_laws P view (fl_rep_at x PHYS_MEM_OFFSET)" and "mm_ok x view s fs"
  shows "\<exists>n' s' fs'. reap_to x P target n s = Inr (n', s') \<and> mm_ok x view s' fs' \<and> reaped_from view s s' \<and>
    length fs' + n = length fs + n' \<and>
    (target \<le> length fs' \<or> (\<forall>t p. user_page s' t p \<longrightarrow> task_view view s' t p = None) \<or> swap_full s')"
  using assms(2)
proof (induction "free_slots (mm_swap s)" arbitrary: n s fs rule: less_induct)
  case less
  note D = mm_okD [OF less.prems]
  obtain cs where cs: "gather_candidates P s = Inr cs" "\<forall>c\<in>set cs. cand_ok s c \<and> task_view view s (c_tid c) (c_vaddr c) \<noteq> None"
    "cs = [] \<longrightarrow> (\<forall>t p. user_page s t p \<longrightarrow> task_view view s t p = None)"
    using gather_ok [OF laws D(1)] by blast
  show ?case
  proof (cases "target \<le> fl_count (mm_fl s) \<or> cs = []")
    case True
    then have "reap_to x P target n s = Inr (n, s)" using cs(1) by (auto simp: reap_to.simps [of x P target n s])
    then show ?thesis using True cs(3) less.prems D(8)
      by (intro exI [of _ n] exI [of _ s] exI [of _ fs]) (auto simp: reaped_from_refl)
  next
    case False
    have "\<forall>c\<in>set cs. cand_ok s c" using cs(2) by blast
    from sweeps_ok [OF laws less.prems this, of target "[0, 1, 2]" n] obtain n1 s1 fs1 where
      sw: "sweeps x P target cs [0, 1, 2] n s = Inr (n1, s1)" "mm_ok x view s1 fs1" "reaped_from view s s1" "length fs1 + n = length fs + n1"
      and "n1 = n \<longrightarrow> same_resident view s s1 \<and> ((\<exists>sweep\<in>set [0, 1, 2 :: nat]. 2 \<le> sweep) \<longrightarrow>
        (\<forall>c\<in>set cs. task_view view s (c_tid c) (c_vaddr c) = None) \<or> swap_full s1) \<and> mm_swap s1 = mm_swap s" by meson
    then have idle: "n1 = n \<Longrightarrow> (\<forall>c\<in>set cs. task_view view s (c_tid c) (c_vaddr c) = None) \<or> swap_full s1" by simp
    have r: "reap_to x P target n s = (if n1 = n then Inr (n1, s1) else reap_to x P target n1 s1)"
      using False unfolding reap_to.simps [of x P target n s] cs(1) rbind_simps sw(1) by simp
    show ?thesis
    proof (cases "n1 = n")
      case True
      moreover obtain c where "c \<in> set cs" using False by (cases cs) auto
      ultimately have "swap_full s1" using idle cs(2) by auto
      then show ?thesis using True r sw(2-4) by (intro exI [of _ n1] exI [of _ s1] exI [of _ fs1]) simp
    next
      case neq: False
      then have "free_slots (mm_swap s1) < free_slots (mm_swap s)" using sweeps_slots [OF sw(1)] by auto
      from less.hyps [OF this sw(2), of n1] obtain n' s' fs' where
        "reap_to x P target n1 s1 = Inr (n', s')" "mm_ok x view s' fs'" "reaped_from view s1 s'" "length fs' + n1 = length fs1 + n'"
        "target \<le> length fs' \<or> (\<forall>t p. user_page s' t p \<longrightarrow> task_view view s' t p = None) \<or> swap_full s'" by blast
      then show ?thesis using neq r sw(4) reaped_from_trans [OF sw(3)]
        by (intro exI [of _ n'] exI [of _ s'] exI [of _ fs']) auto
    qed
  qed
qed


subsection \<open>Properties\<close>

text \<open>
  C5. Reaping loses no page. When no two user pages share a frame, \<^verbatim>\<open>reap_to\<close> returns; every page of every user task
  keeps its bytes and flags, in its frame or in the swap slot recorded for it; the pool has grown by the number of
  pages reaped, and it has reached the target unless no user page is resident any more or the swap partition is full.
\<close>

theorem reaper_keeps_pages:
  assumes "pt_laws P view (fl_rep_at x PHYS_MEM_OFFSET)" "mm_ok x view s fs"
  shows "\<exists>n s' fs'. reap_to x P target 0 s = Inr (n, s') \<and> mm_ok x view s' fs' \<and> length fs' = length fs + n \<and>
    (\<forall>t p. user_page s t p \<longrightarrow> user_page s' t p \<and> page_value view s' t p = page_value view s t p) \<and>
    (target \<le> length fs' \<or> (\<forall>t p. user_page s' t p \<longrightarrow> task_view view s' t p = None) \<or> swap_full s')"
proof -
  obtain n s' fs' where "reap_to x P target 0 s = Inr (n, s')" "mm_ok x view s' fs'" and r: "reaped_from view s s'"
    and "length fs' + 0 = length fs + n" "target \<le> length fs' \<or> (\<forall>t p. user_page s' t p \<longrightarrow> task_view view s' t p = None) \<or> swap_full s'"
    using reap_to_ok [OF assms, of target 0] by blast
  then show ?thesis using reaped_fromD(5,6) [OF r] by auto
qed

text \<open>A user task with one page, as the loader builds it, and its forked child.\<close>

definition example_tasks :: "nat \<Rightarrow> vmm task" where
  "example_tasks t = fst (new_user \<lparr>next_pid = t, next_tid = t\<rparr> (\<lambda>_. 0) 0x100000 0x1000 0x2000 (if t = 2 then 0x400000 else 0) 0x7000
     (0x8000 + 0x1000 * t) (add_area vmm_new example_area) 7)"

lemma example_tasks_fields:
  "t_user_entry (example_tasks t) = (if t = 2 then 0x400000 else 0)" "t_cr3 (example_tasks t) = 0x8000 + 0x1000 * t"
  "t_vmm (example_tasks t) = add_area vmm_new example_area"
  by (simp_all add: example_tasks_def new_user_def case_prod_beta Let_def)

lemma example_mm:
  obtains s :: "pt_view mm" where "mm_ok example_phys (\<lambda>pt. pt) s example_pool_frames" "mm_tasks s = example_tasks" "mm_table s = {2, 3}"
    "mm_pts s = (\<lambda>_. [0x400000 \<mapsto> (0x6000, {PRESENT, WRITABLE})])" "\<not> swap_full s"
    "read_bytes (mm_mem s) (PHYS_MEM_OFFSET + 0x6000) 4096 = replicate 4096 7"
proof -
  let ?pt = "[0x400000 \<mapsto> (0x6000, {PRESENT, WRITABLE})]" and ?fs = example_pool_frames
  obtain sp :: "pt_view space" and m where sp: "space_ok example_phys sp ?fs" "used_frame sp ?fs 0x6000" "sp_pt sp = ?pt"
    "frame_bytes sp 0x6000 = replicate 4096 7" "sp_swap sp = example_partition m"
    by (rule example_space [OF length_replicate, of ?pt]) (rule that)
  define s :: "pt_view mm" where "s = \<lparr>mm_tasks = example_tasks, mm_table = {2, 3}, mm_pts = (\<lambda>_. ?pt),
    mm_fl = sp_fl sp, mm_mem = sp_mem sp, mm_swap = sp_swap sp\<rparr>"
  have space: "mm_space s 0 = sp" using sp(3) by (simp add: s_def mm_space_def)
  have ut: "user_task s t \<longleftrightarrow> t = 2" for t by (auto simp: user_task_def s_def example_tasks_fields)
  have sw: "task_swapped s t p = None" for t p by (simp add: s_def example_tasks_fields vmm_new_def add_area_def)
  have up: "t = 2" if "user_page s t p" for t p using that by (simp add: user_page_def ut)
  have pts: "mm_pts s c = ?pt" for c by (simp add: s_def)
  have "pages_ok (\<lambda>pt. pt) s ?fs"
    using sp(2) unfolding pages_ok_def ut sw space pts by (auto dest: up split: if_splits)
  moreover have "areas_fit s"
    using ut by (auto simp: areas_fit_def s_def example_tasks_fields all_tids_def vmm_new_def add_area_def example_area_def U64_LIMIT_def)
  ultimately have "mm_ok example_phys (\<lambda>pt. pt) s ?fs" using sp(1) by (simp add: mm_ok_def space)
  moreover have "\<not> swap_full s" using sp(5) by (simp add: swap_full_def s_def example_partition_def Let_def)
  ultimately show thesis using sp(4) by (intro that [of s]) (simp_all add: s_def)
qed

lemma example_user_page: "mm_tasks s = example_tasks \<Longrightarrow> mm_table s = {2, 3} \<Longrightarrow> user_page s 2 0x400000"
  by (simp add: user_page_def user_task_def example_tasks_fields vmm_new_def add_area_def example_area_def)

theorem reaper_keeps_pages_witness:
  "\<exists>(s :: pt_view mm) n s'. user_page s 2 0x400000 \<and> reap_to example_phys simple_pt_ops POOL_MAX 0 s = Inr (n, s') \<and>
     page_value (\<lambda>pt. pt) s' 2 0x400000 = Some (replicate 4096 7, {PRESENT, WRITABLE})"
proof -
  obtain s :: "pt_view mm" where s: "mm_ok example_phys (\<lambda>pt. pt) s example_pool_frames" "mm_tasks s = example_tasks" "mm_table s = {2, 3}"
    "mm_pts s = (\<lambda>_. [0x400000 \<mapsto> (0x6000, {PRESENT, WRITABLE})])" "read_bytes (mm_mem s) (PHYS_MEM_OFFSET + 0x6000) 4096 = replicate 4096 7"
    by (rule example_mm) (rule that)
  note up = example_user_page [OF s(2,3)]
  have v: "page_value (\<lambda>pt. pt) s 2 0x400000 = Some (replicate 4096 7, {PRESENT, WRITABLE})"
    using s(2,4,5) by (simp add: page_value_def example_tasks_fields vmm_new_def add_area_def)
  from reaper_keeps_pages [OF simple_pt_laws s(1), of POOL_MAX] obtain n s' where
    "reap_to example_phys simple_pt_ops POOL_MAX 0 s = Inr (n, s')"
    "\<forall>t p. user_page s t p \<longrightarrow> user_page s' t p \<and> page_value (\<lambda>pt. pt) s' t p = page_value (\<lambda>pt. pt) s t p" by blast
  then show ?thesis using up v by metis
qed

text \<open>
  C40. The reaper frees a shared frame. A task made by a copy-on-write fork maps the frames of its parent and is not
  itself a candidate. When the reaper takes a page of the parent, the frame goes into the pool while the child's
  table still maps it, and the next allocation hands it out.
\<close>

theorem reaper_frees_shared_frame:
  assumes "pt_laws P view (fl_rep_at x PHYS_MEM_OFFSET)" "mm_ok x view s fs" "cand_ok s c" "\<not> swap_full s"
    and "task_view view s (c_tid c) (c_vaddr c) = Some (f, fl)"
    and "t_cr3 (mm_tasks s child) \<noteq> c_cr3 c" "task_view view s child q = Some (f, fl')"
  shows "\<exists>s' sp. sweep_one x P 2 c s = Inr (True, s') \<and> task_view view s' child q = Some (f, fl') \<and>
    frame_alloc x (mm_space s' cr3) = Inr (Some f, sp)"
proof -
  have ps: "page_start (c_vaddr c) = c_vaddr c" and cr3: "c_cr3 c = t_cr3 (mm_tasks s (c_tid c))"
    using assms(3) by (simp_all add: cand_ok_def user_page_def page_start_aligned(2))
  obtain v sp where e: "evict_addr x P (t_vmm (mm_tasks s (c_tid c))) (mm_space s (c_cr3 c)) (c_vaddr c) = Inr (True, v, sp)"
    and ok: "mm_ok x view (mm_put s (c_tid c) (c_cr3 c) v sp) (f # fs)"
    using evict_step [OF assms(1-3,5)] assms(4) by blast
  let ?s = "mm_put s (c_tid c) (c_cr3 c) v sp"
  have "read_bits P s (c_cr3 c) (c_vaddr c) = Some (ACCESSED \<in> fl, DIRTY \<in> fl)"
    using assms(5) by (simp add: read_bits_def page_flags_def pt_laws_translate [OF assms(1)] ps cr3)
  then have "sweep_one x P 2 c s = Inr (True, ?s)" using e by (simp add: sweep_one_def sweep_takes_def)
  moreover have "task_view view ?s child q = Some (f, fl')" using assms(6,7) cr3 by (auto simp: mm_put_def)
  moreover obtain sp1 where "frame_alloc x (mm_space ?s cr3) = Inr (Some f, sp1)"
    by (rule alloc_ok [OF mm_okD(2) [OF ok, of cr3]]) (rule that)
  ultimately show ?thesis by blast
qed

theorem reaper_frees_shared_frame_witness:
  "\<exists>(s :: pt_view mm) s' sp. sweep_one example_phys simple_pt_ops 2 \<lparr>c_tid = 2, c_cr3 = 0xA000, c_vaddr = 0x400000\<rparr> s = Inr (True, s') \<and>
     mm_pts s' (t_cr3 (mm_tasks s' 3)) 0x400000 = Some (0x6000, {PRESENT, WRITABLE}) \<and>
     frame_alloc example_phys (mm_space s' 0) = Inr (Some 0x6000, sp)"
proof -
  obtain s :: "pt_view mm" where s: "mm_ok example_phys (\<lambda>pt. pt) s example_pool_frames" "mm_tasks s = example_tasks" "mm_table s = {2, 3}"
    "mm_pts s = (\<lambda>_. [0x400000 \<mapsto> (0x6000, {PRESENT, WRITABLE})])" "\<not> swap_full s"
    by (rule example_mm) (rule that)
  let ?c = "\<lparr>c_tid = 2, c_cr3 = 0xA000, c_vaddr = 0x400000\<rparr>"
  have c: "cand_ok s ?c" using example_user_page [OF s(2,3)] by (simp add: cand_ok_def s(2) example_tasks_fields)
  have r: "mm_pts s (t_cr3 (mm_tasks s (c_tid ?c))) (c_vaddr ?c) = Some (0x6000, {PRESENT, WRITABLE})"
    "t_cr3 (mm_tasks s 3) \<noteq> c_cr3 ?c" "mm_pts s (t_cr3 (mm_tasks s 3)) 0x400000 = Some (0x6000, {PRESENT, WRITABLE})"
    by (simp_all add: s(2,4) example_tasks_fields)
  from reaper_frees_shared_frame [where view = "\<lambda>pt. pt", OF simple_pt_laws s(1) c s(5) r, of 0] show ?thesis by blast
qed


end
