(* ===== verification/Loader.thy ===== *)
theory Loader
  imports FaultPaths Task
begin

text \<open>
  Building an address space for a flat user program: the kernel half of the top-level table
  (\<^verbatim>\<open>arch/paging.rs\<close>), the code pages and the task (\<^verbatim>\<open>process/loader.rs\<close>). The view of the new table as a mapping,
  \<^verbatim>\<open>OffsetPageTable::new\<close>, is the parameter \<open>table_at\<close>.
\<close>

definition USER_CODE_BASE :: nat where
  "USER_CODE_BASE = 0x400000"

definition USER_STACK_TOP :: nat where
  "USER_STACK_TOP = 0x00007FFFFFFFF000"

definition USER_STACK_SIZE :: nat where
  "USER_STACK_SIZE = 64 * 1024"

definition record_kernel_l4_entries :: "memory \<Rightarrow> nat \<Rightarrow> bool list res" where
  "record_kernel_l4_entries m cr3 =
     rbind (add_u64 PHYS_MEM_OFFSET cr3) (\<lambda>l4. Inr (map (\<lambda>i. load_u64 m (l4 + 8 * i) \<noteq> 0) [0..<512]))"

definition clone_kernel_half :: "phys_ops \<Rightarrow> (memory \<Rightarrow> nat \<Rightarrow> 'pt) \<Rightarrow> bool list option \<Rightarrow> nat \<Rightarrow> 'pt space \<Rightarrow>
    (nat \<times> 'pt \<times> 'pt space) res" where
  "clone_kernel_half x table_at kernel_l4 cr3 sp =
     rbind (frame_alloc x sp) (\<lambda>(r, sp1).
     case r of
       None \<Rightarrow> Inl ExpectFailed
     | Some new_frame \<Rightarrow>
         rbind (add_u64 PHYS_MEM_OFFSET new_frame) (\<lambda>new_l4.
         rbind (add_u64 PHYS_MEM_OFFSET cr3) (\<lambda>cur_l4.
         let m1 = write_bytes (sp_mem sp1) new_l4 (replicate 4096 0)
         in case kernel_l4 of
              None \<Rightarrow> Inl ExpectFailed
            | Some present \<Rightarrow>
                (let m2 = fold (\<lambda>i m. if present ! i then store_u64 m (new_l4 + 8 * i) (load_u64 m (cur_l4 + 8 * i)) else m) [0..<512] m1
                 in Inr (new_frame, table_at m2 new_frame, sp1\<lparr>sp_mem := m2\<rparr>)))))"

subsection \<open>Loading\<close>

definition code_flags :: pflags where
  "code_flags = {PRESENT, USER_ACCESSIBLE}"

text \<open>The offsets of the pages of the code, and the loop over them. The table of the space is the child's.\<close>

definition code_offsets :: "u8 list \<Rightarrow> nat list" where
  "code_offsets bytes = map (\<lambda>k. 4096 * k) [0 ..< (length bytes + 4095) div 4096]"

fun load_code :: "phys_ops \<Rightarrow> ('pt, free_list \<times> memory) pt_ops \<Rightarrow> u8 list \<Rightarrow> nat list \<Rightarrow> 'pt space \<Rightarrow> 'pt space res" where
  "load_code x P bytes [] sp = Inr sp"
| "load_code x P bytes (off # offs) sp =
     rbind (frame_alloc x sp) (\<lambda>(r, sp1).
     case r of
       None \<Rightarrow> Inl ExpectFailed
     | Some frame \<Rightarrow>
         rbind (add_u64 PHYS_MEM_OFFSET frame) (\<lambda>dst.
         let m1 = write_bytes (sp_mem sp1) dst (replicate 4096 0);
             m2 = write_bytes m1 dst (take 4096 (drop off bytes))
         in rbind (space_map P (sp1\<lparr>sp_mem := m2\<rparr>) (page_of P (USER_CODE_BASE + off)) frame code_flags) (load_code x P bytes offs)))"

definition heap_base :: "u8 list \<Rightarrow> nat res" where
  "heap_base bytes = rbind (add_u64 USER_CODE_BASE (length bytes)) (\<lambda>e1.
     rbind (add_u64 e1 4096) (\<lambda>e2. Inr ((e2 - 1) div 4096 * 4096)))"

definition stack_area :: vm_area where
  "stack_area = \<lparr>va_start = USER_STACK_TOP - USER_STACK_SIZE, va_end = USER_STACK_TOP,
     va_flags = {PRESENT, WRITABLE, USER_ACCESSIBLE}, va_kind = Anonymous\<rparr>"

text \<open>The result is the task, the view of its page table, and the state with the table in use as before.\<close>

definition load_flat :: "phys_ops \<Rightarrow> ('pt, free_list \<times> memory) pt_ops \<Rightarrow> (memory \<Rightarrow> nat \<Rightarrow> 'pt) \<Rightarrow> bool list option \<Rightarrow> nat \<Rightarrow>
    'pt space \<Rightarrow> id_counters \<Rightarrow> memory \<Rightarrow> nat \<Rightarrow> nat \<Rightarrow> nat \<Rightarrow> u8 list \<Rightarrow> nat \<Rightarrow>
    (vmm task \<times> 'pt \<times> 'pt space \<times> id_counters \<times> memory) res" where
  "load_flat x P table_at kernel_l4 cr3 sp ids m base trampoline user_trampoline bytes priority =
     rbind (clone_kernel_half x table_at kernel_l4 cr3 sp) (\<lambda>(l4_frame, child, sp1).
     rbind (load_code x P bytes (code_offsets bytes) (sp1\<lparr>sp_pt := child\<rparr>)) (\<lambda>sp2.
     rbind (heap_base bytes) (\<lambda>heap_start.
     let (task, ids', m') = new_user ids m base trampoline user_trampoline USER_CODE_BASE USER_STACK_TOP l4_frame (add_area vmm_new stack_area) priority
     in Inr (task\<lparr>t_heap_start := heap_start, t_brk := heap_start\<rparr>, sp_pt sp2, sp2\<lparr>sp_pt := sp_pt sp\<rparr>, ids', m'))))"

end
