(* ===== verification/LoaderProps.thy ===== *)
theory LoaderProps
  imports Loader
begin

text \<open>
  The image of a loaded program: its code lies in frames of its own, mapped read-only for the user at the load
  address, and nothing in use is touched.
\<close>

definition code_page :: "u8 list \<Rightarrow> nat \<Rightarrow> u8 list" where
  "code_page bytes off = (let chunk = take 4096 (drop off bytes) in chunk @ replicate (4096 - length chunk) 0)"

lemma length_code_page [simp]: "length (code_page bytes off) = 4096"
  by (simp add: code_page_def Let_def)

lemma write_padded:
  "write_bytes (write_bytes m a (replicate 4096 0)) a (take 4096 (drop off bytes)) = write_bytes m a (code_page bytes off)"
  by (rule ext) (auto simp: write_bytes_def code_page_def Let_def nth_append)

lemma load_code_ok:
  assumes laws: "pt_laws P view (fl_rep_at x PHYS_MEM_OFFSET)" "pt_frame_laws x P"
  shows "space_ok x sp fs \<Longrightarrow> 4 * length offs \<le> length fs \<Longrightarrow> distinct offs \<Longrightarrow>
    \<forall>off\<in>set offs. 4096 dvd off \<and> view (sp_pt sp) (USER_CODE_BASE + off) = None \<Longrightarrow>
    \<exists>sp' n. load_code x P bytes offs sp = Inr sp' \<and> space_ok x sp' (drop n fs) \<and>
      (\<forall>off\<in>set offs. \<exists>f. view (sp_pt sp') (USER_CODE_BASE + off) = Some (f, code_flags) \<and> frame_bytes sp' f = code_page bytes off) \<and>
      (\<forall>p. p \<notin> (+) USER_CODE_BASE ` set offs \<longrightarrow> view (sp_pt sp') p = view (sp_pt sp) p) \<and>
      (\<forall>g. frame_ok PHYS_MEM_OFFSET g \<longrightarrow> g \<notin> set fs \<longrightarrow> frame_bytes sp' g = frame_bytes sp g)"
proof (induction offs arbitrary: sp fs)
  case Nil
  then show ?case by (intro exI [of _ sp] exI [of _ 0]) simp
next
  case (Cons off offs)
  let ?p = "USER_CODE_BASE + off"
  obtain f fs1 where fs: "fs = f # fs1" and len: "3 \<le> length fs1" "4 * length offs + 3 \<le> length fs1"
    using Cons.prems(2) by (cases fs) auto
  obtain sp1 where s1: "frame_alloc x sp = Inr (Some f, sp1)" "space_ok x sp1 fs1" "sp_mem sp1 = sp_mem sp"
    "sp_pt sp1 = sp_pt sp" "sp_swap sp1 = sp_swap sp"
    using Cons.prems(1) unfolding fs by (rule alloc_ok)
  have u1: "used_frame sp1 fs1 f" using Cons.prems(1) s1(5) unfolding fs by (rule used_frame_head)
  have page: "page_of P ?p = ?p" "view (sp_pt sp1) ?p = None"
    using Cons.prems(4) s1(4) pt_laws_page_of [OF laws(1), of ?p] by (auto simp: page_start_def USER_CODE_BASE_def mod_eq_0_iff_dvd)
  obtain sp2 where s2: "space_map P (sp1\<lparr>sp_mem := write_bytes (sp_mem sp1) (PHYS_MEM_OFFSET + f) (code_page bytes off), sp_pt := sp_pt sp1\<rparr>) ?p f code_flags = Inr sp2"
    "view (sp_pt sp2) = (view (sp_pt sp1))(?p \<mapsto> (f, code_flags))" "frame_bytes sp2 f = code_page bytes off"
    "\<And>g. frame_ok PHYS_MEM_OFFSET g \<Longrightarrow> g \<notin> set (f # fs1) \<Longrightarrow> frame_bytes sp2 g = frame_bytes sp1 g"
    "\<exists>n\<le>3. space_ok x sp2 (drop n fs1)"
    by (rule fill_and_map [OF laws s1(2) u1 len(1) page(2) length_code_page]) (rule that)
  from s2(5) obtain n where n: "n \<le> 3" "space_ok x sp2 (drop n fs1)" by blast
  have "\<forall>off\<in>set offs. 4096 dvd off \<and> view (sp_pt sp2) (USER_CODE_BASE + off) = None"
    using Cons.prems(3,4) s2(2) s1(4) by auto
  moreover have "4 * length offs \<le> length (drop n fs1)" "distinct offs" using len(2) n(1) Cons.prems(3) by simp_all
  ultimately obtain sp' k where r: "load_code x P bytes offs sp2 = Inr sp'" "space_ok x sp' (drop k (drop n fs1))"
    "\<forall>off\<in>set offs. \<exists>f. view (sp_pt sp') (USER_CODE_BASE + off) = Some (f, code_flags) \<and> frame_bytes sp' f = code_page bytes off"
    "\<And>p. p \<notin> (+) USER_CODE_BASE ` set offs \<Longrightarrow> view (sp_pt sp') p = view (sp_pt sp2) p"
    "\<And>g. frame_ok PHYS_MEM_OFFSET g \<Longrightarrow> g \<notin> set (drop n fs1) \<Longrightarrow> frame_bytes sp' g = frame_bytes sp2 g"
    using Cons.IH [OF n(2)] by blast
  note f = used_frameD [OF u1]
  have "f \<notin> set (drop n fs1)" "?p \<notin> (+) USER_CODE_BASE ` set offs" using f(2) Cons.prems(3) by (auto dest: in_set_dropD)
  then have "view (sp_pt sp') ?p = Some (f, code_flags)" "frame_bytes sp' f = code_page bytes off"
    using r(4) [of ?p] r(5) [OF f(1)] Cons.prems(3) s2(2,3) by auto
  moreover have "load_code x P bytes (off # offs) sp = Inr sp'"
    using s1(1) f(4) s2(1) page(1) r(1) by (simp add: write_padded)
  moreover have "frame_bytes sp' g = frame_bytes sp g" if "frame_ok PHYS_MEM_OFFSET g" "g \<notin> set fs" for g
    using r(5) [OF that(1)] s2(4) [OF that(1)] that(2) s1(3) unfolding fs by (auto dest: in_set_dropD)
  ultimately show ?case
    using r(2-4) s2(2) s1(4) by (intro exI [of _ sp'] exI [of _ "Suc (k + n)"]) (auto simp: fs add.commute)
qed

subsection \<open>The kernel half\<close>

text \<open>
  What a table shows of a page whose top-level entry is unused: nothing.
\<close>

definition table_laws :: "(memory \<Rightarrow> nat \<Rightarrow> 'pt) \<Rightarrow> ('pt \<Rightarrow> pt_view) \<Rightarrow> bool" where
  "table_laws table_at view \<longleftrightarrow>
     (\<forall>m f p. load_u64 m (PHYS_MEM_OFFSET + f + 8 * (p div 2 ^ 39 mod 512)) = 0 \<longrightarrow> view (table_at m f) p = None)"

lemma load_u64_zero: "(\<And>k. k < 8 \<Longrightarrow> m (a + k) = 0) \<Longrightarrow> load_u64 m a = 0"
proof -
  assume z: "\<And>k. k < 8 \<Longrightarrow> m (a + k) = 0"
  have "load_u64 m a = load_u64 (\<lambda>_. 0) a" by (rule load_u64_cong) (use z in simp)
  also have "\<dots> = 0" by (simp add: load_u64_def upt_rec)
  finally show ?thesis .
qed

lemma copy_entries:
  fixes present :: "bool list"
  defines "step \<equiv> (\<lambda>new cur i m. if present ! i then store_u64 m (new + 8 * i) (load_u64 m (cur + 8 * i)) else m)"
  assumes "\<forall>i\<in>set is. i < 512"
  shows "a < new \<or> new + 4096 \<le> a \<Longrightarrow> fold (step new cur) is m a = m a"
    "\<not> present ! j \<Longrightarrow> load_u64 (fold (step new cur) is m) (new + 8 * j) = load_u64 m (new + 8 * j)"
proof -
  show "fold (step new cur) is m a = m a" if "a < new \<or> new + 4096 \<le> a"
    using assms(2) that by (induction "is" arbitrary: m) (auto simp: step_def)
  show "load_u64 (fold (step new cur) is m) (new + 8 * j) = load_u64 m (new + 8 * j)" if "\<not> present ! j"
    using assms(2)
  proof (induction "is" arbitrary: m)
    case (Cons i "is")
    have "load_u64 (step new cur i m) (new + 8 * j) = load_u64 m (new + 8 * j)"
      using that by (cases "i = j") (auto simp: step_def intro!: load_store_u64_other)
    then show ?case using Cons by simp
  qed simp
qed

lemma clone_kernel_half_ok:
  assumes ok: "space_ok x sp (f # fs)" and l4: "PHYS_MEM_OFFSET + cur < U64_LIMIT" "\<not> present ! 0"
  obtains m2 sp1 where "clone_kernel_half x table_at (Some present) cur sp = Inr (f, table_at m2 f, sp1)" "sp_mem sp1 = m2"
    "space_ok x sp1 fs" "load_u64 m2 (PHYS_MEM_OFFSET + f) = 0" "sp_pt sp1 = sp_pt sp"
    "\<And>g. frame_ok PHYS_MEM_OFFSET g \<Longrightarrow> g \<noteq> f \<Longrightarrow> frame_bytes sp1 g = frame_bytes sp g"
proof -
  obtain sp1 where s1: "frame_alloc x sp = Inr (Some f, sp1)" "space_ok x sp1 fs" "sp_mem sp1 = sp_mem sp"
    "sp_pt sp1 = sp_pt sp" "sp_swap sp1 = sp_swap sp"
    by (rule alloc_ok [OF ok])
  have u1: "used_frame sp1 fs f" using ok s1(5) by (rule used_frame_head)
  note f = used_frameD [OF u1]
  let ?new = "PHYS_MEM_OFFSET + f" and ?cur = "PHYS_MEM_OFFSET + cur"
  define m1 where "m1 = write_bytes (sp_mem sp1) ?new (replicate 4096 0)"
  define m2 where "m2 = fold (\<lambda>i m. if present ! i then store_u64 m (?new + 8 * i) (load_u64 m (?cur + 8 * i)) else m) [0..<512] m1"
  have out: "m2 a = sp_mem sp1 a" if "outside a f" for a
    using that copy_entries(1) [of "[0..<512]" a ?new present ?cur m1] by (auto simp: m2_def m1_def outside_def)
  have ok2: "space_ok x (sp1\<lparr>sp_mem := m2\<rparr>) fs" by (rule fill_ok [OF s1(2) f(1-3) out])
  have "load_u64 m2 ?new = load_u64 m1 ?new"
    using copy_entries(2) [of "[0..<512]" present 0 ?new ?cur m1] l4(2) by (simp add: m2_def)
  also have "\<dots> = 0" by (rule load_u64_zero) (simp add: m1_def write_bytes_def)
  finally have zero: "load_u64 m2 ?new = 0" .
  have "frame_bytes (sp1\<lparr>sp_mem := m2\<rparr>) g = frame_bytes sp g" if "frame_ok PHYS_MEM_OFFSET g" "g \<noteq> f" for g
    by (rule frame_bytes_cong) (use frames_outside [OF that(1) f(1) that(2)] out s1(3) in simp)
  moreover have "clone_kernel_half x table_at (Some present) cur sp = Inr (f, table_at m2 f, sp1\<lparr>sp_mem := m2\<rparr>)"
    using s1(1) f(4) l4(1) by (simp add: clone_kernel_half_def m2_def m1_def add_u64_ok Let_def)
  ultimately show thesis using s1(4) ok2 zero by (intro that [of m2 "sp1\<lparr>sp_mem := m2\<rparr>"]) simp_all
qed

subsection \<open>The loaded program\<close>

lemma heap_base_pages:
  assumes "USER_CODE_BASE + length bytes + 4096 < U64_LIMIT"
  shows "heap_base bytes = Inr (USER_CODE_BASE + 4096 * ((length bytes + 4095) div 4096))"
proof -
  have "(USER_CODE_BASE + length bytes + 4095) div 4096 * 4096 = USER_CODE_BASE + 4096 * ((length bytes + 4095) div 4096)"
    using div_mult_self1 [of 4096 "length bytes + 4095" 1024] by (simp add: USER_CODE_BASE_def add.commute [of _ "length bytes"])
  then show ?thesis using assms by (simp add: heap_base_def add_u64_ok add.commute [of 4095])
qed

text \<open>
  A loaded program is in memory as its file. With enough free frames, and the lowest top-level entry unused
  by the kernel, \<^verbatim>\<open>load_flat\<close> returns a task that starts at the load address in an address space where every page of
  the code is mapped present and user-accessible but not writable, to a frame with the bytes of the file,
  padded with zeros; the heap starts, empty, at the first page after the code; the table in use and the bytes
  of every frame that was not free are unchanged.
\<close>

theorem load_flat_image:
  assumes laws: "pt_laws P view (fl_rep_at x PHYS_MEM_OFFSET)" "pt_frame_laws x P" "table_laws table_at view"
    and ok: "space_ok x sp (f # fs)" "4 * ((length bytes + 4095) div 4096) \<le> length fs"
    and l4: "PHYS_MEM_OFFSET + cur < U64_LIMIT" "\<not> present ! 0" and small: "length bytes < 2 ^ 38"
  shows "\<exists>task child sp' ids' m'. load_flat x P table_at (Some present) cur sp ids m base tramp utramp bytes prio = Inr (task, child, sp', ids', m') \<and>
    (\<forall>off\<in>set (code_offsets bytes). \<exists>g. view child (USER_CODE_BASE + off) = Some (g, {PRESENT, USER_ACCESSIBLE}) \<and>
       frame_bytes sp' g = code_page bytes off) \<and>
    t_user_entry task = USER_CODE_BASE \<and> t_cr3 task = f \<and> t_brk task = t_heap_start task \<and>
    t_heap_start task = USER_CODE_BASE + 4096 * ((length bytes + 4095) div 4096) \<and>
    sp_pt sp' = sp_pt sp \<and> (\<forall>g. frame_ok PHYS_MEM_OFFSET g \<longrightarrow> g \<notin> set (f # fs) \<longrightarrow> frame_bytes sp' g = frame_bytes sp g)"
proof -
  obtain m2 sp1 where c: "clone_kernel_half x table_at (Some present) cur sp = Inr (f, table_at m2 f, sp1)" "sp_mem sp1 = m2"
    "space_ok x sp1 fs" "load_u64 m2 (PHYS_MEM_OFFSET + f) = 0" "sp_pt sp1 = sp_pt sp"
    "\<And>g. frame_ok PHYS_MEM_OFFSET g \<Longrightarrow> g \<noteq> f \<Longrightarrow> frame_bytes sp1 g = frame_bytes sp g"
    by (rule clone_kernel_half_ok [OF ok(1) l4]) (rule that)
  let ?sp1 = "sp1\<lparr>sp_pt := table_at m2 f\<rparr>" and ?offs = "code_offsets bytes"
  have offs: "off < 2 ^ 39 - USER_CODE_BASE" "4096 dvd off" if "off \<in> set ?offs" for off
    using that small by (auto simp: code_offsets_def USER_CODE_BASE_def)
  have "view (sp_pt ?sp1) (USER_CODE_BASE + off) = None" if "off \<in> set ?offs" for off
  proof -
    have "(USER_CODE_BASE + off) div 2 ^ 39 = 0" using offs(1) [OF that] by simp
    then show ?thesis using laws(3) [unfolded table_laws_def, rule_format, of m2 f "USER_CODE_BASE + off"] c(4) by simp
  qed
  moreover have "space_ok x ?sp1 fs" using c(3) unfolding space_ok_pt .
  moreover have "4 * length ?offs \<le> length fs" "distinct ?offs" using ok(2) by (simp_all add: code_offsets_def distinct_map inj_on_def)
  ultimately obtain sp' n where r: "load_code x P bytes ?offs ?sp1 = Inr sp'"
    "\<forall>off\<in>set ?offs. \<exists>f. view (sp_pt sp') (USER_CODE_BASE + off) = Some (f, code_flags) \<and> frame_bytes sp' f = code_page bytes off"
    "\<forall>g. frame_ok PHYS_MEM_OFFSET g \<longrightarrow> g \<notin> set fs \<longrightarrow> frame_bytes sp' g = frame_bytes ?sp1 g"
    using load_code_ok [OF laws(1,2), of ?sp1 fs ?offs bytes] offs(2) by blast
  have h: "heap_base bytes = Inr (USER_CODE_BASE + 4096 * ((length bytes + 4095) div 4096))"
    using small by (intro heap_base_pages) (simp add: USER_CODE_BASE_def U64_LIMIT_def)
  obtain task ids' m' where t: "new_user ids m base tramp utramp USER_CODE_BASE USER_STACK_TOP f (add_area vmm_new stack_area) prio = (task, ids', m')"
    using prod_cases3 by blast
  then have "t_user_entry task = USER_CODE_BASE" "t_cr3 task = f" by (auto simp: new_user_def Let_def split: prod.splits)
  moreover have "load_flat x P table_at (Some present) cur sp ids m base tramp utramp bytes prio =
      Inr (task\<lparr>t_heap_start := USER_CODE_BASE + 4096 * ((length bytes + 4095) div 4096), t_brk := USER_CODE_BASE + 4096 * ((length bytes + 4095) div 4096)\<rparr>,
        sp_pt sp', sp'\<lparr>sp_pt := sp_pt sp\<rparr>, ids', m')"
    using c(1) r(1) h t by (simp add: load_flat_def)
  ultimately show ?thesis using r(2,3) c(6) by (auto simp: code_flags_def)
qed

text \<open>A state with five free frames.\<close>

lemma example_load_space:
  obtains sp :: "pt_view space" where "space_ok example_phys sp (0x6000 # example_pool_frames)"
proof -
  obtain sp0 :: "pt_view space" where sp0: "space_ok example_phys sp0 example_pool_frames" "used_frame sp0 example_pool_frames 0x6000"
    by (rule example_space [of "replicate 4096 0" Map.empty]) auto
  then show thesis by (rule frame_dealloc_ok) (rule that)
qed

end
