(* ===== verification/Overlay.thy ===== *)
theory Overlay
  imports Prelude "HOL-Library.List_Lexorder"
begin

text \<open>
  The file-system overlays of \<^verbatim>\<open>fs/overlay.rs\<close>: permissions by path and password hashes by user. A \<^verbatim>\<open>BTreeMap\<close> is
  a list of pairs with ascending keys, which is also the order of its iterators. Strings are their UTF-8
  bytes, with the order Rust gives them. SHA-256 is the function \<open>sha\<close>.
\<close>

unbundle bit_operations_syntax

subsection \<open>Ordered maps\<close>

type_synonym ('k, 'v) btree = "('k \<times> 'v) list"

fun bt_insert :: "'k::linorder \<Rightarrow> 'v \<Rightarrow> ('k, 'v) btree \<Rightarrow> ('k, 'v) btree" where
  "bt_insert k v [] = [(k, v)]"
| "bt_insert k v ((k', v') # xs) =
     (if k < k' then (k, v) # (k', v') # xs else if k = k' then (k, v) # xs else (k', v') # bt_insert k v xs)"

definition bt_remove :: "'k \<Rightarrow> ('k, 'v) btree \<Rightarrow> ('k, 'v) btree" where
  "bt_remove k xs = filter (\<lambda>e. fst e \<noteq> k) xs"

definition bt_ok :: "('k::linorder, 'v) btree \<Rightarrow> bool" where
  "bt_ok xs \<longleftrightarrow> sorted_wrt (<) (map fst xs)"

lemma set_bt_insert: "fst ` set (bt_insert k v xs) = insert k (fst ` set xs)"
  by (induction k v xs rule: bt_insert.induct) (simp_all add: insert_commute)

lemma length_bt_insert: "length (bt_insert k v xs) \<le> Suc (length xs)"
  by (induction k v xs rule: bt_insert.induct) simp_all

lemma bt_insert_ok: "bt_ok xs \<Longrightarrow> bt_ok (bt_insert k v xs)"
proof (induction xs)
  case (Cons e xs)
  obtain k' v' where e: "e = (k', v')" by (cases e)
  have "\<forall>y\<in>set (map fst (bt_insert k v xs)). k' < y" if "k' < k"
    unfolding set_map set_bt_insert using that Cons.prems by (auto simp: bt_ok_def e)
  then show ?case using Cons by (auto simp: bt_ok_def e)
qed (simp add: bt_ok_def)

lemma map_of_bt_insert: "bt_ok xs \<Longrightarrow> map_of (bt_insert k v xs) = (map_of xs)(k \<mapsto> v)"
proof (induction xs)
  case (Cons e xs)
  have "bt_ok xs" using Cons.prems by (simp add: bt_ok_def)
  from Cons.IH [OF this] show ?case by (cases e) (auto simp: fun_eq_iff)
qed simp

lemma map_of_bt_remove: "map_of (bt_remove k xs) = (map_of xs)(k := None)"
  by (induction xs) (auto simp: bt_remove_def fun_eq_iff)

lemma bt_remove_ok: "bt_ok xs \<Longrightarrow> bt_ok (bt_remove k xs)"
  unfolding bt_ok_def bt_remove_def by (induction xs) auto

text \<open>Inserting the entries of an ordered map, in order, rebuilds the map.\<close>

lemma bt_insert_last: "\<forall>e\<in>set xs. fst e < k \<Longrightarrow> bt_insert k v xs = xs @ [(k, v)]"
  by (induction xs) auto

lemma bt_rebuild: "bt_ok (xs @ ys) \<Longrightarrow> fold (\<lambda>(k, v). bt_insert k v) ys xs = xs @ ys"
proof (induction ys arbitrary: xs)
  case (Cons e ys)
  obtain k v where e: "e = (k, v)" by (cases e)
  have "bt_insert k v xs = xs @ [(k, v)]"
    by (rule bt_insert_last) (use Cons.prems in \<open>auto simp: bt_ok_def sorted_wrt_append e\<close>)
  then show ?case using Cons.IH [of "xs @ [(k, v)]"] Cons.prems by (simp add: e)
qed simp

subsection \<open>Permissions\<close>

type_synonym path = "u8 list"

definition can_read :: "u8 \<Rightarrow> bool" where
  "can_read rwx \<longleftrightarrow> rwx AND 4 \<noteq> 0"

definition can_write :: "u8 \<Rightarrow> bool" where
  "can_write rwx \<longleftrightarrow> rwx AND 2 \<noteq> 0"

definition can_execute :: "u8 \<Rightarrow> bool" where
  "can_execute rwx \<longleftrightarrow> rwx AND 1 \<noteq> 0"

record perm_entry =
  pe_uid :: u32
  pe_gid :: u32
  pe_owner_rwx :: u8
  pe_group_rwx :: u8
  pe_world_rwx :: u8

type_synonym perms_db = "(path, perm_entry) btree"

definition perms_new :: perms_db where
  "perms_new = []"

definition perms_get :: "perms_db \<Rightarrow> path \<Rightarrow> perm_entry option" where
  "perms_get db p = map_of db p"

definition perms_set :: "perms_db \<Rightarrow> path \<Rightarrow> perm_entry \<Rightarrow> perms_db" where
  "perms_set db p e = bt_insert p e db"

definition perms_remove :: "perms_db \<Rightarrow> path \<Rightarrow> perms_db" where
  "perms_remove db p = bt_remove p db"

subsection \<open>Authentication\<close>

record auth_entry =
  au_uid :: u32
  au_salt :: "u8 list"
  au_hash :: "u8 list"

type_synonym auth_db = "(u32, auth_entry) btree"

definition auth_entry_new :: "(u8 list \<Rightarrow> u8 list) \<Rightarrow> u32 \<Rightarrow> u8 list \<Rightarrow> auth_entry" where
  "auth_entry_new sha uid password =
     (let salt = replicate 16 0 in \<lparr>au_uid = uid, au_salt = salt, au_hash = sha (salt @ password)\<rparr>)"

definition auth_new :: auth_db where
  "auth_new = []"

definition auth_verify :: "(u8 list \<Rightarrow> u8 list) \<Rightarrow> auth_db \<Rightarrow> u32 \<Rightarrow> u8 list \<Rightarrow> bool" where
  "auth_verify sha db uid password =
     (case map_of db uid of None \<Rightarrow> False | Some entry \<Rightarrow> sha (au_salt entry @ password) = au_hash entry)"

definition auth_insert :: "auth_db \<Rightarrow> auth_entry \<Rightarrow> auth_db" where
  "auth_insert db entry = bt_insert (au_uid entry) entry db"

definition auth_iter :: "auth_db \<Rightarrow> auth_entry list" where
  "auth_iter db = map snd db"

definition auth_len :: "auth_db \<Rightarrow> nat" where
  "auth_len db = length db"

end
