(* ===== verification/Fat.thy ===== *)
theory Fat
  imports Overlay
begin

text \<open>
  The interface of the fatfs crate that the file system uses, as a parameter over an abstract volume \<open>'d\<close>. An
  open file is its path and its position. What the crate documents about files is the hypothesis \<open>fat_laws\<close>,
  stated through the contents of the files of a volume. Names of a FAT volume are compared without case, so
  several paths can name one file: \<open>canon\<close> gives the name under which the file of a path is kept. A write
  may fail when the volume is full, but not when it stays within the file.
\<close>

record 'd fat_ops =
  fat_open_file :: "'d \<Rightarrow> path \<Rightarrow> bool"
  fat_create_file :: "'d \<Rightarrow> path \<Rightarrow> 'd option"
  fat_seek_start :: "'d \<Rightarrow> path \<Rightarrow> nat \<Rightarrow> nat option"   \<comment> \<open>the new position\<close>
  fat_seek_end :: "'d \<Rightarrow> path \<Rightarrow> nat option"
  fat_read :: "'d \<Rightarrow> path \<Rightarrow> nat \<Rightarrow> nat \<Rightarrow> (u8 list \<times> 'd) option"
  fat_write_all :: "'d \<Rightarrow> path \<Rightarrow> nat \<Rightarrow> u8 list \<Rightarrow> bool \<times> 'd"
  fat_truncate :: "'d \<Rightarrow> path \<Rightarrow> nat \<Rightarrow> 'd option"
  fat_remove :: "'d \<Rightarrow> path \<Rightarrow> 'd option"
  fat_rename :: "'d \<Rightarrow> path \<Rightarrow> path \<Rightarrow> 'd option"
  fat_create_dir :: "'d \<Rightarrow> path \<Rightarrow> 'd option"
  fat_open_dir :: "'d \<Rightarrow> path \<Rightarrow> (path \<times> bool) option list option"   \<comment> \<open>names and whether directories; \<open>None\<close> a read error\<close>

definition put_bytes :: "u8 list \<Rightarrow> nat \<Rightarrow> u8 list \<Rightarrow> u8 list" where
  "put_bytes c pos bs = take pos c @ bs @ drop (pos + length bs) c"

definition fat_laws :: "'d fat_ops \<Rightarrow> (path \<Rightarrow> path) \<Rightarrow> ('d \<Rightarrow> path \<rightharpoonup> u8 list) \<Rightarrow> bool" where
  "fat_laws F canon files \<longleftrightarrow>
     (\<forall>d p. fat_open_file F d p \<longleftrightarrow> files d (canon p) \<noteq> None) \<and>
     (\<forall>d p c. files d (canon p) = Some c \<longrightarrow> (\<exists>d'. fat_create_file F d p = Some d' \<and> files d' = files d)) \<and>
     (\<forall>d p d'. files d (canon p) = None \<longrightarrow> fat_create_file F d p = Some d' \<longrightarrow> files d' = (files d)(canon p \<mapsto> [])) \<and>
     (\<forall>d p c n. files d (canon p) = Some c \<longrightarrow> n \<le> length c \<longrightarrow> fat_seek_start F d p n = Some n) \<and>
     (\<forall>d p c. files d (canon p) = Some c \<longrightarrow> fat_seek_end F d p = Some (length c)) \<and>
     (\<forall>d p c pos n. files d (canon p) = Some c \<longrightarrow> pos \<le> length c \<longrightarrow>
        (\<exists>bs d'. fat_read F d p pos n = Some (bs, d') \<and> files d' = files d \<and> length bs \<le> n \<and>
           bs = take (length bs) (drop pos c) \<and> (0 < n \<longrightarrow> pos < length c \<longrightarrow> bs \<noteq> []))) \<and>
     (\<forall>d p c pos bs d'. files d (canon p) = Some c \<longrightarrow> pos \<le> length c \<longrightarrow> fat_write_all F d p pos bs = (True, d') \<longrightarrow>
        files d' = (files d)(canon p \<mapsto> put_bytes c pos bs)) \<and>
     (\<forall>d p c pos bs. files d (canon p) = Some c \<longrightarrow> pos + length bs \<le> length c \<longrightarrow> fst (fat_write_all F d p pos bs)) \<and>
     (\<forall>d p c pos. files d (canon p) = Some c \<longrightarrow> pos \<le> length c \<longrightarrow>
        (\<exists>d'. fat_truncate F d p pos = Some d' \<and> files d' = (files d)(canon p \<mapsto> take pos c)))"

lemma fat_laws_open: "fat_laws F canon files \<Longrightarrow> fat_open_file F d p \<longleftrightarrow> files d (canon p) \<noteq> None"
  by (rule fat_laws_def [THEN iffD1, THEN conjunct1, rule_format])

lemma fat_laws_create:
  assumes "fat_laws F canon files" "files d (canon p) = Some c"
  obtains d' where "fat_create_file F d p = Some d'" "files d' = files d"
  using assms(1) [unfolded fat_laws_def, THEN conjunct2, THEN conjunct1, rule_format, OF assms(2)] that by blast

lemma fat_laws_create_new: "fat_laws F canon files \<Longrightarrow> files d (canon p) = None \<Longrightarrow> fat_create_file F d p = Some d' \<Longrightarrow> files d' = (files d)(canon p \<mapsto> [])"
  by (rule fat_laws_def [THEN iffD1, THEN conjunct2, THEN conjunct2, THEN conjunct1, rule_format])

lemma fat_laws_seek: "fat_laws F canon files \<Longrightarrow> files d (canon p) = Some c \<Longrightarrow> n \<le> length c \<Longrightarrow> fat_seek_start F d p n = Some n"
  by (rule fat_laws_def [THEN iffD1, THEN conjunct2, THEN conjunct2, THEN conjunct2, THEN conjunct1, rule_format])

lemma fat_laws_seek_end: "fat_laws F canon files \<Longrightarrow> files d (canon p) = Some c \<Longrightarrow> fat_seek_end F d p = Some (length c)"
  by (rule fat_laws_def [THEN iffD1, THEN conjunct2, THEN conjunct2, THEN conjunct2, THEN conjunct2, THEN conjunct1, rule_format])

lemma fat_laws_read:
  assumes "fat_laws F canon files" "files d (canon p) = Some c" "pos \<le> length c"
  obtains bs d' where "fat_read F d p pos n = Some (bs, d')" "files d' = files d" "length bs \<le> n"
    "bs = take (length bs) (drop pos c)" "0 < n \<Longrightarrow> pos < length c \<Longrightarrow> bs \<noteq> []"
  using assms(1) [unfolded fat_laws_def, THEN conjunct2, THEN conjunct2, THEN conjunct2, THEN conjunct2, THEN conjunct2, THEN conjunct1, rule_format, OF assms(2,3), of n] that by blast

lemma fat_laws_write:
  assumes "fat_laws F canon files" "files d (canon p) = Some c" "pos \<le> length c" "fat_write_all F d p pos bs = (True, d')"
  shows "files d' = (files d)(canon p \<mapsto> put_bytes c pos bs)"
  using assms(1) [unfolded fat_laws_def, THEN conjunct2, THEN conjunct2, THEN conjunct2, THEN conjunct2, THEN conjunct2, THEN conjunct2, THEN conjunct1, rule_format, OF assms(2-4)] .

lemma fat_laws_overwrite:
  assumes "fat_laws F canon files" "files d (canon p) = Some c" "pos + length bs \<le> length c"
  obtains d' where "fat_write_all F d p pos bs = (True, d')" "files d' = (files d)(canon p \<mapsto> put_bytes c pos bs)"
proof -
  have "fst (fat_write_all F d p pos bs)"
    using assms(1) [unfolded fat_laws_def, THEN conjunct2, THEN conjunct2, THEN conjunct2, THEN conjunct2, THEN conjunct2, THEN conjunct2, THEN conjunct2, THEN conjunct1, rule_format, OF assms(2,3)] .
  then have w: "fat_write_all F d p pos bs = (True, snd (fat_write_all F d p pos bs))" by (simp add: prod_eq_iff)
  show thesis using assms(3) by (intro that [OF w] fat_laws_write [OF assms(1,2) _ w]) simp
qed

lemma fat_laws_truncate:
  assumes "fat_laws F canon files" "files d (canon p) = Some c" "pos \<le> length c"
  obtains d' where "fat_truncate F d p pos = Some d'" "files d' = (files d)(canon p \<mapsto> take pos c)"
  using assms(1) [unfolded fat_laws_def, THEN conjunct2, THEN conjunct2, THEN conjunct2, THEN conjunct2, THEN conjunct2, THEN conjunct2, THEN conjunct2, THEN conjunct2, rule_format, OF assms(2,3)] that by blast

text \<open>The laws are satisfiable: volumes that are the contents of their files.\<close>

definition simple_fat :: "(path \<rightharpoonup> u8 list) fat_ops" where
  "simple_fat = \<lparr>
     fat_open_file = (\<lambda>d p. d p \<noteq> None),
     fat_create_file = (\<lambda>d p. Some (if d p = None then d(p \<mapsto> []) else d)),
     fat_seek_start = (\<lambda>d p n. case d p of None \<Rightarrow> None | Some c \<Rightarrow> Some (min n (length c))),
     fat_seek_end = (\<lambda>d p. map_option length (d p)),
     fat_read = (\<lambda>d p pos n. case d p of None \<Rightarrow> None | Some c \<Rightarrow> Some (take n (drop pos c), d)),
     fat_write_all = (\<lambda>d p pos bs. (True, case d p of None \<Rightarrow> d | Some c \<Rightarrow> d(p \<mapsto> put_bytes c pos bs))),
     fat_truncate = (\<lambda>d p pos. case d p of None \<Rightarrow> None | Some c \<Rightarrow> Some (d(p \<mapsto> take pos c))),
     fat_remove = (\<lambda>d p. if d p = None then None else Some (d(p := None))),
     fat_rename = (\<lambda>d p q. case d p of None \<Rightarrow> None | Some c \<Rightarrow> if d q = None then Some (d(p := None, q \<mapsto> c)) else None),
     fat_create_dir = (\<lambda>d p. None),
     fat_open_dir = (\<lambda>d p. None)\<rparr>"

lemma simple_fat_laws: "fat_laws simple_fat (\<lambda>p. p) (\<lambda>d. d)"
  by (auto simp: fat_laws_def simple_fat_def min_def)

end
