(* ===== verification/SystemDomain.thy ===== *)
theory SystemDomain
  imports Fat
begin

text \<open>
  The databases of the \<^verbatim>\<open>/.system/\<close> domain (\<^verbatim>\<open>fs/system_domain.rs\<close>): fixed-size binary records, loading at boot,
  and the rewriting of a database in which dirty or incomplete records were found. The load loop need not
  end on an arbitrary volume, so it is a partial function; on a volume that obeys \<open>fat_laws\<close> it returns.
\<close>

unbundle bit_operations_syntax

definition PATH_MAX :: nat where
  "PATH_MAX = 64"

definition AUTH_RECORD_SIZE :: nat where
  "AUTH_RECORD_SIZE = 1 + 4 + 16 + 32"

definition PERMS_RECORD_SIZE :: nat where
  "PERMS_RECORD_SIZE = 1 + PATH_MAX + 4 + 4 + 1 + 1 + 1"

definition STATUS_CLEAN :: u8 where
  "STATUS_CLEAN = 0"

definition STATUS_DIRTY :: u8 where
  "STATUS_DIRTY = 1"

definition AUTH_DB_PATH :: path where
  "AUTH_DB_PATH = map (of_nat \<circ> of_char) ''.system/auth.db''"

definition PERMS_DB_PATH :: path where
  "PERMS_DB_PATH = map (of_nat \<circ> of_char) ''.system/perms.db''"

subsection \<open>Integers and strings as bytes\<close>

definition to_le_bytes :: "u32 \<Rightarrow> u8 list" where
  "to_le_bytes w = [ucast w, ucast (drop_bit 8 w), ucast (drop_bit 16 w), ucast (drop_bit 24 w)]"

definition from_le_bytes :: "u8 list \<Rightarrow> u32" where
  "from_le_bytes bs = ucast (bs ! 0) OR push_bit 8 (ucast (bs ! 1)) OR push_bit 16 (ucast (bs ! 2)) OR push_bit 24 (ucast (bs ! 3))"

text \<open>\<^verbatim>\<open>core::str::from_utf8\<close>: whether bytes are well-formed UTF-8.\<close>

definition cont :: "u8 \<Rightarrow> bool" where
  "cont b \<longleftrightarrow> 0x80 \<le> b \<and> b \<le> 0xBF"

fun utf8 :: "u8 list \<Rightarrow> bool" where
  "utf8 [] = True"
| "utf8 (a # bs) =
     (if a < 0x80 then utf8 bs
      else if 0xC2 \<le> a \<and> a \<le> 0xDF then (case bs of b # r \<Rightarrow> cont b \<and> utf8 r | _ \<Rightarrow> False)
      else if 0xE0 \<le> a \<and> a \<le> 0xEF then
        (case bs of b # c # r \<Rightarrow> cont b \<and> cont c \<and> (a = 0xE0 \<longrightarrow> 0xA0 \<le> b) \<and> (a = 0xED \<longrightarrow> b \<le> 0x9F) \<and> utf8 r | _ \<Rightarrow> False)
      else if 0xF0 \<le> a \<and> a \<le> 0xF4 then
        (case bs of b # c # d # r \<Rightarrow> cont b \<and> cont c \<and> cont d \<and> (a = 0xF0 \<longrightarrow> 0x90 \<le> b) \<and> (a = 0xF4 \<longrightarrow> b \<le> 0x8F) \<and> utf8 r | _ \<Rightarrow> False)
      else False)"

subsection \<open>Records\<close>

definition encode_auth_record :: "u8 \<Rightarrow> auth_entry \<Rightarrow> u8 list" where
  "encode_auth_record status entry = [status] @ to_le_bytes (au_uid entry) @ au_salt entry @ au_hash entry"

definition decode_auth_record :: "u8 list \<Rightarrow> u8 \<times> auth_entry" where
  "decode_auth_record buf =
     (buf ! 0, \<lparr>au_uid = from_le_bytes (take 4 (drop 1 buf)), au_salt = take 16 (drop 5 buf), au_hash = take 32 (drop 21 buf)\<rparr>)"

definition encode_perms_record :: "u8 \<Rightarrow> path \<Rightarrow> perm_entry \<Rightarrow> u8 list" where
  "encode_perms_record status path entry =
     (let n = min (length path) PATH_MAX
      in [status] @ take n path @ replicate (PATH_MAX - n) 0 @ to_le_bytes (pe_uid entry) @ to_le_bytes (pe_gid entry) @
         [pe_owner_rwx entry, pe_group_rwx entry, pe_world_rwx entry])"

definition decode_perms_record :: "u8 list \<Rightarrow> u8 \<times> path \<times> perm_entry" where
  "decode_perms_record buf =
     (let path_raw = take PATH_MAX (drop 1 buf);
          path_bytes = takeWhile (\<lambda>b. b \<noteq> 0) path_raw;
          path = (if utf8 path_bytes then path_bytes else []);
          off = 1 + PATH_MAX
      in (buf ! 0, path,
          \<lparr>pe_uid = from_le_bytes (take 4 (drop off buf)), pe_gid = from_le_bytes (take 4 (drop (off + 4) buf)),
           pe_owner_rwx = buf ! (off + 8), pe_group_rwx = buf ! (off + 9), pe_world_rwx = buf ! (off + 10)\<rparr>))"

subsection \<open>Reading records\<close>

text \<open>\<open>Some True\<close> is a full buffer, \<open>Some False\<close> the end of the file, \<open>None\<close> an error. The state is the file position.\<close>

function read_exact_or_eof :: "'d fat_ops \<Rightarrow> path \<Rightarrow> nat \<Rightarrow> u8 list \<Rightarrow> nat \<Rightarrow> 'd \<Rightarrow> bool option \<times> u8 list \<times> nat \<times> 'd" where
  "read_exact_or_eof F p want got pos d =
     (if length got < want then
        case fat_read F d p pos (want - length got) of
          None \<Rightarrow> (None, got, pos, d)
        | Some (bs, d') \<Rightarrow>
            if bs = [] then (if got = [] then Some False else None, got, pos, d')
            else read_exact_or_eof F p want (got @ bs) (pos + length bs) d'
      else (Some True, got, pos, d))"
  by pat_completeness auto
termination
  by (relation "measure (\<lambda>(F, p, want, got, pos, d). want - length got)") (auto simp flip: length_greater_0_conv)

declare read_exact_or_eof.simps [simp del]

text \<open>The loop of the two loaders; \<open>handle\<close> is what it does with a record.\<close>

partial_function (option) load_loop :: "'d fat_ops \<Rightarrow> path \<Rightarrow> nat \<Rightarrow> (u8 list \<Rightarrow> bool \<times> 'a \<Rightarrow> bool \<times> 'a) \<Rightarrow> nat \<Rightarrow> 'd \<Rightarrow>
    bool \<times> 'a \<Rightarrow> ((bool \<times> 'a) \<times> 'd) option" where
  "load_loop F p rsize handle pos d acc =
     (case read_exact_or_eof F p rsize [] pos d of
        (r, buf, pos', d') \<Rightarrow>
          if r = Some True then load_loop F p rsize handle pos' d' (handle buf acc)
          else if r = Some False then Some (acc, d')
          else Some ((True, snd acc), d'))"

definition handle_auth :: "u8 list \<Rightarrow> bool \<times> auth_db \<Rightarrow> bool \<times> auth_db" where
  "handle_auth buf acc =
     (let (status, entry) = decode_auth_record buf
      in if status = STATUS_DIRTY then (True, snd acc) else (fst acc, auth_insert (snd acc) entry))"

definition load_auth_db :: "'d fat_ops \<Rightarrow> 'd \<Rightarrow> auth_db \<Rightarrow> ((bool \<times> auth_db) \<times> 'd) option" where
  "load_auth_db F d auth =
     (if fat_open_file F d AUTH_DB_PATH then load_loop F AUTH_DB_PATH AUTH_RECORD_SIZE handle_auth 0 d (False, auth)
      else Some ((False, auth), d))"

definition handle_perms :: "u8 list \<Rightarrow> bool \<times> perms_db \<Rightarrow> bool \<times> perms_db" where
  "handle_perms buf acc =
     (let (status, path, entry) = decode_perms_record buf
      in if status = STATUS_DIRTY then (True, snd acc) else (fst acc, perms_set (snd acc) path entry))"

definition load_perms_db :: "'d fat_ops \<Rightarrow> 'd \<Rightarrow> perms_db \<Rightarrow> ((bool \<times> perms_db) \<times> 'd) option" where
  "load_perms_db F d perms =
     (if fat_open_file F d PERMS_DB_PATH then load_loop F PERMS_DB_PATH PERMS_RECORD_SIZE handle_perms 0 d (False, perms)
      else Some ((False, perms), d))"

subsection \<open>Writing records\<close>

text \<open>
  The rewriting loop: results are ignored (\<^verbatim>\<open>.ok()\<close>), so a failed write leaves the position and goes on.
\<close>

fun write_records :: "'d fat_ops \<Rightarrow> path \<Rightarrow> u8 list list \<Rightarrow> nat \<Rightarrow> 'd \<Rightarrow> nat \<times> 'd" where
  "write_records F p [] pos d = (pos, d)"
| "write_records F p (r # rs) pos d =
     (let (ok, d') = fat_write_all F d p pos r in write_records F p rs (if ok then pos + length r else pos) d')"

definition rewrite_db :: "'d fat_ops \<Rightarrow> path \<Rightarrow> u8 list list \<Rightarrow> 'd \<Rightarrow> 'd" where
  "rewrite_db F p records d =
     (let d1 = (case fat_create_file F d p of None \<Rightarrow> d | Some d' \<Rightarrow> d')
      in if \<not> fat_open_file F d1 p then d1
         else let pos0 = (case fat_seek_start F d1 p 0 of None \<Rightarrow> 0 | Some n \<Rightarrow> n);
                  (pos, d2) = write_records F p records pos0 d1
              in case fat_truncate F d2 p pos of None \<Rightarrow> d2 | Some d3 \<Rightarrow> d3)"

definition repair_auth_db :: "'d fat_ops \<Rightarrow> 'd \<Rightarrow> auth_db \<Rightarrow> 'd" where
  "repair_auth_db F d auth = rewrite_db F AUTH_DB_PATH (map (encode_auth_record STATUS_CLEAN) (auth_iter auth)) d"

definition repair_perms_db :: "'d fat_ops \<Rightarrow> 'd \<Rightarrow> perms_db \<Rightarrow> 'd" where
  "repair_perms_db F d perms = rewrite_db F PERMS_DB_PATH (map (\<lambda>(p, e). encode_perms_record STATUS_CLEAN p e) perms) d"

definition load_at_boot :: "'d fat_ops \<Rightarrow> 'd \<Rightarrow> auth_db \<Rightarrow> perms_db \<Rightarrow> (auth_db \<times> perms_db \<times> 'd) option" where
  "load_at_boot F d auth perms =
     (case load_auth_db F d auth of
        None \<Rightarrow> None
      | Some ((auth_dirty, auth1), d1) \<Rightarrow>
          (case load_perms_db F d1 perms of
             None \<Rightarrow> None
           | Some ((perms_dirty, perms1), d2) \<Rightarrow>
               (let d3 = (if auth_dirty then repair_auth_db F d2 auth1 else d2);
                    d4 = (if perms_dirty then repair_perms_db F d3 perms1 else d3)
                in Some (auth1, perms1, d4))))"

definition append_record :: "'d fat_ops \<Rightarrow> path \<Rightarrow> 'd \<Rightarrow> u8 list \<Rightarrow> unit option \<times> 'd" where
  "append_record F p d record =
     (case fat_create_file F d p of
        None \<Rightarrow> (None, d)
      | Some d1 \<Rightarrow>
          (case fat_seek_end F d1 p of
             None \<Rightarrow> (None, d1)
           | Some pos \<Rightarrow> (let (ok, d2) = fat_write_all F d1 p pos record in (if ok then Some () else None, d2))))"

definition append_auth_entry :: "'d fat_ops \<Rightarrow> 'd \<Rightarrow> auth_entry \<Rightarrow> unit option \<times> 'd" where
  "append_auth_entry F d entry = append_record F AUTH_DB_PATH d (encode_auth_record STATUS_CLEAN entry)"

definition append_perms_entry :: "'d fat_ops \<Rightarrow> 'd \<Rightarrow> path \<Rightarrow> perm_entry \<Rightarrow> unit option \<times> 'd" where
  "append_perms_entry F d path entry = append_record F PERMS_DB_PATH d (encode_perms_record STATUS_CLEAN path entry)"

subsection \<open>Records decode to what was encoded\<close>

lemma le_bytes_round_trip: "from_le_bytes (to_le_bytes w) = w"
proof (rule bit_eqI)
  fix n :: nat assume "possible_bit TYPE(32 word) n"
  then have n: "n < 32" by simp
  have "n < 8 \<or> 8 \<le> n \<and> n < 16 \<or> 16 \<le> n \<and> n < 24 \<or> 24 \<le> n" by linarith
  then show "bit (from_le_bytes (to_le_bytes w)) n \<longleftrightarrow> bit w n"
    using n by (elim disjE conjE) (simp_all add: from_le_bytes_def to_le_bytes_def bit_simps, auto)
qed

lemma length_to_le_bytes [simp]: "length (to_le_bytes w) = 4"
  by (simp add: to_le_bytes_def)

definition auth_entry_ok :: "auth_entry \<Rightarrow> bool" where
  "auth_entry_ok e \<longleftrightarrow> length (au_salt e) = 16 \<and> length (au_hash e) = 32"

lemma auth_record_length: "auth_entry_ok e \<Longrightarrow> length (encode_auth_record st e) = AUTH_RECORD_SIZE"
  by (simp add: encode_auth_record_def auth_entry_ok_def AUTH_RECORD_SIZE_def)

lemma auth_record_round_trip: "auth_entry_ok e \<Longrightarrow> decode_auth_record (encode_auth_record st e) = (st, e)"
  by (simp add: decode_auth_record_def encode_auth_record_def auth_entry_ok_def le_bytes_round_trip)

lemma decode_auth_ok: "length buf = AUTH_RECORD_SIZE \<Longrightarrow> auth_entry_ok (snd (decode_auth_record buf))"
  by (simp add: decode_auth_record_def auth_entry_ok_def AUTH_RECORD_SIZE_def)

definition path_storable :: "path \<Rightarrow> bool" where
  "path_storable p \<longleftrightarrow> length p \<le> PATH_MAX \<and> 0 \<notin> set p \<and> utf8 p"

lemma perms_record_length: "length (encode_perms_record st p e) = PERMS_RECORD_SIZE"
  by (simp add: encode_perms_record_def PERMS_RECORD_SIZE_def PATH_MAX_def Let_def)

lemma perms_record_round_trip:
  assumes "path_storable p"
  shows "decode_perms_record (encode_perms_record st p e) = (st, p, e)"
proof -
  let ?raw = "p @ replicate (PATH_MAX - length p) 0"
  have n: "min (length p) PATH_MAX = length p" and len: "length ?raw = 64" using assms by (simp_all add: path_storable_def PATH_MAX_def)
  have enc: "encode_perms_record st p e = [st] @ ?raw @ to_le_bytes (pe_uid e) @ to_le_bytes (pe_gid e) @
      [pe_owner_rwx e, pe_group_rwx e, pe_world_rwx e]"
    by (simp add: encode_perms_record_def n Let_def)
  have "takeWhile (\<lambda>b. b \<noteq> 0) ?raw = p"
    using assms by (cases "PATH_MAX - length p") (auto simp: path_storable_def takeWhile_append takeWhile_eq_all_conv [THEN iffD2])
  then show ?thesis using assms len unfolding enc decode_perms_record_def
    by (simp add: path_storable_def PATH_MAX_def Let_def le_bytes_round_trip nth_append)
qed

subsection \<open>Reading back\<close>

lemma read_exact_ok:
  assumes laws: "fat_laws F canon files"
  shows "files d (canon p) = Some c \<Longrightarrow> pos \<le> length c \<Longrightarrow> length got \<le> want \<Longrightarrow>
    \<exists>d'. files d' = files d \<and>
      (if pos + (want - length got) \<le> length c
       then read_exact_or_eof F p want got pos d = (Some True, got @ take (want - length got) (drop pos c), pos + (want - length got), d')
       else \<exists>buf pos'. read_exact_or_eof F p want got pos d =
              (if got = [] \<and> pos = length c then Some False else None, buf, pos', d'))"
proof (induction "want - length got" arbitrary: got pos d rule: less_induct)
  case less
  show ?case
  proof (cases "length got < want")
    case False
    then show ?thesis using less.prems by (intro exI [of _ d]) (simp add: read_exact_or_eof.simps)
  next
    case True
    let ?n = "want - length got"
    obtain bs d1 where r: "fat_read F d p pos ?n = Some (bs, d1)" "files d1 = files d" "length bs \<le> ?n"
      "bs = take (length bs) (drop pos c)" "0 < ?n \<Longrightarrow> pos < length c \<Longrightarrow> bs \<noteq> []"
      by (rule fat_laws_read [OF laws less.prems(1,2), of ?n]) (rule that)
    show ?thesis
    proof (cases "bs = []")
      case True
      then have "\<not> pos < length c" using r(5) \<open>length got < want\<close> by auto
      then have "pos = length c" using less.prems(2) by linarith
      moreover have "\<not> length c + (want - length got) \<le> length c" using \<open>length got < want\<close> by simp
      ultimately show ?thesis using True r(1,2) \<open>length got < want\<close>
        by (intro exI [of _ d1]) (simp only: if_False, simp add: read_exact_or_eof.simps)
    next
      case False
      have b: "length bs \<le> length c - pos" using r(4) by (metis length_drop length_take min.cobounded1)
      have lt: "want - length (got @ bs) < want - length got" using False \<open>length got < want\<close> by (simp flip: length_greater_0_conv)
      have pre: "files d1 (canon p) = Some c" "pos + length bs \<le> length c" "length (got @ bs) \<le> want"
        using r(2,3) less.prems b \<open>length got < want\<close> by auto
      have step: "read_exact_or_eof F p want got pos d = read_exact_or_eof F p want (got @ bs) (pos + length bs) d1"
        using r(1) False \<open>length got < want\<close> by (subst read_exact_or_eof.simps) simp
      have e: "pos + length bs + (want - length (got @ bs)) = pos + ?n" using pre(3) by simp
      have cat: "bs @ take (want - length (got @ bs)) (drop (pos + length bs) c) = take ?n (drop pos c)"
      proof -
        have "take ?n (drop pos c) = take (length bs + (want - length (got @ bs))) (drop pos c)" using pre(3) by simp
        also have "\<dots> = take (length bs) (drop pos c) @ take (want - length (got @ bs)) (drop (length bs) (drop pos c))" by (rule take_add)
        finally show ?thesis using r(4) by (simp add: add.commute)
      qed
      have nb: "(got @ bs = []) = False" using False by simp
      from less.hyps [OF lt pre, unfolded e nb simp_thms if_False] obtain d2 where "files d2 = files d1"
        "if pos + ?n \<le> length c
         then read_exact_or_eof F p want (got @ bs) (pos + length bs) d1 =
           (Some True, (got @ bs) @ take (want - length (got @ bs)) (drop (pos + length bs) c), pos + ?n, d2)
         else \<exists>buf pos'. read_exact_or_eof F p want (got @ bs) (pos + length bs) d1 = (None, buf, pos', d2)"
        by blast
      then show ?thesis unfolding step append_assoc cat using r(2) False pre(2)
        by (intro exI [of _ d2]) (auto split: if_splits)
    qed
  qed
qed

definition record_at :: "nat \<Rightarrow> u8 list \<Rightarrow> nat \<Rightarrow> u8 list" where
  "record_at rsize c k = take rsize (drop (rsize * k) c)"

definition whole_records :: "nat \<Rightarrow> u8 list \<Rightarrow> u8 list list" where
  "whole_records rsize c = map (record_at rsize c) [0 ..< length c div rsize]"

lemma load_loop_ok:
  assumes laws: "fat_laws F canon files" and pos: "0 < rsize"
  shows "files d (canon p) = Some c \<Longrightarrow> k \<le> length c div rsize \<Longrightarrow>
    \<exists>d'. files d' = files d \<and> load_loop F p rsize handle (rsize * k) d acc =
      (let acc' = fold handle (map (record_at rsize c) [k ..< length c div rsize]) acc
       in Some ((fst acc' \<or> \<not> rsize dvd length c, snd acc'), d'))"
proof (induction "length c div rsize - k" arbitrary: k d acc)
  case 0
  then have k: "k = length c div rsize" by simp
  have le: "rsize * k \<le> length c" "length c < rsize * k + rsize"
    using dividend_less_times_div [OF pos, of "length c"] by (simp_all add: k)
  then have "\<not> rsize * k + rsize \<le> length c" by simp
  then obtain d' where d': "files d' = files d"
    "\<exists>buf pos'. read_exact_or_eof F p rsize [] (rsize * k) d = (if rsize * k = length c then Some False else None, buf, pos', d')"
    using read_exact_ok [OF laws 0(2) le(1), of "[]" rsize] by auto
  have "rsize * k = length c \<longleftrightarrow> rsize dvd length c" using k by (metis dvd_mult_div_cancel dvd_triv_left)
  then show ?case using d' k by (intro exI [of _ d']) (auto simp: load_loop.simps [of F p rsize] Let_def)
next
  case (Suc n)
  let ?N = "length c div rsize"
  have k: "k < ?N" using Suc.hyps(2) by simp
  then have "Suc k \<le> ?N" by simp
  then have le: "rsize * Suc k \<le> length c" by (metis dual_order.trans mult_le_mono2 times_div_less_eq_dividend)
  then have "rsize * k + rsize \<le> length c" "rsize * k \<le> length c" by simp_all
  then obtain d1 where d1: "files d1 = files d"
    "read_exact_or_eof F p rsize [] (rsize * k) d = (Some True, record_at rsize c k, rsize * Suc k, d1)"
    using read_exact_ok [OF laws Suc.prems(1), of "rsize * k" "[]" rsize] by (auto simp: record_at_def)
  have "files d1 (canon p) = Some c" using d1(1) Suc.prems(1) by simp
  have n: "n = ?N - Suc k" using Suc.hyps(2) by linarith
  from Suc.hyps(1) [OF n \<open>files d1 (canon p) = Some c\<close> \<open>Suc k \<le> ?N\<close>, of "handle (record_at rsize c k) acc"] obtain d' where "files d' = files d1"
    "load_loop F p rsize handle (rsize * Suc k) d1 (handle (record_at rsize c k) acc) =
      (let acc' = fold handle (map (record_at rsize c) [Suc k ..< ?N]) (handle (record_at rsize c k) acc)
       in Some ((fst acc' \<or> \<not> rsize dvd length c, snd acc'), d'))"
    by blast
  moreover have "[k ..< ?N] = k # [Suc k ..< ?N]" using k by (rule upt_conv_Cons)
  ultimately show ?case using d1 by (intro exI [of _ d']) (simp add: load_loop.simps [of F p rsize _ "rsize * k"])
qed

lemma write_records_ok:
  assumes laws: "fat_laws F canon files"
  shows "files d (canon p) = Some c \<Longrightarrow> pos + length (concat rs) \<le> length c \<Longrightarrow>
    \<exists>d'. write_records F p rs pos d = (pos + length (concat rs), d') \<and>
      files d' = (files d)(canon p \<mapsto> put_bytes c pos (concat rs))"
proof (induction rs arbitrary: pos d c)
  case Nil
  then show ?case by (simp add: put_bytes_def fun_upd_idem)
next
  case (Cons r rs)
  obtain d1 where d1: "fat_write_all F d p pos r = (True, d1)" "files d1 = (files d)(canon p \<mapsto> put_bytes c pos r)"
    by (rule fat_laws_overwrite [OF laws Cons.prems(1), of pos r]) (use Cons.prems(2) that in simp_all)
  have "files d1 (canon p) = Some (put_bytes c pos r)" "pos + length r + length (concat rs) \<le> length (put_bytes c pos r)"
    using d1(2) Cons.prems(2) by (simp_all add: put_bytes_def)
  from Cons.IH [OF this] obtain d2 where "write_records F p rs (pos + length r) d1 = (pos + length r + length (concat rs), d2)"
    "files d2 = (files d1)(canon p \<mapsto> put_bytes (put_bytes c pos r) (pos + length r) (concat rs))" by blast
  moreover have "put_bytes (put_bytes c pos r) (pos + length r) (concat rs) = put_bytes c pos (concat (r # rs))"
    using Cons.prems(2) by (simp add: put_bytes_def ac_simps)
  ultimately show ?case using d1 by (intro exI [of _ d2]) simp
qed

lemma rewrite_db_ok:
  assumes laws: "fat_laws F canon files" and "files d (canon p) = Some c" "length (concat rs) \<le> length c"
  shows "files (rewrite_db F p rs d) = (files d)(canon p \<mapsto> concat rs)"
proof -
  obtain d1 where d1: "fat_create_file F d p = Some d1" "files d1 = files d" by (rule fat_laws_create [OF laws assms(2)])
  have c: "files d1 (canon p) = Some c" using d1(2) assms(2) by simp
  obtain d2 where d2: "write_records F p rs 0 d1 = (length (concat rs), d2)" "files d2 = (files d1)(canon p \<mapsto> put_bytes c 0 (concat rs))"
    using write_records_ok [OF laws c, of 0 rs] assms(3) by auto
  have "files d2 (canon p) = Some (concat rs @ drop (length (concat rs)) c)" using d2(2) by (simp add: put_bytes_def)
  then obtain d3 where d3: "fat_truncate F d2 p (length (concat rs)) = Some d3"
    "files d3 = (files d2)(canon p \<mapsto> take (length (concat rs)) (concat rs @ drop (length (concat rs)) c))"
    by (rule fat_laws_truncate [OF laws, of _ _ _ "length (concat rs)"]) (simp, rule that)
  have "rewrite_db F p rs d = d3"
    using d1(1) c d2(1) d3(1) fat_laws_open [OF laws, of d1 p] fat_laws_seek [OF laws c, of 0] by (simp add: rewrite_db_def)
  then show ?thesis using d3(2) d2(2) d1(2) by simp
qed

text \<open>Records of one size, one after the other, are the whole records of the file.\<close>

lemma whole_records_concat:
  assumes "\<forall>r\<in>set rs. length r = rsize" "0 < rsize"
  shows "whole_records rsize (concat rs) = rs" "rsize dvd length (concat rs)"
proof -
  have "length (concat rs) = rsize * length rs \<and> (\<forall>k<length rs. record_at rsize (concat rs) k = rs ! k)"
    using assms(1)
  proof (induction rs)
    case (Cons r rs)
    have "record_at rsize (concat (r # rs)) k = (r # rs) ! k" if "k < length (r # rs)" for k
      using Cons that by (cases k) (auto simp: record_at_def add.commute)
    then show ?case using Cons by simp
  qed (simp add: record_at_def)
  then show "whole_records rsize (concat rs) = rs" "rsize dvd length (concat rs)"
    using assms(2) by (auto simp: whole_records_def intro: nth_equalityI)
qed

subsection \<open>The contract of a record file\<close>

text \<open>
  A database kept in a file of fixed-size records: what the loader does with a record and which records
  a database is saved as, so that loading what was saved gives the database back, free of dirty records.
\<close>

locale record_db =
  fixes rsize :: nat
    and handle :: "u8 list \<Rightarrow> bool \<times> 'a \<Rightarrow> bool \<times> 'a"
    and start :: 'a
    and save :: "'a \<Rightarrow> u8 list list"
    and ok :: "'a \<Rightarrow> bool"
  assumes size_pos: "0 < rsize"
    and start_ok: "ok start"
    and handle_ok: "length r = rsize \<Longrightarrow> ok (snd acc) \<Longrightarrow> ok (snd (handle r acc))"
    and save_size: "ok x \<Longrightarrow> r \<in> set (save x) \<Longrightarrow> length r = rsize"
    and save_start: "save start = []"
    and save_grows: "length r = rsize \<Longrightarrow> length (save (snd (handle r acc))) \<le> Suc (length (save (snd acc)))"
    and reload: "ok x \<Longrightarrow> fold handle (save x) (False, start) = (False, x)"
begin

lemma record_length: "r \<in> set (whole_records rsize c) \<Longrightarrow> length r = rsize"
proof -
  assume "r \<in> set (whole_records rsize c)"
  then obtain k where k: "r = record_at rsize c k" "Suc k \<le> length c div rsize" by (auto simp: whole_records_def)
  then have "rsize * Suc k \<le> length c" by (metis dual_order.trans mult_le_mono2 times_div_less_eq_dividend)
  then show ?thesis using k(1) by (simp add: record_at_def)
qed

lemma loaded_ok: "ok (snd (fold handle (whole_records rsize c) (False, start)))"
proof -
  have "ok (snd (fold handle rs acc))" if "\<forall>r\<in>set rs. length r = rsize" "ok (snd acc)" for rs acc
    using that by (induction rs arbitrary: acc) (simp_all add: handle_ok)
  then show ?thesis using record_length start_ok by simp
qed

lemma saved_fits: "length (concat (save (snd (fold handle (whole_records rsize c) (False, start))))) \<le> length c"
proof -
  let ?x = "snd (fold handle (whole_records rsize c) (False, start))"
  have "length (save (snd (fold handle rs acc))) \<le> length rs + length (save (snd acc))" if "\<forall>r\<in>set rs. length r = rsize" for rs acc
    using that
  proof (induction rs arbitrary: acc)
    case (Cons r rs)
    then show ?case using save_grows [of r acc] Cons.IH [of "handle r acc"] by fastforce
  qed simp
  then have "length (save ?x) \<le> length c div rsize"
    using record_length [of _ c] by (metis add_0_right diff_zero length_map length_upt list.size(3) save_start snd_conv whole_records_def)
  moreover have "length (concat (save ?x)) = length (save ?x) * rsize"
    using save_size [OF loaded_ok] by (simp add: length_concat cong: map_cong) (simp add: sum_list_triv)
  ultimately show ?thesis by (metis div_times_less_eq_dividend le_trans mult_le_mono1)
qed

lemma load_file:
  assumes "fat_laws F canon files" "files d (canon p) = Some c"
  obtains d' where "files d' = files d" "load_loop F p rsize handle 0 d (False, start) =
    Some ((fst (fold handle (whole_records rsize c) (False, start)) \<or> \<not> rsize dvd length c,
           snd (fold handle (whole_records rsize c) (False, start))), d')"
  using load_loop_ok [OF assms(1) size_pos assms(2), of 0 handle "(False, start)"] that by (auto simp: Let_def whole_records_def)

lemma load_saved:
  assumes "fat_laws F canon files" "files d (canon p) = Some (concat (save x))" "ok x"
  obtains d' where "files d' = files d" "load_loop F p rsize handle 0 d (False, start) = Some ((False, x), d')"
proof -
  have "\<forall>r\<in>set (save x). length r = rsize" using save_size assms(3) by blast
  note w = whole_records_concat [OF this size_pos]
  show thesis by (rule load_file [OF assms(1,2)], rule that) (simp_all add: w reload [OF assms(3)])
qed

lemma load_total:
  assumes "fat_laws F canon files"
  obtains dirty x d' where "(if fat_open_file F d p then load_loop F p rsize handle 0 d (False, start) else Some ((False, start), d)) =
      Some ((dirty, x), d')" "files d' = files d" "ok x" "dirty \<longrightarrow> (\<exists>c. files d (canon p) = Some c \<and> length (concat (save x)) \<le> length c)"
    "\<forall>c. files d (canon p) = Some c \<longrightarrow> x = snd (fold handle (whole_records rsize c) (False, start))"
    "\<forall>d2. files d2 (canon p) = (if dirty then Some (concat (save x)) else files d (canon p)) \<longrightarrow>
       (\<exists>d3. files d3 = files d2 \<and>
         (if fat_open_file F d2 p then load_loop F p rsize handle 0 d2 (False, start) else Some ((False, start), d2)) = Some ((False, x), d3))"
proof (cases "files d (canon p)")
  case None
  then show thesis using fat_laws_open [OF assms] start_ok by (intro that [of False start d]) simp_all
next
  case (Some c)
  let ?acc = "fold handle (whole_records rsize c) (False, start)"
  let ?dirty = "fst ?acc \<or> \<not> rsize dvd length c"
  obtain d' where d': "files d' = files d" "load_loop F p rsize handle 0 d (False, start) = Some ((?dirty, snd ?acc), d')"
    by (rule load_file [OF assms Some])
  have again: "\<exists>d3. files d3 = files d2 \<and>
      (if fat_open_file F d2 p then load_loop F p rsize handle 0 d2 (False, start) else Some ((False, start), d2)) = Some ((False, snd ?acc), d3)"
    if same: "files d2 (canon p) = (if ?dirty then Some (concat (save (snd ?acc))) else files d (canon p))" for d2
  proof (cases ?dirty)
    case True
    then have c2: "files d2 (canon p) = Some (concat (save (snd ?acc)))" using same by simp
    from c2 loaded_ok show ?thesis by (rule load_saved [OF assms]) (use c2 fat_laws_open [OF assms, of d2 p] in auto)
  next
    case False
    then have c2: "files d2 (canon p) = Some c" using same Some by simp
    from c2 show ?thesis by (rule load_file [OF assms]) (use c2 False fat_laws_open [OF assms, of d2 p] in auto)
  qed
  show thesis
    by (rule that [of ?dirty "snd ?acc" d'])
       (use d' Some loaded_ok [of c] saved_fits [of c] fat_laws_open [OF assms, of d p] again in auto)
qed

end

text \<open>The two databases keep the contract.\<close>

definition auth_db_ok :: "auth_db \<Rightarrow> bool" where
  "auth_db_ok db \<longleftrightarrow> bt_ok db \<and> (\<forall>(k, e)\<in>set db. k = au_uid e \<and> auth_entry_ok e)"

lemma set_bt_insert_sub: "set (bt_insert k v xs) \<subseteq> insert (k, v) (set xs)"
  by (induction k v xs rule: bt_insert.induct) auto

lemma auth_insert_ok: "auth_db_ok db \<Longrightarrow> auth_entry_ok e \<Longrightarrow> auth_db_ok (auth_insert db e)"
  using set_bt_insert_sub [of "au_uid e" e db] by (auto simp: auth_db_ok_def auth_insert_def bt_insert_ok)

lemma fold_auth: "\<forall>e\<in>set es. auth_entry_ok e \<Longrightarrow>
    fold handle_auth (map (encode_auth_record STATUS_CLEAN) es) (b, db) = (b, fold (\<lambda>e db. auth_insert db e) es db)"
  by (induction es arbitrary: db) (simp_all add: handle_auth_def auth_record_round_trip STATUS_CLEAN_def STATUS_DIRTY_def)

interpretation adb: record_db AUTH_RECORD_SIZE handle_auth auth_new "\<lambda>db. map (encode_auth_record STATUS_CLEAN) (auth_iter db)" auth_db_ok
proof unfold_locales
  show "0 < AUTH_RECORD_SIZE" by (simp add: AUTH_RECORD_SIZE_def)
  show "auth_db_ok auth_new" by (simp add: auth_db_ok_def auth_new_def bt_ok_def)
  show "auth_db_ok (snd (handle_auth r acc))" if "length r = AUTH_RECORD_SIZE" "auth_db_ok (snd acc)" for r acc
    using that auth_insert_ok decode_auth_ok [OF that(1)] by (auto simp: handle_auth_def split: prod.splits)
  show "map (encode_auth_record STATUS_CLEAN) (auth_iter auth_new) = []" by (simp add: auth_iter_def auth_new_def)
  show "length (map (encode_auth_record STATUS_CLEAN) (auth_iter (snd (handle_auth r acc)))) \<le>
    Suc (length (map (encode_auth_record STATUS_CLEAN) (auth_iter (snd acc))))" for r acc
    using length_bt_insert by (auto simp: handle_auth_def auth_iter_def auth_insert_def split: prod.splits)
  fix db assume ok: "auth_db_ok db"
  then have es: "\<forall>e\<in>set (auth_iter db). auth_entry_ok e" by (auto simp: auth_db_ok_def auth_iter_def)
  then show "length r = AUTH_RECORD_SIZE" if "r \<in> set (map (encode_auth_record STATUS_CLEAN) (auth_iter db))" for r
    using that auth_record_length by auto
  have "fold (\<lambda>e db. auth_insert db e) (auth_iter db) d0 = fold (\<lambda>(k, v). bt_insert k v) db d0" for d0
    unfolding auth_iter_def fold_map using ok by (intro fold_cong) (auto simp: auth_db_ok_def auth_insert_def)
  then have "fold (\<lambda>e db. auth_insert db e) (auth_iter db) auth_new = db"
    using bt_rebuild [of "[]" db] ok by (simp add: auth_new_def auth_db_ok_def)
  then show "fold handle_auth (map (encode_auth_record STATUS_CLEAN) (auth_iter db)) (False, auth_new) = (False, db)"
    using fold_auth [OF es] by simp
qed

definition perms_db_ok :: "perms_db \<Rightarrow> bool" where
  "perms_db_ok db \<longleftrightarrow> bt_ok db \<and> (\<forall>p\<in>fst ` set db. path_storable p)"

lemma decode_path_storable: "path_storable (fst (snd (decode_perms_record buf)))"
proof -
  let ?p = "takeWhile (\<lambda>b. b \<noteq> 0) (take PATH_MAX (drop 1 buf))"
  have "length ?p \<le> PATH_MAX" by (rule order_trans [OF length_takeWhile_le]) simp
  moreover have "0 \<notin> set ?p" by (auto dest: set_takeWhileD)
  ultimately show ?thesis by (simp add: decode_perms_record_def Let_def path_storable_def)
qed

lemma perms_set_ok: "perms_db_ok db \<Longrightarrow> path_storable p \<Longrightarrow> perms_db_ok (perms_set db p e)"
  by (simp add: perms_db_ok_def perms_set_def bt_insert_ok set_bt_insert)

lemma fold_perms: "\<forall>p\<in>fst ` set es. path_storable p \<Longrightarrow>
    fold handle_perms (map (\<lambda>(p, e). encode_perms_record STATUS_CLEAN p e) es) (b, db) = (b, fold (\<lambda>(k, v). bt_insert k v) es db)"
  by (induction es arbitrary: db)
     (auto simp: handle_perms_def perms_record_round_trip STATUS_CLEAN_def STATUS_DIRTY_def perms_set_def)

interpretation pdb: record_db PERMS_RECORD_SIZE handle_perms perms_new
  "\<lambda>db. map (\<lambda>(p, e). encode_perms_record STATUS_CLEAN p e) db" perms_db_ok
proof unfold_locales
  show "0 < PERMS_RECORD_SIZE" by (simp add: PERMS_RECORD_SIZE_def)
  show "perms_db_ok perms_new" by (simp add: perms_db_ok_def perms_new_def bt_ok_def)
  show "perms_db_ok (snd (handle_perms r acc))" if "length r = PERMS_RECORD_SIZE" "perms_db_ok (snd acc)" for r acc
    using that(2) perms_set_ok decode_path_storable [of r] by (auto simp: handle_perms_def split: prod.splits)
  show "map (\<lambda>(p, e). encode_perms_record STATUS_CLEAN p e) perms_new = []" by (simp add: perms_new_def)
  show "length (map (\<lambda>(p, e). encode_perms_record STATUS_CLEAN p e) (snd (handle_perms r acc))) \<le>
    Suc (length (map (\<lambda>(p, e). encode_perms_record STATUS_CLEAN p e) (snd acc)))" for r acc
    using length_bt_insert by (auto simp: handle_perms_def perms_set_def split: prod.splits)
  fix db assume ok: "perms_db_ok db"
  show "length r = PERMS_RECORD_SIZE" if "r \<in> set (map (\<lambda>(p, e). encode_perms_record STATUS_CLEAN p e) db)" for r
    using that perms_record_length by auto
  show "fold handle_perms (map (\<lambda>(p, e). encode_perms_record STATUS_CLEAN p e) db) (False, perms_new) = (False, db)"
    using fold_perms [of db False "[]"] bt_rebuild [of "[]" db] ok by (simp add: perms_new_def perms_db_ok_def)
qed

lemma db_paths_differ: "AUTH_DB_PATH \<noteq> PERMS_DB_PATH"
  by (simp add: AUTH_DB_PATH_def PERMS_DB_PATH_def)



end
