(* ===== verification/Vfs.thy ===== *)
theory Vfs
  imports SystemDomain
begin

text \<open>
  The logical file system: file control blocks, descriptor tables, permission checks and the operations that
  system calls use. Every operation returns a result or a file-system error together with the new state, or
  panics. The FAT volume is the parameter \<open>F\<close>; lower-casing a string, which follows the Unicode tables, is the
  parameter \<open>lower\<close>.
\<close>

datatype fs_error =
  NotFound | AlreadyExists | PermissionDenied | Locked | IsShared | NotOpen | InvalidPath | NotADirectory | IsADirectory | NotMounted

subsection \<open>File control blocks\<close>

record fcb =
  fcb_path :: path
  cursor :: nat
  open_count :: nat
  dirty :: bool
  locked_by :: "nat option"
  is_shared :: bool

type_synonym fcb_table = "(path, fcb) btree"

definition fcb_table_new :: fcb_table where
  "fcb_table_new = []"

definition fcb_new :: "path \<Rightarrow> fcb" where
  "fcb_new path = \<lparr>fcb_path = path, cursor = 0, open_count = 0, dirty = False, locked_by = None, is_shared = False\<rparr>"

definition fcb_open :: "fcb_table \<Rightarrow> path \<Rightarrow> fcb \<times> fcb_table" where
  "fcb_open t path =
     (case map_of t path of Some b \<Rightarrow> (b, t) | None \<Rightarrow> (fcb_new path, bt_insert path (fcb_new path) t))"

definition fcb_get :: "fcb_table \<Rightarrow> path \<Rightarrow> fcb option" where
  "fcb_get t path = map_of t path"

definition fcb_remove :: "fcb_table \<Rightarrow> path \<Rightarrow> fcb_table" where
  "fcb_remove t path = bt_remove path t"

definition fcb_paths :: "fcb_table \<Rightarrow> path list" where
  "fcb_paths t = map fst t"

subsection \<open>Descriptors\<close>

record proc_fd_table =
  next_fd :: nat
  fd_map :: "(nat, path) btree"

definition proc_fd_new :: proc_fd_table where
  "proc_fd_new = \<lparr>next_fd = 3, fd_map = []\<rparr>"

definition fd_alloc :: "proc_fd_table \<Rightarrow> path \<Rightarrow> (nat \<times> proc_fd_table) res" where
  "fd_alloc t path =
     rbind (add_u64 (next_fd t) 1) (\<lambda>n. Inr (next_fd t, \<lparr>next_fd = n, fd_map = bt_insert (next_fd t) path (fd_map t)\<rparr>))"

definition fd_get :: "proc_fd_table \<Rightarrow> nat \<Rightarrow> path option" where
  "fd_get t fd = map_of (fd_map t) fd"

definition fd_remove :: "proc_fd_table \<Rightarrow> nat \<Rightarrow> path option \<times> proc_fd_table" where
  "fd_remove t fd = (map_of (fd_map t) fd, t\<lparr>fd_map := bt_remove fd (fd_map t)\<rparr>)"

type_synonym fd_registry = "(nat, proc_fd_table) btree"

definition fd_registry_new :: fd_registry where
  "fd_registry_new = []"

definition table_for :: "fd_registry \<Rightarrow> nat \<Rightarrow> proc_fd_table \<times> fd_registry" where
  "table_for r pid =
     (case map_of r pid of Some t \<Rightarrow> (t, r) | None \<Rightarrow> (proc_fd_new, bt_insert pid proc_fd_new r))"

definition remove_process :: "fd_registry \<Rightarrow> nat \<Rightarrow> fd_registry" where
  "remove_process r pid = bt_remove pid r"

subsection \<open>File metadata\<close>

record stat =
  st_size :: nat
  st_is_dir :: u8
  st_owner_rwx :: u8
  st_group_rwx :: u8
  st_world_rwx :: u8
  st_uid :: u32
  st_gid :: u32

text \<open>
  The bytes of the structure in memory order: 20 bytes of fields, and the padding up to the alignment of the
  first field, whose bytes are not defined.
\<close>

definition stat_bytes :: "u8 list \<Rightarrow> stat \<Rightarrow> u8 list" where
  "stat_bytes padding s =
     map (\<lambda>i. word_of_nat (st_size s div 256 ^ i)) [0..<8] @
     [st_is_dir s, st_owner_rwx s, st_group_rwx s, st_world_rwx s] @ to_le_bytes (st_uid s) @ to_le_bytes (st_gid s) @ padding"

definition write_to_user :: "memory \<Rightarrow> nat \<Rightarrow> u8 list \<Rightarrow> stat \<Rightarrow> memory" where
  "write_to_user m dst padding s = write_bytes m dst (stat_bytes padding s)"

subsection \<open>The file system\<close>

record 'd logical_fs =
  fcbs :: fcb_table
  fds :: fd_registry
  perms :: perms_db
  auth :: auth_db
  disk :: "'d option"

definition logical_fs_new :: "'d logical_fs" where
  "logical_fs_new = \<lparr>fcbs = fcb_table_new, fds = fd_registry_new, perms = perms_new, auth = auth_new, disk = None\<rparr>"

definition mount_disk :: "'d logical_fs \<Rightarrow> 'd \<Rightarrow> 'd logical_fs" where
  "mount_disk fs d = fs\<lparr>disk := Some d\<rparr>"

text \<open>The question mark of the source: an error ends the operation in the state reached so far.\<close>

type_synonym ('d, 'a) fs_result = "((fs_error + 'a) \<times> 'd logical_fs) res"

definition ftry :: "fs_error + 'a \<Rightarrow> 'd logical_fs \<Rightarrow> ('a \<Rightarrow> ('d, 'b) fs_result) \<Rightarrow> ('d, 'b) fs_result" where
  "ftry r fs k = (case r of Inl e \<Rightarrow> Inr (Inl e, fs) | Inr a \<Rightarrow> k a)"

definition ok_or :: "'a option \<Rightarrow> fs_error \<Rightarrow> fs_error + 'a" where
  "ok_or x e = (case x of None \<Rightarrow> Inl e | Some a \<Rightarrow> Inr a)"

definition disk_mut :: "'d logical_fs \<Rightarrow> fs_error + 'd" where
  "disk_mut fs = ok_or (disk fs) NotMounted"

definition to_fat_path :: "path \<Rightarrow> fs_error + path" where
  "to_fat_path path =
     (if path = [] \<or> hd path \<noteq> 0x2F then Inl InvalidPath else Inr (dropWhile (\<lambda>b. b = 0x2F) path))"

definition case_conflict :: "(path \<Rightarrow> path) \<Rightarrow> 'd logical_fs \<Rightarrow> path \<Rightarrow> bool" where
  "case_conflict lower fs path = list_ex (\<lambda>p. p \<noteq> path \<and> lower p = lower path) (fcb_paths (fcbs fs))"

definition check_perm :: "'d logical_fs \<Rightarrow> path \<Rightarrow> u32 \<Rightarrow> u32 \<Rightarrow> bool \<Rightarrow> fs_error + unit" where
  "check_perm fs path uid gid want_write =
     (if uid = 0 then Inr ()
      else case perms_get (perms fs) path of
        None \<Rightarrow> Inr ()
      | Some entry \<Rightarrow>
          (let rwx = (if uid = pe_uid entry then pe_owner_rwx entry else if gid = pe_gid entry then pe_group_rwx entry else pe_world_rwx entry)
           in if want_write \<and> \<not> can_write rwx then Inl PermissionDenied
              else if \<not> want_write \<and> \<not> can_read rwx then Inl PermissionDenied
              else Inr ()))"

text \<open>The common end of \<^verbatim>\<open>open\<close> and \<^verbatim>\<open>create\<close>: lock the control block and hand out a descriptor.\<close>

definition lock_and_alloc :: "'d logical_fs \<Rightarrow> path \<Rightarrow> nat \<Rightarrow> ('d, nat) fs_result" where
  "lock_and_alloc fs path pid =
     (let (b, t) = fcb_open (fcbs fs) path
      in if locked_by b \<noteq> None then Inr (Inl Locked, fs\<lparr>fcbs := t\<rparr>)
         else if open_count b + 1 \<ge> 2 ^ 32 then Inl Overflow
         else let t' = bt_insert path (b\<lparr>locked_by := Some pid, open_count := open_count b + 1\<rparr>) t;
                  (ft, r) = table_for (fds fs) pid
              in rbind (fd_alloc ft path) (\<lambda>(fd, ft'). Inr (Inr fd, fs\<lparr>fcbs := t', fds := bt_insert pid ft' r\<rparr>)))"

definition fs_open :: "'d fat_ops \<Rightarrow> (path \<Rightarrow> path) \<Rightarrow> 'd logical_fs \<Rightarrow> path \<Rightarrow> nat \<Rightarrow> u32 \<Rightarrow> u32 \<Rightarrow> ('d, nat) fs_result" where
  "fs_open F lower fs path pid uid gid =
     (if case_conflict lower fs path then Inr (Inl AlreadyExists, fs)
      else ftry (check_perm fs path uid gid False) fs (\<lambda>_.
           ftry (to_fat_path path) fs (\<lambda>fat_path.
           ftry (disk_mut fs) fs (\<lambda>d.
           if \<not> fat_open_file F d fat_path then Inr (Inl NotFound, fs)
           else lock_and_alloc fs path pid))))"

definition fs_close :: "'d logical_fs \<Rightarrow> nat \<Rightarrow> nat \<Rightarrow> ('d, unit) fs_result" where
  "fs_close fs fd pid =
     (let (ft, r) = table_for (fds fs) pid; (entry, ft') = fd_remove ft fd; fs1 = fs\<lparr>fds := bt_insert pid ft' r\<rparr>
      in ftry (ok_or entry NotOpen) fs1 (\<lambda>path.
         case fcb_get (fcbs fs1) path of
           None \<Rightarrow> Inr (Inr (), fs1)
         | Some b \<Rightarrow>
             (let b1 = b\<lparr>open_count := open_count b - 1\<rparr>;
                  b2 = (if locked_by b1 = Some pid then b1\<lparr>locked_by := None\<rparr> else b1)
              in Inr (Inr (), fs1\<lparr>fcbs := if open_count b2 = 0 then fcb_remove (fcbs fs1) path else bt_insert path b2 (fcbs fs1)\<rparr>))))"

text \<open>The path behind a descriptor; looking it up enters an empty table for a process without one.\<close>

definition fd_lookup :: "'d logical_fs \<Rightarrow> nat \<Rightarrow> nat \<Rightarrow> path option \<times> 'd logical_fs" where
  "fd_lookup fs fd pid = (let (ft, r) = table_for (fds fs) pid in (fd_get ft fd, fs\<lparr>fds := r\<rparr>))"

definition fs_read :: "'d fat_ops \<Rightarrow> 'd logical_fs \<Rightarrow> nat \<Rightarrow> nat \<Rightarrow> u32 \<Rightarrow> u32 \<Rightarrow> nat \<Rightarrow> ('d, u8 list) fs_result" where
  "fs_read F fs0 fd pid uid gid buf_len =
     (let (entry, fs) = fd_lookup fs0 fd pid
      in ftry (ok_or entry NotOpen) fs (\<lambda>path.
         ftry (check_perm fs path uid gid False) fs (\<lambda>_.
         ftry (ok_or (fcb_get (fcbs fs) path) NotOpen) fs (\<lambda>b.
         ftry (to_fat_path path) fs (\<lambda>fat_path.
         ftry (disk_mut fs) fs (\<lambda>d.
         if \<not> fat_open_file F d fat_path then Inr (Inl NotFound, fs)
         else ftry (ok_or (fat_seek_start F d fat_path (cursor b)) InvalidPath) fs (\<lambda>pos.
              ftry (ok_or (fat_read F d fat_path pos buf_len) InvalidPath) fs (\<lambda>(bs, d').
              rbind (add_u64 (cursor b) (length bs)) (\<lambda>c.
              Inr (Inr bs, fs\<lparr>disk := Some d', fcbs := bt_insert path (b\<lparr>cursor := c\<rparr>) (fcbs fs)\<rparr>))))))))))"

definition fs_write :: "'d fat_ops \<Rightarrow> 'd logical_fs \<Rightarrow> nat \<Rightarrow> nat \<Rightarrow> u32 \<Rightarrow> u32 \<Rightarrow> u8 list \<Rightarrow> ('d, nat) fs_result" where
  "fs_write F fs0 fd pid uid gid buf =
     (let (entry, fs) = fd_lookup fs0 fd pid
      in ftry (ok_or entry NotOpen) fs (\<lambda>path.
         ftry (ok_or (fcb_get (fcbs fs) path) NotOpen) fs (\<lambda>b.
         if is_shared b then Inr (Inl IsShared, fs)
         else ftry (check_perm fs path uid gid True) fs (\<lambda>_.
         ftry (to_fat_path path) fs (\<lambda>fat_path.
         ftry (disk_mut fs) fs (\<lambda>d.
         if \<not> fat_open_file F d fat_path then Inr (Inl NotFound, fs)
         else ftry (ok_or (fat_seek_start F d fat_path (cursor b)) InvalidPath) fs (\<lambda>pos.
              let (ok, d') = fat_write_all F d fat_path pos buf; fs1 = fs\<lparr>disk := Some d'\<rparr>
              in if \<not> ok then Inr (Inl InvalidPath, fs1)
                 else rbind (add_u64 (cursor b) (length buf)) (\<lambda>c.
                      Inr (Inr (length buf), fs1\<lparr>fcbs := bt_insert path (b\<lparr>cursor := c, dirty := True\<rparr>) (fcbs fs1)\<rparr>)))))))))"

definition fs_seek :: "'d logical_fs \<Rightarrow> nat \<Rightarrow> nat \<Rightarrow> nat \<Rightarrow> ('d, unit) fs_result" where
  "fs_seek fs0 fd pid offset =
     (let (entry, fs) = fd_lookup fs0 fd pid
      in ftry (ok_or entry NotOpen) fs (\<lambda>path.
         ftry (ok_or (fcb_get (fcbs fs) path) NotOpen) fs (\<lambda>b.
         Inr (Inr (), fs\<lparr>fcbs := bt_insert path (b\<lparr>cursor := offset\<rparr>) (fcbs fs)\<rparr>))))"

definition fs_create :: "'d fat_ops \<Rightarrow> (path \<Rightarrow> path) \<Rightarrow> 'd logical_fs \<Rightarrow> path \<Rightarrow> nat \<Rightarrow> ('d, nat) fs_result" where
  "fs_create F lower fs path pid =
     (if case_conflict lower fs path then Inr (Inl AlreadyExists, fs)
      else ftry (to_fat_path path) fs (\<lambda>fat_path.
           ftry (disk_mut fs) fs (\<lambda>d.
           ftry (ok_or (fat_create_file F d fat_path) InvalidPath) fs (\<lambda>d'.
           lock_and_alloc (fs\<lparr>disk := Some d'\<rparr>) path pid))))"

definition shared_open :: "'d logical_fs \<Rightarrow> path \<Rightarrow> bool" where
  "shared_open fs path = (case fcb_get (fcbs fs) path of None \<Rightarrow> False | Some b \<Rightarrow> is_shared b)"

definition fs_delete :: "'d fat_ops \<Rightarrow> 'd logical_fs \<Rightarrow> path \<Rightarrow> ('d, unit) fs_result" where
  "fs_delete F fs path =
     (if shared_open fs path then Inr (Inl IsShared, fs)
      else ftry (to_fat_path path) fs (\<lambda>fat_path.
           ftry (disk_mut fs) fs (\<lambda>d.
           ftry (ok_or (fat_remove F d fat_path) NotFound) fs (\<lambda>d'.
           Inr (Inr (), fs\<lparr>disk := Some d', fcbs := fcb_remove (fcbs fs) path, perms := perms_remove (perms fs) path\<rparr>)))))"

definition mark_shared :: "'d logical_fs \<Rightarrow> path \<Rightarrow> ('d, unit) fs_result" where
  "mark_shared fs path =
     ftry (ok_or (fcb_get (fcbs fs) path) NotFound) fs (\<lambda>b.
     Inr (Inr (), fs\<lparr>fcbs := bt_insert path (b\<lparr>is_shared := True\<rparr>) (fcbs fs)\<rparr>))"

definition fs_chmod :: "'d logical_fs \<Rightarrow> path \<Rightarrow> u8 \<Rightarrow> u8 \<Rightarrow> u8 \<Rightarrow> ('d, unit) fs_result" where
  "fs_chmod fs path owner grp world =
     Inr (Inr (), case perms_get (perms fs) path of
        None \<Rightarrow> fs
      | Some e \<Rightarrow> fs\<lparr>perms := perms_set (perms fs) path (e\<lparr>pe_owner_rwx := owner, pe_group_rwx := grp, pe_world_rwx := world\<rparr>)\<rparr>)"

text \<open>The system call \<^verbatim>\<open>SYS_CHOWN\<close> works on the permission table itself; it makes an entry where there is none.\<close>

definition fs_chown :: "'d logical_fs \<Rightarrow> path \<Rightarrow> u32 \<Rightarrow> u32 \<Rightarrow> 'd logical_fs" where
  "fs_chown fs path new_uid new_gid =
     (case perms_get (perms fs) path of
        Some e \<Rightarrow> fs\<lparr>perms := perms_set (perms fs) path (e\<lparr>pe_uid := new_uid, pe_gid := new_gid\<rparr>)\<rparr>
      | None \<Rightarrow> fs\<lparr>perms := perms_set (perms fs) path
          \<lparr>pe_uid = new_uid, pe_gid = new_gid, pe_owner_rwx = 7, pe_group_rwx = 5, pe_world_rwx = 5\<rparr>\<rparr>)"

definition verify_password :: "(u8 list \<Rightarrow> u8 list) \<Rightarrow> 'd logical_fs \<Rightarrow> u32 \<Rightarrow> u8 list \<Rightarrow> bool" where
  "verify_password sha fs uid password = auth_verify sha (auth fs) uid password"

definition fs_rename :: "'d fat_ops \<Rightarrow> (path \<Rightarrow> path) \<Rightarrow> 'd logical_fs \<Rightarrow> path \<Rightarrow> path \<Rightarrow> ('d, unit) fs_result" where
  "fs_rename F lower fs old new =
     (if case_conflict lower fs new then Inr (Inl AlreadyExists, fs)
      else if shared_open fs old then Inr (Inl IsShared, fs)
      else ftry (to_fat_path old) fs (\<lambda>old_fat.
           ftry (to_fat_path new) fs (\<lambda>new_fat.
           ftry (disk_mut fs) fs (\<lambda>d.
           ftry (ok_or (fat_rename F d old_fat new_fat) NotFound) fs (\<lambda>d'.
           Inr (Inr (), fs\<lparr>disk := Some d'\<rparr>))))))"

definition fs_mkdir :: "'d fat_ops \<Rightarrow> (path \<Rightarrow> path) \<Rightarrow> 'd logical_fs \<Rightarrow> path \<Rightarrow> ('d, unit) fs_result" where
  "fs_mkdir F lower fs path =
     (if case_conflict lower fs path then Inr (Inl AlreadyExists, fs)
      else ftry (to_fat_path path) fs (\<lambda>fat_path.
           ftry (disk_mut fs) fs (\<lambda>d.
           ftry (ok_or (fat_create_dir F d fat_path) AlreadyExists) fs (\<lambda>d'.
           Inr (Inr (), fs\<lparr>disk := Some d'\<rparr>)))))"

text \<open>The entries of a directory but \<^verbatim>\<open>.\<close> and \<^verbatim>\<open>..\<close>, those that cannot be read left out.\<close>

definition list_dir :: "'d fat_ops \<Rightarrow> 'd \<Rightarrow> path \<Rightarrow> (path \<times> bool) list option" where
  "list_dir F d p =
     map_option (\<lambda>es. filter (\<lambda>(name, _). name \<noteq> [0x2E] \<and> name \<noteq> [0x2E, 0x2E]) (List.map_filter (\<lambda>e. e) es)) (fat_open_dir F d p)"

definition child_path :: "path \<Rightarrow> path \<Rightarrow> path" where
  "child_path fat_path name = (if fat_path = [] then name else fat_path @ 0x2F # name)"

text \<open>
  The recursion follows the directory tree on the volume; the fuel bounds its depth, \<open>None\<close> is running out.
\<close>

fun remove_dir_recursive :: "nat \<Rightarrow> 'd fat_ops \<Rightarrow> path \<Rightarrow> 'd \<Rightarrow> ((fs_error + unit) \<times> 'd) option"
  and remove_entries :: "nat \<Rightarrow> 'd fat_ops \<Rightarrow> path \<Rightarrow> (path \<times> bool) list \<Rightarrow> 'd \<Rightarrow> ((fs_error + unit) \<times> 'd) option" where
  "remove_dir_recursive 0 F fat_path d = None"
| "remove_dir_recursive (Suc n) F fat_path d =
     (case list_dir F d fat_path of
        None \<Rightarrow> Some (Inl NotFound, d)
      | Some entries \<Rightarrow>
          (case remove_entries n F fat_path entries d of
             Some (Inr _, d') \<Rightarrow> (case fat_remove F d' fat_path of None \<Rightarrow> Some (Inl NotFound, d') | Some d'' \<Rightarrow> Some (Inr (), d''))
           | r \<Rightarrow> r))"
| "remove_entries n F fat_path [] d = Some (Inr (), d)"
| "remove_entries n F fat_path ((name, is_dir) # entries) d =
     (case (if is_dir then remove_dir_recursive n F (child_path fat_path name) d
            else case fat_remove F d (child_path fat_path name) of None \<Rightarrow> Some (Inl NotFound, d) | Some d' \<Rightarrow> Some (Inr (), d')) of
        Some (Inr _, d') \<Rightarrow> remove_entries n F fat_path entries d'
      | r \<Rightarrow> r)"

definition fs_rmdir :: "nat \<Rightarrow> 'd fat_ops \<Rightarrow> 'd logical_fs \<Rightarrow> path \<Rightarrow> ('d, unit) fs_result option" where
  "fs_rmdir fuel F fs path =
     (case to_fat_path path of
        Inl e \<Rightarrow> Some (Inr (Inl e, fs))
      | Inr fat_path \<Rightarrow>
          (case disk fs of
             None \<Rightarrow> Some (Inr (Inl NotMounted, fs))
           | Some d \<Rightarrow> map_option (\<lambda>(r, d'). Inr (r, fs\<lparr>disk := Some d'\<rparr>)) (remove_dir_recursive fuel F fat_path d)))"

definition fs_getdents :: "'d fat_ops \<Rightarrow> 'd logical_fs \<Rightarrow> path \<Rightarrow> ('d, (path \<times> bool) list) fs_result" where
  "fs_getdents F fs path =
     ftry (to_fat_path path) fs (\<lambda>fat_path.
     ftry (disk_mut fs) fs (\<lambda>d.
     ftry (ok_or (list_dir F d fat_path) NotFound) fs (\<lambda>es. Inr (Inr es, fs))))"

definition fs_stat :: "'d fat_ops \<Rightarrow> 'd logical_fs \<Rightarrow> path \<Rightarrow> ('d, stat) fs_result" where
  "fs_stat F fs path =
     ftry (to_fat_path path) fs (\<lambda>fat_path.
     ftry (disk_mut fs) fs (\<lambda>d.
     ftry (if fat_open_file F d fat_path then map_sum id (\<lambda>n. (n, 0)) (ok_or (fat_seek_end F d fat_path) InvalidPath)
           else if fat_open_dir F d fat_path \<noteq> None then Inr (0, 1)
           else Inl NotFound) fs (\<lambda>(n, is_dir).
     let s = \<lparr>st_size = n, st_is_dir = is_dir, st_owner_rwx = 0, st_group_rwx = 0, st_world_rwx = 0, st_uid = 0, st_gid = 0\<rparr>
     in Inr (Inr (case perms_get (perms fs) path of
                    None \<Rightarrow> s
                  | Some e \<Rightarrow> s\<lparr>st_uid := pe_uid e, st_gid := pe_gid e, st_owner_rwx := pe_owner_rwx e,
                                 st_group_rwx := pe_group_rwx e, st_world_rwx := pe_world_rwx e\<rparr>), fs))))"

end
