(* ===== verification/VfsSafety.thy ===== *)
theory VfsSafety
  imports Vfs
begin

text \<open>
  The file system keeps its tables in agreement: every descriptor of every process names a file with a control
  block locked by that process, and no file is open twice. What reading and writing do to the files of the
  volume, who may do it, and two ways around the checks.
\<close>

subsection \<open>Which process holds which file\<close>

definition holder :: "fd_registry \<Rightarrow> nat \<Rightarrow> nat \<Rightarrow> path option" where
  "holder r pid fd = (case map_of r pid of None \<Rightarrow> None | Some ft \<Rightarrow> map_of (fd_map ft) fd)"

definition fd_table_ok :: "proc_fd_table \<Rightarrow> bool" where
  "fd_table_ok ft \<longleftrightarrow> bt_ok (fd_map ft) \<and> 3 \<le> next_fd ft \<and> (\<forall>fd\<in>fst ` set (fd_map ft). 3 \<le> fd \<and> fd < next_fd ft)"

text \<open>
  The tables agree: a file with a descriptor has a control block locked by the process of the descriptor, and a
  control block has exactly one descriptor.
\<close>

definition opens_ok :: "fcb_table \<Rightarrow> fd_registry \<Rightarrow> bool" where
  "opens_ok t r \<longleftrightarrow> bt_ok t \<and> bt_ok r \<and>
     (\<forall>pid ft. map_of r pid = Some ft \<longrightarrow> fd_table_ok ft) \<and>
     (\<forall>pid fd path. holder r pid fd = Some path \<longrightarrow>
        (\<exists>b. map_of t path = Some b \<and> locked_by b = Some pid \<and> open_count b = 1)) \<and>
     (\<forall>pid fd pid' fd' path. holder r pid fd = Some path \<longrightarrow> holder r pid' fd' = Some path \<longrightarrow> pid' = pid \<and> fd' = fd) \<and>
     (\<forall>path b. map_of t path = Some b \<longrightarrow> (\<exists>pid fd. holder r pid fd = Some path))"

lemma opens_okD:
  assumes "opens_ok t r"
  shows "bt_ok t" "bt_ok r" "map_of r pid = Some ft \<Longrightarrow> fd_table_ok ft"
    "holder r pid fd = Some path \<Longrightarrow> \<exists>b. map_of t path = Some b \<and> locked_by b = Some pid \<and> open_count b = 1"
    "holder r pid fd = Some path \<Longrightarrow> holder r pid' fd' = Some path \<Longrightarrow> pid' = pid \<and> fd' = fd"
    "map_of t path = Some b \<Longrightarrow> \<exists>pid fd. holder r pid fd = Some path"
  using assms unfolding opens_ok_def by blast+

lemma opens_ok_tables: "opens_ok t r \<Longrightarrow> \<forall>pid ft. map_of r pid = Some ft \<longrightarrow> fd_table_ok ft"
  unfolding opens_ok_def by blast

lemma opens_okI:
  assumes "bt_ok t" "bt_ok r" "\<And>pid ft. map_of r pid = Some ft \<Longrightarrow> fd_table_ok ft"
    "\<And>pid fd path. holder r pid fd = Some path \<Longrightarrow> \<exists>b. map_of t path = Some b \<and> locked_by b = Some pid \<and> open_count b = 1"
    "\<And>pid fd pid' fd' path. holder r pid fd = Some path \<Longrightarrow> holder r pid' fd' = Some path \<Longrightarrow> pid' = pid \<and> fd' = fd"
    "\<And>path b. map_of t path = Some b \<Longrightarrow> \<exists>pid fd. holder r pid fd = Some path"
  shows "opens_ok t r"
  using assms unfolding opens_ok_def by blast

lemma opens_ok_empty: "opens_ok fcb_table_new fd_registry_new"
  by (simp add: opens_ok_def fcb_table_new_def fd_registry_new_def bt_ok_def holder_def)

lemma table_for_view:
  assumes "bt_ok r" "table_for r pid = (ft, r')"
  shows "bt_ok r'" "holder r' = holder r" "map_of (fd_map ft) = holder r pid" "map_of r' = (map_of r)(pid \<mapsto> ft)"
    "(map_of r pid = None \<and> ft = proc_fd_new) \<or> map_of r pid = Some ft"
  using assms
  by (auto simp: table_for_def bt_insert_ok map_of_bt_insert holder_def proc_fd_new_def fun_eq_iff split: option.splits if_splits)

lemma proc_fd_new_ok: "fd_table_ok proc_fd_new"
  by (simp add: fd_table_ok_def proc_fd_new_def bt_ok_def)

lemma holder_insert: "bt_ok r \<Longrightarrow> holder (bt_insert pid ft r) q fd = (if q = pid then map_of (fd_map ft) fd else holder r q fd)"
  by (simp add: holder_def map_of_bt_insert)

lemma opens_ok_table_for:
  assumes "opens_ok t r" "table_for r pid = (ft, r')"
  shows "opens_ok t r'" "fd_table_ok ft"
proof -
  note v = table_for_view [OF opens_okD(2) [OF assms(1)] assms(2)]
  show ft: "fd_table_ok ft" using v(5) opens_okD(3) [OF assms(1)] proc_fd_new_ok by blast
  show "opens_ok t r'" using assms(1) v(1,2,4) ft unfolding opens_ok_def by auto
qed

text \<open>Changing the cursor, the dirty bit or the shared bit keeps the agreement.\<close>

lemma opens_ok_fcb:
  assumes "opens_ok t r" "map_of t path = Some b" "locked_by b' = locked_by b" "open_count b' = open_count b"
  shows "opens_ok (bt_insert path b' t) r"
proof -
  have m: "map_of (bt_insert path b' t) = (map_of t)(path \<mapsto> b')" by (rule map_of_bt_insert [OF opens_okD(1) [OF assms(1)]])
  show ?thesis
    using assms bt_insert_ok [OF opens_okD(1) [OF assms(1)], of path b'] unfolding opens_ok_def m by (auto 4 4)
qed

lemma lock_and_alloc_ok:
  assumes ok: "opens_ok (fcbs fs) (fds fs)" and r: "lock_and_alloc fs path pid = Inr (x, fs')"
  shows "opens_ok (fcbs fs') (fds fs')"
proof (cases "map_of (fcbs fs) path")
  case (Some b)
  then obtain q fd where "holder (fds fs) q fd = Some path" using opens_okD(6) [OF ok] by blast
  then have "locked_by b \<noteq> None" using opens_okD(4) [OF ok] Some by fastforce
  then show ?thesis using r ok Some by (auto simp: lock_and_alloc_def fcb_open_def)
next
  case None
  let ?b = "(fcb_new path)\<lparr>locked_by := Some pid, open_count := 1\<rparr>"
  let ?t = "bt_insert path ?b (bt_insert path (fcb_new path) (fcbs fs))"
  obtain ft r' where tf: "table_for (fds fs) pid = (ft, r')" by (cases "table_for (fds fs) pid")
  define ft' where "ft' = \<lparr>next_fd = Suc (next_fd ft), fd_map = bt_insert (next_fd ft) path (fd_map ft)\<rparr>"
  have fs': "fcbs fs' = ?t" "fds fs' = bt_insert pid ft' r'"
    using r None tf by (auto simp: lock_and_alloc_def fcb_open_def fd_alloc_def ft'_def fcb_new_def Let_def split: if_splits)
  note v = table_for_view [OF opens_okD(2) [OF ok] tf] and ft = opens_ok_table_for [OF ok tf]
  have t: "bt_ok ?t" "map_of ?t = (map_of (fcbs fs))(path \<mapsto> ?b)"
    using opens_okD(1) [OF ok] by (simp_all add: bt_insert_ok map_of_bt_insert fun_eq_iff)
  have fresh: "holder (fds fs) pid (next_fd ft) = None"
    using ft(2) unfolding v(3) [symmetric] fd_table_ok_def by (auto simp: map_of_eq_None_iff)
  have ft': "fd_table_ok ft'" using ft(2) by (auto simp: ft'_def fd_table_ok_def bt_insert_ok set_bt_insert)
  have h: "holder (bt_insert pid ft' r') q fd = (if q = pid \<and> fd = next_fd ft then Some path else holder (fds fs) q fd)" for q fd
    using v ft(2) by (simp add: holder_insert ft'_def map_of_bt_insert fd_table_ok_def fun_eq_iff)
  have no: "holder (fds fs) q fd \<noteq> Some path" for q fd using opens_okD(4) [OF ok] None by fastforce
  show ?thesis
    unfolding opens_ok_def fs' t(2) h
    using t(1) bt_insert_ok [OF v(1)] v(1,4) ft' opens_okD [OF ok] no fresh
    by (auto simp: map_of_bt_insert fcb_new_def split: if_splits) (metis option.distinct(1))+
qed

lemma opens_ok_close:
  assumes ok: "opens_ok (fcbs fs) (fds fs)" and r: "fs_close fs fd pid = Inr (x, fs')"
  shows "opens_ok (fcbs fs') (fds fs')"
proof -
  obtain ft r' where tf: "table_for (fds fs) pid = (ft, r')" by (cases "table_for (fds fs) pid")
  note v = table_for_view [OF opens_okD(2) [OF ok] tf] and ft = opens_ok_table_for [OF ok tf]
  define ft' where "ft' = ft\<lparr>fd_map := bt_remove fd (fd_map ft)\<rparr>"
  have ft': "fd_table_ok ft'" using ft(2) bt_remove_ok [of "fd_map ft" fd] by (auto simp: ft'_def fd_table_ok_def bt_remove_def)
  have h: "holder (bt_insert pid ft' r') q n = (if q = pid \<and> n = fd then None else holder (fds fs) q n)" for q n
    using v by (simp add: holder_insert ft'_def map_of_bt_remove)
  have tabs: "bt_ok (bt_insert pid ft' r')" "\<forall>q t. map_of (bt_insert pid ft' r') q = Some t \<longrightarrow> fd_table_ok t"
    using v(1,4) ft' opens_okD(3) [OF ok] by (auto simp: bt_insert_ok map_of_bt_insert)
  show ?thesis
  proof (cases "holder (fds fs) pid fd")
    case None
    then have "fs' = fs\<lparr>fds := bt_insert pid ft' r'\<rparr>" using r tf v(3) by (simp add: fs_close_def fd_remove_def ftry_def ok_or_def ft'_def)
    moreover have "holder (bt_insert pid ft' r') = holder (fds fs)" using None by (auto simp: h fun_eq_iff)
    ultimately show ?thesis using ok tabs unfolding opens_ok_def by simp
  next
    case (Some path)
    then obtain b where b: "map_of (fcbs fs) path = Some b" "locked_by b = Some pid" "open_count b = 1"
      using opens_okD(4) [OF ok] by blast
    have fs': "fcbs fs' = bt_remove path (fcbs fs)" "fds fs' = bt_insert pid ft' r'"
      using r tf v(3) Some b
      by (auto simp: fs_close_def fd_remove_def ftry_def ok_or_def ft'_def fcb_get_def fcb_remove_def Let_def)
    have only: "holder (fds fs) q n = Some path \<Longrightarrow> q = pid \<and> n = fd" for q n using opens_okD(5) [OF ok Some] by blast
    show ?thesis unfolding fs'
    proof (rule opens_okI)
      show "bt_ok (bt_remove path (fcbs fs))" by (rule bt_remove_ok [OF opens_okD(1) [OF ok]])
      show "\<exists>b. map_of (bt_remove path (fcbs fs)) p = Some b \<and> locked_by b = Some q \<and> open_count b = 1"
        if "holder (bt_insert pid ft' r') q n = Some p" for q n p
      proof -
        have "holder (fds fs) q n = Some p" "\<not> (q = pid \<and> n = fd)" using that unfolding h by (simp_all split: if_splits)
        moreover from this have "p \<noteq> path" using only by blast
        ultimately show ?thesis using opens_okD(4) [OF ok] by (simp add: map_of_bt_remove)
      qed
      show "q' = q \<and> n' = n" if "holder (bt_insert pid ft' r') q n = Some p" "holder (bt_insert pid ft' r') q' n' = Some p" for q n q' n' p
        using opens_okD(5) [OF ok, of q n p q' n'] that unfolding h by (simp split: if_splits)
      show "\<exists>q n. holder (bt_insert pid ft' r') q n = Some p" if "map_of (bt_remove path (fcbs fs)) p = Some b" for p b
      proof -
        have "map_of (fcbs fs) p = Some b" "p \<noteq> path" using that by (simp_all add: map_of_bt_remove split: if_splits)
        then obtain q n where "holder (fds fs) q n = Some p" using opens_okD(6) [OF ok] by blast
        moreover have "\<not> (q = pid \<and> n = fd)" using calculation Some \<open>p \<noteq> path\<close> by auto
        ultimately show ?thesis unfolding h by (intro exI [of _ q] exI [of _ n]) simp
      qed
    qed (use tabs in auto)
  qed
qed

lemma close_view:
  assumes ok: "opens_ok (fcbs fs) (fds fs)" and h: "holder (fds fs) pid fd = Some path"
  obtains fs' where "fs_close fs fd pid = Inr (Inr (), fs')" "disk fs' = disk fs" "map_of (fcbs fs') = (map_of (fcbs fs))(path := None)"
    "\<And>q n. holder (fds fs') q n = (if q = pid \<and> n = fd then None else holder (fds fs) q n)"
proof -
  obtain ft r' where tf: "table_for (fds fs) pid = (ft, r')" by (cases "table_for (fds fs) pid")
  note v = table_for_view [OF opens_okD(2) [OF ok] tf]
  obtain b where b: "map_of (fcbs fs) path = Some b" "locked_by b = Some pid" "open_count b = 1" using opens_okD(4) [OF ok h] by blast
  define ft' where "ft' = ft\<lparr>fd_map := bt_remove fd (fd_map ft)\<rparr>"
  define fs' where "fs' = fs\<lparr>fcbs := bt_remove path (fcbs fs), fds := bt_insert pid ft' r'\<rparr>"
  have "map_of (fd_map ft) fd = Some path" using h v(3) by simp
  then have "fs_close fs fd pid = Inr (Inr (), fs')"
    using tf b by (simp add: fs_close_def fd_remove_def ftry_def ok_or_def fcb_get_def fcb_remove_def ft'_def fs'_def)
  moreover have "holder (fds fs') q n = (if q = pid \<and> n = fd then None else holder (fds fs) q n)" for q n
    using v by (simp add: fs'_def holder_insert ft'_def map_of_bt_remove)
  moreover have "map_of (fcbs fs') = (map_of (fcbs fs))(path := None)" by (auto simp: fs'_def map_of_bt_remove fun_eq_iff)
  ultimately show thesis by (intro that [of fs']) (simp_all add: fs'_def)
qed

subsection \<open>Every operation keeps the agreement\<close>

lemma ftry_simps [simp]: "ftry (Inl e) fs k = Inr (Inl e, fs)" "ftry (Inr a) fs k = k a"
  by (simp_all add: ftry_def)

lemma ftry_eq: "ftry r fs k = Inr (x, fs') \<longleftrightarrow>
    (\<exists>e. r = Inl e \<and> x = Inl e \<and> fs' = fs) \<or> (\<exists>a. r = Inr a \<and> k a = Inr (x, fs'))"
  by (auto simp: ftry_def split: sum.splits)

lemma ok_or_eq [simp]: "ok_or m e = Inr a \<longleftrightarrow> m = Some a" "ok_or m e = Inl e' \<longleftrightarrow> m = None \<and> e' = e" "ok_or (Some a) e = Inr a" "ok_or None e = Inl e"
  by (auto simp: ok_or_def split: option.splits)

lemma fd_lookup_view:
  assumes ok: "opens_ok (fcbs fs) (fds fs)" and l: "fd_lookup fs fd pid = (e, fs1)"
  shows "e = holder (fds fs) pid fd" "opens_ok (fcbs fs1) (fds fs1)" "fcbs fs1 = fcbs fs" "perms fs1 = perms fs" "disk fs1 = disk fs"
    "holder (fds fs1) = holder (fds fs)"
proof -
  obtain ft r' where tf: "table_for (fds fs) pid = (ft, r')" by (cases "table_for (fds fs) pid")
  note v = table_for_view [OF opens_okD(2) [OF ok] tf] and ft = opens_ok_table_for [OF ok tf]
  have fs1: "fs1 = fs\<lparr>fds := r'\<rparr>" "e = fd_get ft fd" using l tf by (simp_all add: fd_lookup_def)
  show "e = holder (fds fs) pid fd" "opens_ok (fcbs fs1) (fds fs1)" "fcbs fs1 = fcbs fs" "perms fs1 = perms fs" "disk fs1 = disk fs"
    "holder (fds fs1) = holder (fds fs)"
    using v(2,3) ft(1) by (simp_all add: fs1 fd_get_def)
qed

lemma opens_ok_open: "opens_ok (fcbs fs) (fds fs) \<Longrightarrow> fs_open F lower fs path pid uid gid = Inr (x, fs') \<Longrightarrow> opens_ok (fcbs fs') (fds fs')"
  using lock_and_alloc_ok [of fs path pid x fs'] by (auto simp: fs_open_def ftry_eq split: if_splits)

lemma opens_ok_create:
  assumes "opens_ok (fcbs fs) (fds fs)" "fs_create F lower fs path pid = Inr (x, fs')"
  shows "opens_ok (fcbs fs') (fds fs')"
proof -
  have "opens_ok (fcbs fs') (fds fs')" if "lock_and_alloc (fs\<lparr>disk := Some d\<rparr>) path pid = Inr (x, fs')" for d
    using lock_and_alloc_ok [OF _ that] assms(1) by simp
  then show ?thesis using assms by (auto simp: fs_create_def ftry_eq split: if_splits)
qed

lemma opens_ok_read:
  assumes ok: "opens_ok (fcbs fs0) (fds fs0)" and r: "fs_read F fs0 fd pid uid gid n = Inr (x, fs')"
  shows "opens_ok (fcbs fs') (fds fs')"
proof -
  obtain e fs where l: "fd_lookup fs0 fd pid = (e, fs)" by (cases "fd_lookup fs0 fd pid")
  note v = fd_lookup_view [OF ok l]
  have cur: "opens_ok (bt_insert p (b\<lparr>cursor := c\<rparr>) (fcbs fs)) (fds fs)" if "fcb_get (fcbs fs) p = Some b" for p b c
    using opens_ok_fcb [OF v(2)] that by (simp add: fcb_get_def)
  show ?thesis using r v(2) cur unfolding fs_read_def l by (auto simp: ftry_eq split: if_splits)
qed

lemma opens_ok_write:
  assumes ok: "opens_ok (fcbs fs0) (fds fs0)" and r: "fs_write F fs0 fd pid uid gid buf = Inr (x, fs')"
  shows "opens_ok (fcbs fs') (fds fs')"
proof -
  obtain e fs where l: "fd_lookup fs0 fd pid = (e, fs)" by (cases "fd_lookup fs0 fd pid")
  note v = fd_lookup_view [OF ok l]
  have cur: "opens_ok (bt_insert p (b\<lparr>cursor := c, dirty := True\<rparr>) (fcbs fs)) (fds fs)" if "fcb_get (fcbs fs) p = Some b" for p b c
    using opens_ok_fcb [OF v(2)] that by (simp add: fcb_get_def)
  show ?thesis using r v(2) cur unfolding fs_write_def l by (auto simp: ftry_eq Let_def case_prod_beta split: if_splits)
qed

lemma opens_ok_seek:
  assumes ok: "opens_ok (fcbs fs0) (fds fs0)" and r: "fs_seek fs0 fd pid off = Inr (x, fs')"
  shows "opens_ok (fcbs fs') (fds fs')"
proof -
  obtain e fs where l: "fd_lookup fs0 fd pid = (e, fs)" by (cases "fd_lookup fs0 fd pid")
  note v = fd_lookup_view [OF ok l]
  have cur: "opens_ok (bt_insert p (b\<lparr>cursor := c\<rparr>) (fcbs fs)) (fds fs)" if "fcb_get (fcbs fs) p = Some b" for p b c
    using opens_ok_fcb [OF v(2)] that by (simp add: fcb_get_def)
  show ?thesis using r v(2) cur unfolding fs_seek_def l by (auto simp: ftry_eq split: if_splits)
qed

lemma opens_ok_mark_shared:
  assumes "opens_ok (fcbs fs) (fds fs)" "mark_shared fs path = Inr (x, fs')"
  shows "opens_ok (fcbs fs') (fds fs')"
  using assms opens_ok_fcb [OF assms(1)] by (auto simp: mark_shared_def ftry_eq fcb_get_def)

lemma opens_ok_delete:
  assumes "opens_ok (fcbs fs) (fds fs)" "fs_delete F fs path = Inr (x, fs')" "fcb_get (fcbs fs) path = None"
  shows "opens_ok (fcbs fs') (fds fs')"
proof -
  have "bt_remove path (fcbs fs) = fcbs fs"
    using assms(3) by (auto simp: bt_remove_def fcb_get_def map_of_eq_None_iff filter_id_conv)
  then show ?thesis using assms(1,2) by (auto simp: fs_delete_def ftry_eq fcb_remove_def split: if_splits)
qed

subsection \<open>Runs of the file system\<close>

datatype fs_request =
    Open path nat u32 u32
  | Close nat nat
  | Read nat nat u32 u32 nat
  | Write nat nat u32 u32 "u8 list"
  | Seek nat nat nat
  | Create path nat
  | Delete path
  | MarkShared path
  | Chmod path u8 u8 u8
  | Chown path u32 u32
  | Rename path path
  | Mkdir path
  | Rmdir nat path
  | Getdents path
  | Stat path

definition after :: "('d, 'a) fs_result \<Rightarrow> 'd logical_fs option" where
  "after r = (case r of Inl e \<Rightarrow> None | Inr (x, fs) \<Rightarrow> Some fs)"

fun fs_step :: "'d fat_ops \<Rightarrow> (path \<Rightarrow> path) \<Rightarrow> fs_request \<Rightarrow> 'd logical_fs \<Rightarrow> 'd logical_fs option" where
  "fs_step F lower (Open path pid uid gid) fs = after (fs_open F lower fs path pid uid gid)"
| "fs_step F lower (Close fd pid) fs = after (fs_close fs fd pid)"
| "fs_step F lower (Read fd pid uid gid n) fs = after (fs_read F fs fd pid uid gid n)"
| "fs_step F lower (Write fd pid uid gid buf) fs = after (fs_write F fs fd pid uid gid buf)"
| "fs_step F lower (Seek fd pid offset) fs = after (fs_seek fs fd pid offset)"
| "fs_step F lower (Create path pid) fs = after (fs_create F lower fs path pid)"
| "fs_step F lower (Delete path) fs = after (fs_delete F fs path)"
| "fs_step F lower (MarkShared path) fs = after (mark_shared fs path)"
| "fs_step F lower (Chmod path owner grp world) fs = after (fs_chmod fs path owner grp world)"
| "fs_step F lower (Chown path uid gid) fs = Some (fs_chown fs path uid gid)"
| "fs_step F lower (Rename old new) fs = after (fs_rename F lower fs old new)"
| "fs_step F lower (Mkdir path) fs = after (fs_mkdir F lower fs path)"
| "fs_step F lower (Rmdir fuel path) fs = (case fs_rmdir fuel F fs path of None \<Rightarrow> None | Some r \<Rightarrow> after r)"
| "fs_step F lower (Getdents path) fs = after (fs_getdents F fs path)"
| "fs_step F lower (Stat path) fs = after (fs_stat F fs path)"

text \<open>States after mounting a volume, loading the two databases and any requests that do not delete an open file.\<close>

inductive fs_reachable :: "'d fat_ops \<Rightarrow> (path \<Rightarrow> path) \<Rightarrow> 'd \<Rightarrow> 'd logical_fs \<Rightarrow> bool" for F lower d where
  mounted: "fs_reachable F lower d ((mount_disk logical_fs_new d)\<lparr>perms := P, auth := A\<rparr>)"
| request: "fs_reachable F lower d fs \<Longrightarrow> (\<And>path. req = Delete path \<Longrightarrow> fcb_get (fcbs fs) path = None) \<Longrightarrow>
    fs_step F lower req fs = Some fs' \<Longrightarrow> fs_reachable F lower d fs'"

lemma after_eq: "after r = Some fs \<longleftrightarrow> (\<exists>x. r = Inr (x, fs))"
  by (auto simp: after_def split: sum.splits)

lemma opens_ok_step:
  assumes ok: "opens_ok (fcbs fs) (fds fs)" and no: "\<And>path. req = Delete path \<Longrightarrow> fcb_get (fcbs fs) path = None"
    and r: "fs_step F lower req fs = Some fs'"
  shows "opens_ok (fcbs fs') (fds fs')"
proof (cases req)
  case (Rmdir fuel path)
  then show ?thesis using r ok by (auto simp: fs_rmdir_def after_eq split: option.splits sum.splits)
next
  case (Getdents path)
  then show ?thesis using r ok by (auto simp: fs_getdents_def after_eq ftry_eq)
next
  case (Stat path)
  then show ?thesis using r ok by (auto simp: fs_stat_def after_eq ftry_eq Let_def)
next
  case (Mkdir path)
  then show ?thesis using r ok by (auto simp: fs_mkdir_def after_eq ftry_eq split: if_splits)
next
  case (Rename old new)
  then show ?thesis using r ok by (auto simp: fs_rename_def after_eq ftry_eq split: if_splits)
next
  case (Chown path uid gid)
  then show ?thesis using r ok by (auto simp: fs_chown_def split: option.splits)
next
  case (Chmod path owner grp world)
  then show ?thesis using r ok by (auto simp: fs_chmod_def after_eq split: option.splits)
qed (use assms opens_ok_open [OF ok] opens_ok_create [OF ok] opens_ok_close [OF ok] opens_ok_read [OF ok] opens_ok_write [OF ok]
      opens_ok_seek [OF ok] opens_ok_mark_shared [OF ok] opens_ok_delete [OF ok] in \<open>force simp: after_eq\<close>)+

lemma opens_ok_reachable: "fs_reachable F lower d fs \<Longrightarrow> opens_ok (fcbs fs) (fds fs)"
proof (induction rule: fs_reachable.induct)
  case mounted
  then show ?case by (simp add: mount_disk_def logical_fs_new_def opens_ok_empty)
qed (rule opens_ok_step)

text \<open>A file created by process 2 on an empty volume.\<close>

definition example_fs :: "(path \<rightharpoonup> u8 list) logical_fs" where
  "example_fs = \<lparr>fcbs = [([0x2F, 0x61], \<lparr>fcb_path = [0x2F, 0x61], cursor = 0, open_count = 1, dirty = False, locked_by = Some 2, is_shared = False\<rparr>)],
     fds = [(2, \<lparr>next_fd = 4, fd_map = [(3, [0x2F, 0x61])]\<rparr>)], perms = [], auth = [], disk = Some [[0x61] \<mapsto> []]\<rparr>"

lemma example_fs_created:
  "fs_create simple_fat (\<lambda>p. p) (mount_disk logical_fs_new Map.empty) [0x2F, 0x61] 2 = Inr (Inr 3, example_fs)"
  by (simp add: example_fs_def mount_disk_def logical_fs_new_def fcb_table_new_def fd_registry_new_def fs_create_def case_conflict_def fcb_paths_def
      to_fat_path_def disk_mut_def simple_fat_def lock_and_alloc_def fcb_open_def fcb_new_def table_for_def proc_fd_new_def fd_alloc_def
      add_u64_def U64_LIMIT_def perms_new_def auth_new_def)

lemma example_fs_reachable: "fs_reachable simple_fat (\<lambda>p. p) Map.empty example_fs"
proof (rule request)
  have "mount_disk logical_fs_new Map.empty = (mount_disk logical_fs_new Map.empty)\<lparr>perms := perms_new, auth := auth_new\<rparr>"
    by (simp add: mount_disk_def logical_fs_new_def)
  then show "fs_reachable simple_fat (\<lambda>p. p) Map.empty (mount_disk logical_fs_new Map.empty)" using mounted by metis
  show "fs_step simple_fat (\<lambda>p. p) (Create [0x2F, 0x61] 2) (mount_disk logical_fs_new Map.empty) = Some example_fs"
    by (simp add: example_fs_created after_def)
qed simp

lemma example_fs_holder: "holder (fds example_fs) 2 3 = Some [0x2F, 0x61]"
  by (simp add: example_fs_def holder_def)



subsection \<open>Reading and writing\<close>

lemma check_perm_cong: "perms fs = perms fs' \<Longrightarrow> check_perm fs = check_perm fs'"
  by (simp add: check_perm_def fun_eq_iff)

lemma write_view:
  assumes ok: "opens_ok (fcbs fs) (fds fs)" and w: "fs_write F fs fd pid uid gid buf = Inr (x, fs')"
  obtains (failed) e where "x = Inl e" "disk fs' = disk fs"
  | (wrote) path b p d pos where "holder (fds fs) pid fd = Some path" "map_of (fcbs fs) path = Some b" "\<not> is_shared b"
      "check_perm fs path uid gid True = Inr ()" "to_fat_path path = Inr p" "disk fs = Some d"
      "fat_seek_start F d p (cursor b) = Some pos" "disk fs' = Some (snd (fat_write_all F d p pos buf))"
      "perms fs' = perms fs" "holder (fds fs') = holder (fds fs)"
      "x = Inr (length buf) \<Longrightarrow> fst (fat_write_all F d p pos buf) \<and> cursor b + length buf < U64_LIMIT \<and>
         fcbs fs' = bt_insert path (b\<lparr>cursor := cursor b + length buf, dirty := True\<rparr>) (fcbs fs)"
      "x = Inr (length buf) \<or> x = Inl InvalidPath"
proof -
  obtain e fsl where l: "fd_lookup fs fd pid = (e, fsl)" by (cases "fd_lookup fs fd pid")
  note v = fd_lookup_view [OF ok l]
  let ?P = "\<lambda>path b p d pos. e = Some path \<and> fcb_get (fcbs fsl) path = Some b \<and> \<not> is_shared b \<and> check_perm fsl path uid gid True = Inr () \<and>
    to_fat_path path = Inr p \<and> disk_mut fsl = Inr d \<and> fat_open_file F d p \<and> fat_seek_start F d p (cursor b) = Some pos"
  show thesis
  proof (cases "\<exists>path b p d pos. ?P path b p d pos")
    case False
    then have "\<exists>er. x = Inl er \<and> fs' = fsl" using w unfolding fs_write_def l by (auto simp: ftry_eq split: if_splits)
    then show thesis using failed v(5) by blast
  next
    case True
    then obtain path b p d pos where P: "?P path b p d pos" by blast
    then have h: "holder (fds fs) pid fd = Some path" "map_of (fcbs fs) path = Some b" "disk fs = Some d" "check_perm fs path uid gid True = Inr ()"
      using v check_perm_cong [OF v(4)] by (simp_all add: fcb_get_def disk_mut_def)
    have w': "x = Inl InvalidPath \<and> fs' = fsl\<lparr>disk := Some (snd (fat_write_all F d p pos buf))\<rparr> \<or>
      x = Inr (length buf) \<and> fst (fat_write_all F d p pos buf) \<and> cursor b + length buf < U64_LIMIT \<and>
      fs' = fsl\<lparr>disk := Some (snd (fat_write_all F d p pos buf)), fcbs := bt_insert path (b\<lparr>cursor := cursor b + length buf, dirty := True\<rparr>) (fcbs fsl)\<rparr>"
      using w P unfolding fs_write_def l by (auto simp: Let_def case_prod_beta split: if_splits)
    show thesis by (rule wrote [OF h(1,2)]) (use P h v w' in auto)
  qed
qed

text \<open>A read through a descriptor is a read of the file at the cursor.\<close>

lemma read_result:
  assumes laws: "fat_laws F canon files" and ok: "opens_ok (fcbs fs) (fds fs)"
    and h: "holder (fds fs) pid fd = Some path" "map_of (fcbs fs) path = Some b" "to_fat_path path = Inr p" "disk fs = Some d"
    and c: "files d (canon p) = Some c" "cursor b \<le> length c" "cursor b + n < U64_LIMIT"
    and perm: "check_perm fs path uid gid False = Inr ()" and r: "fat_read F d p (cursor b) n = Some (bs, d')" "length bs \<le> n"
  obtains fs' where "fs_read F fs fd pid uid gid n = Inr (Inr bs, fs')" "disk fs' = Some d'" "holder (fds fs') = holder (fds fs)"
    "map_of (fcbs fs') = (map_of (fcbs fs))(path \<mapsto> b\<lparr>cursor := cursor b + length bs\<rparr>)"
proof -
  obtain e fsl where l: "fd_lookup fs fd pid = (e, fsl)" by (cases "fd_lookup fs fd pid")
  note v = fd_lookup_view [OF ok l]
  have a: "add_u64 (cursor b) (length bs) = Inr (cursor b + length bs)" using r(2) c(3) by (simp add: add_u64_def)
  show thesis
    by (rule that [of "fsl\<lparr>disk := Some d', fcbs := bt_insert path (b\<lparr>cursor := cursor b + length bs\<rparr>) (fcbs fsl)\<rparr>"])
       (use r h c v perm check_perm_cong [OF v(4)] fat_laws_open [OF laws, of d p] fat_laws_seek [OF laws c(1,2)] opens_okD(1) [OF ok] in
         \<open>simp_all add: fs_read_def l fcb_get_def disk_mut_def a map_of_bt_insert\<close>)
qed

lemma read_runs:
  assumes laws: "fat_laws F canon files" and ok: "opens_ok (fcbs fs) (fds fs)"
    and h: "holder (fds fs) pid fd = Some path" "map_of (fcbs fs) path = Some b" "to_fat_path path = Inr p" "disk fs = Some d"
    and c: "files d (canon p) = Some c" "cursor b \<le> length c" "cursor b + n < U64_LIMIT"
    and perm: "check_perm fs path uid gid False = Inr ()"
  obtains bs fs' where "fs_read F fs fd pid uid gid n = Inr (Inr bs, fs')" "bs = take (length bs) (drop (cursor b) c)"
    "length bs \<le> n" "0 < n \<Longrightarrow> cursor b < length c \<Longrightarrow> bs \<noteq> []"
proof -
  obtain bs d' where r: "fat_read F d p (cursor b) n = Some (bs, d')" "length bs \<le> n" "bs = take (length bs) (drop (cursor b) c)"
    "0 < n \<Longrightarrow> cursor b < length c \<Longrightarrow> bs \<noteq> []"
    by (rule fat_laws_read [OF laws c(1,2)]) (rule that)
  obtain fs' where "fs_read F fs fd pid uid gid n = Inr (Inr bs, fs')" by (rule read_result [OF assms r(1,2)])
  then show thesis using r(3,2,4) by (rule that)
qed





subsection \<open>Ways around the checks\<close>

text \<open>The state after a free control block is locked, and what it shows.\<close>

definition locked_state :: "'d logical_fs \<Rightarrow> path \<Rightarrow> nat \<Rightarrow> 'd logical_fs" where
  "locked_state fs path pid =
     (let (ft, r) = table_for (fds fs) pid
      in fs\<lparr>fcbs := bt_insert path ((fcb_new path)\<lparr>locked_by := Some pid, open_count := 1\<rparr>) (bt_insert path (fcb_new path) (fcbs fs)),
            fds := bt_insert pid \<lparr>next_fd = Suc (next_fd ft), fd_map = bt_insert (next_fd ft) path (fd_map ft)\<rparr> r\<rparr>)"

lemma lock_fresh:
  assumes "map_of (fcbs fs) path = None"
  shows "lock_and_alloc fs path pid =
    (if Suc (next_fd (fst (table_for (fds fs) pid))) < U64_LIMIT
     then Inr (Inr (next_fd (fst (table_for (fds fs) pid))), locked_state fs path pid) else Inl Overflow)"
  using assms by (simp add: lock_and_alloc_def locked_state_def fcb_open_def fcb_new_def fd_alloc_def add_u64_def split: prod.splits)

lemma locked_view:
  assumes "bt_ok (fcbs fs)" "bt_ok (fds fs)" "\<forall>q ft. map_of (fds fs) q = Some ft \<longrightarrow> fd_table_ok ft"
  shows "bt_ok (fds (locked_state fs path pid))"
    "map_of (fcbs (locked_state fs path pid)) path = Some ((fcb_new path)\<lparr>locked_by := Some pid, open_count := 1\<rparr>)"
    "holder (fds (locked_state fs path pid)) pid (next_fd (fst (table_for (fds fs) pid))) = Some path"
    "q \<noteq> pid \<Longrightarrow> holder (fds (locked_state fs path pid)) q fd = holder (fds fs) q fd"
    "perms (locked_state fs path pid) = perms fs" "disk (locked_state fs path pid) = disk fs"
proof -
  obtain ft r' where tf: "table_for (fds fs) pid = (ft, r')" by (cases "table_for (fds fs) pid")
  note v = table_for_view [OF assms(2) tf]
  have "fd_table_ok ft" using v(5) assms(3) proc_fd_new_ok by blast
  then show "bt_ok (fds (locked_state fs path pid))"
    "map_of (fcbs (locked_state fs path pid)) path = Some ((fcb_new path)\<lparr>locked_by := Some pid, open_count := 1\<rparr>)"
    "holder (fds (locked_state fs path pid)) pid (next_fd (fst (table_for (fds fs) pid))) = Some path"
    "q \<noteq> pid \<Longrightarrow> holder (fds (locked_state fs path pid)) q fd = holder (fds fs) q fd"
    "perms (locked_state fs path pid) = perms fs" "disk (locked_state fs path pid) = disk fs"
    using assms(1,2) v by (simp_all add: locked_state_def tf holder_insert map_of_bt_insert bt_insert_ok fd_table_ok_def)
qed

text \<open>
  C37. An extra slash evades the permission entry. Permission entries are looked up under the path as given, the
  file under the path without its leading slashes; so a user whom the entry of a path denies reading opens and
  reads the file by putting one more slash in front.
\<close>

theorem permission_alias:
  assumes laws: "fat_laws F canon files" and reach: "fs_reachable F lower d0 fs"
    and vol: "disk fs = Some d" "to_fat_path path = Inr p" "files d (canon p) = Some c" "length c < U64_LIMIT"
    and denied: "check_perm fs path uid gid False = Inl PermissionDenied" "\<not> case_conflict lower fs path"
    and al: "perms_get (perms fs) (0x2F # path) = None" "map_of (fcbs fs) (0x2F # path) = None" "\<not> case_conflict lower fs (0x2F # path)"
    and room: "Suc (next_fd (fst (table_for (fds fs) pid))) < U64_LIMIT"
  shows "fs_open F lower fs path pid uid gid = Inr (Inl PermissionDenied, fs) \<and>
    (\<exists>fd fs1 bs fs2. fs_open F lower fs (0x2F # path) pid uid gid = Inr (Inr fd, fs1) \<and>
       fs_read F fs1 fd pid uid gid (length c) = Inr (Inr bs, fs2) \<and> bs = take (length bs) c \<and> (c \<noteq> [] \<longrightarrow> bs \<noteq> []))"
proof (intro conjI)
  let ?q = "0x2F # path" and ?fd = "next_fd (fst (table_for (fds fs) pid))"
  note ok = opens_ok_reachable [OF reach]
  show "fs_open F lower fs path pid uid gid = Inr (Inl PermissionDenied, fs)" using denied by (simp add: fs_open_def)
  have q: "to_fat_path ?q = Inr p" using vol(2) by (simp add: to_fat_path_def split: if_splits)
  define fs1 where "fs1 = locked_state fs ?q pid"
  note l = locked_view [OF opens_okD(1,2) [OF ok] opens_ok_tables [OF ok], where path = ?q and pid = pid, folded fs1_def]
  have o: "fs_open F lower fs ?q pid uid gid = Inr (Inr ?fd, fs1)"
    using al q room vol fat_laws_open [OF laws, of d p] by (simp add: fs_open_def check_perm_def disk_mut_def lock_fresh fs1_def)
  have d1: "disk fs1 = Some d" "check_perm fs1 ?q uid gid False = Inr ()" using l(5,6) vol(1) al(1) by (simp_all add: check_perm_def)
  let ?b = "(fcb_new ?q)\<lparr>locked_by := Some pid, open_count := 1\<rparr>"
  have b: "cursor ?b \<le> length c" "cursor ?b + length c < U64_LIMIT" using vol(4) by (simp_all add: fcb_new_def)
  obtain bs fs2 where "fs_read F fs1 ?fd pid uid gid (length c) = Inr (Inr bs, fs2)" "bs = take (length bs) (drop (cursor ?b) c)"
    "0 < length c \<Longrightarrow> cursor ?b < length c \<Longrightarrow> bs \<noteq> []"
    by (rule read_runs [OF laws opens_ok_open [OF ok o] l(3,2) q d1(1) vol(3) b d1(2)]) (rule that)
  then have "fs_read F fs1 ?fd pid uid gid (length c) = Inr (Inr bs, fs2)" "bs = take (length bs) c" "c \<noteq> [] \<longrightarrow> bs \<noteq> []"
    by (simp_all add: fcb_new_def)
  with o show "\<exists>fd fs1 bs fs2. fs_open F lower fs ?q pid uid gid = Inr (Inr fd, fs1) \<and>
       fs_read F fs1 fd pid uid gid (length c) = Inr (Inr bs, fs2) \<and> bs = take (length bs) c \<and> (c \<noteq> [] \<longrightarrow> bs \<noteq> [])" by blast
qed

theorem permission_alias_witness:
  "\<exists>fs :: (path \<rightharpoonup> u8 list) logical_fs. fs_open simple_fat (\<lambda>p. p) fs [0x2F, 0x61] 2 5 5 = Inr (Inl PermissionDenied, fs) \<and>
     (\<exists>fd fs1 bs fs2. fs_open simple_fat (\<lambda>p. p) fs [0x2F, 0x2F, 0x61] 2 5 5 = Inr (Inr fd, fs1) \<and>
        fs_read simple_fat fs1 fd 2 5 5 1 = Inr (Inr bs, fs2) \<and> bs \<noteq> [])"
proof -
  define fs :: "(path \<rightharpoonup> u8 list) logical_fs" where "fs = (mount_disk logical_fs_new [[0x61] \<mapsto> [9 :: u8]])
    \<lparr>perms := [([0x2F, 0x61], \<lparr>pe_uid = 1, pe_gid = 1, pe_owner_rwx = 7, pe_group_rwx = 0, pe_world_rwx = 0\<rparr>)], auth := []\<rparr>"
  have reach: "fs_reachable simple_fat (\<lambda>p. p) [[0x61] \<mapsto> [9]] fs" unfolding fs_def by (rule mounted)
  have fs: "disk fs = Some [[0x61] \<mapsto> [9]]" "to_fat_path [0x2F, 0x61] = Inr [0x61]" "length [9 :: u8] < U64_LIMIT"
    "check_perm fs [0x2F, 0x61] 5 5 False = Inl PermissionDenied" "\<not> case_conflict (\<lambda>p. p) fs [0x2F, 0x61]"
    "perms_get (perms fs) (0x2F # [0x2F, 0x61]) = None" "map_of (fcbs fs) (0x2F # [0x2F, 0x61]) = None" "\<not> case_conflict (\<lambda>p. p) fs (0x2F # [0x2F, 0x61])"
    "Suc (next_fd (fst (table_for (fds fs) 2))) < U64_LIMIT"
    by (simp_all add: fs_def mount_disk_def logical_fs_new_def fcb_table_new_def fd_registry_new_def to_fat_path_def check_perm_def perms_get_def
        can_read_def case_conflict_def fcb_paths_def table_for_def proc_fd_new_def U64_LIMIT_def)
  from permission_alias [OF simple_fat_laws reach fs(1,2) _ fs(3-9)] show ?thesis by (intro exI [of _ fs]) auto
qed

text \<open>
  A descriptor of a deleted file closes the file of another process. When an open file is deleted and created
  again by another process, closing the old descriptor drops the control block and with it the lock of the new
  owner, whose reads then fail as not open.
\<close>

theorem stale_descriptor:
  assumes reach: "fs_reachable F lower d0 fs" and h: "holder (fds fs) pid fd = Some path" and other: "pid' \<noteq> pid"
    and del: "fs_delete F fs path = Inr (Inr (), fs1)" and cre: "fs_create F lower fs1 path pid' = Inr (Inr fd', fs2)"
  shows "\<exists>fs3. fs_close fs2 fd pid = Inr (Inr (), fs3) \<and> holder (fds fs3) pid' fd' = Some path \<and> fcb_get (fcbs fs3) path = None \<and>
    (\<forall>n. \<exists>fs4. fs_read F fs3 fd' pid' 0 0 n = Inr (Inl NotOpen, fs4))"
proof -
  note ok = opens_ok_reachable [OF reach]
  have d: "fcbs fs1 = bt_remove path (fcbs fs)" "fds fs1 = fds fs" using del by (auto simp: fs_delete_def ftry_eq fcb_remove_def split: if_splits)
  obtain d' where "lock_and_alloc (fs1\<lparr>disk := d'\<rparr>) path pid' = Inr (Inr fd', fs2)"
    using cre by (auto simp: fs_create_def ftry_eq split: if_splits)
  then have fs2: "fs2 = locked_state (fs1\<lparr>disk := d'\<rparr>) path pid'" "fd' = next_fd (fst (table_for (fds fs) pid'))"
    using d by (auto simp: lock_fresh map_of_bt_remove split: if_splits)
  have tabs: "bt_ok (fcbs (fs1\<lparr>disk := d'\<rparr>))" "bt_ok (fds (fs1\<lparr>disk := d'\<rparr>))" "\<forall>q ft. map_of (fds (fs1\<lparr>disk := d'\<rparr>)) q = Some ft \<longrightarrow> fd_table_ok ft"
    using opens_okD(1,2) [OF ok] opens_ok_tables [OF ok] d by (simp_all add: bt_remove_ok)
  note l = locked_view [OF tabs, where path = path and pid = pid', folded fs2(1)]
  have old: "holder (fds fs2) pid fd = Some path" and new: "holder (fds fs2) pid' fd' = Some path" using l(3,4) other h d(2) fs2(2) by simp_all
  obtain ft where ft: "map_of (fds fs2) pid = Some ft" "map_of (fd_map ft) fd = Some path" using old by (auto simp: holder_def split: option.splits)
  define ft' where "ft' = ft\<lparr>fd_map := bt_remove fd (fd_map ft)\<rparr>"
  define fs3 where "fs3 = fs2\<lparr>fds := bt_insert pid ft' (fds fs2), fcbs := bt_remove path (fcbs fs2)\<rparr>"
  have c: "fs_close fs2 fd pid = Inr (Inr (), fs3)"
    using ft l(2) other by (simp add: fs_close_def table_for_def fd_remove_def fcb_get_def fcb_remove_def fs3_def ft'_def)
  have h3: "holder (fds fs3) pid' fd' = Some path" "bt_ok (fds fs3)" "fcb_get (fcbs fs3) path = None"
    using new other l(1) by (simp_all add: fs3_def holder_insert bt_insert_ok fcb_get_def map_of_bt_remove)
  have "\<exists>fs4. fs_read F fs3 fd' pid' 0 0 n = Inr (Inl NotOpen, fs4)" for n
  proof -
    obtain ft3 r3 where tf: "table_for (fds fs3) pid' = (ft3, r3)" by (cases "table_for (fds fs3) pid'")
    then have "map_of (fd_map ft3) fd' = Some path" using table_for_view(3) [OF h3(2) tf] h3(1) by simp
    then show ?thesis using h3(3) by (simp add: fs_read_def fd_lookup_def tf fd_get_def check_perm_def)
  qed
  with c h3(1,3) show ?thesis by blast
qed

theorem stale_descriptor_witness:
  "\<exists>fs1 fd' fs2 fs3. fs_delete simple_fat example_fs [0x2F, 0x61] = Inr (Inr (), fs1) \<and>
     fs_create simple_fat (\<lambda>p. p) fs1 [0x2F, 0x61] 7 = Inr (Inr fd', fs2) \<and> fs_close fs2 3 2 = Inr (Inr (), fs3) \<and>
     (\<forall>n. \<exists>fs4. fs_read simple_fat fs3 fd' 7 0 0 n = Inr (Inl NotOpen, fs4))"
proof -
  have "\<exists>fs1 fd' fs2. fs_delete simple_fat example_fs [0x2F, 0x61] = Inr (Inr (), fs1) \<and>
     fs_create simple_fat (\<lambda>p. p) fs1 [0x2F, 0x61] 7 = Inr (Inr fd', fs2)"
    by (simp add: example_fs_def fs_delete_def shared_open_def fcb_get_def to_fat_path_def disk_mut_def simple_fat_def fs_create_def case_conflict_def
        fcb_paths_def fcb_remove_def bt_remove_def lock_and_alloc_def fcb_open_def fcb_new_def table_for_def proc_fd_new_def fd_alloc_def
        add_u64_def U64_LIMIT_def perms_remove_def)
  then obtain fs1 fd' fs2 where s: "fs_delete simple_fat example_fs [0x2F, 0x61] = Inr (Inr (), fs1)"
    "fs_create simple_fat (\<lambda>p. p) fs1 [0x2F, 0x61] 7 = Inr (Inr fd', fs2)" by blast
  have "(7 :: nat) \<noteq> 2" by simp
  from stale_descriptor [OF example_fs_reachable example_fs_holder this s] s show ?thesis by blast
qed

end
