(* ===== verification/Sched.thy ===== *)
theory Sched
  imports Task
begin

text \<open>
  The multi-level feedback scheduler (\<^verbatim>\<open>scheduler/mlfq.rs\<close>, \<^verbatim>\<open>scheduler/mod.rs\<close>) and the task
  lifecycle (\<^verbatim>\<open>process/lifecycle.rs\<close>). Queues hold thread ids, the shared task objects are the
  store \<open>arcs\<close>. Each operation runs under its spinlock and is one step; the timer interrupt may come
  between any two steps, so code that takes several steps is modelled as such.
\<close>

definition NUM_QUEUES :: nat where
  "NUM_QUEUES = 8"

definition BOOST_PERIOD :: nat where
  "BOOST_PERIOD = 100"

definition TIME_SLICES :: "nat list" where
  "TIME_SLICES = map (\<lambda>i. (i + 1) * (i + 1)) [0 ..< NUM_QUEUES]"

record 'v kernel =
  queues :: "nat list list"
  current :: "nat option"
  ticks_remaining :: nat
  total_ticks :: nat
  needs_reschedule :: bool
  arcs :: "'v tasks"
  task_table :: "nat set"
  preempt_count :: nat

definition upd_task :: "'v kernel \<Rightarrow> nat \<Rightarrow> ('v task \<Rightarrow> 'v task) \<Rightarrow> 'v kernel" where
  "upd_task k t f = k\<lparr>arcs := (arcs k)(t := f (arcs k t))\<rparr>"

definition sched_new :: "'v tasks \<Rightarrow> 'v kernel" where
  "sched_new store = \<lparr>queues = replicate NUM_QUEUES [], current = None, ticks_remaining = TIME_SLICES ! 0,
     total_ticks = 0, needs_reschedule = False, arcs = store, task_table = {}, preempt_count = 0\<rparr>"

definition current_tid :: "'v kernel \<Rightarrow> nat res" where
  "current_tid k = (case current k of None \<Rightarrow> Inl ExpectFailed | Some t \<Rightarrow> Inr (t_tid (arcs k t)))"

definition current_pid :: "'v kernel \<Rightarrow> nat res" where
  "current_pid k = (case current k of None \<Rightarrow> Inl ExpectFailed | Some t \<Rightarrow> Inr (t_pid (arcs k t)))"

definition current_ppid :: "'v kernel \<Rightarrow> nat option" where
  "current_ppid k = (case current k of None \<Rightarrow> None | Some t \<Rightarrow> t_parent (arcs k t))"

definition slice :: "nat \<Rightarrow> nat res" where
  "slice priority = (if priority < length TIME_SLICES then Inr (TIME_SLICES ! priority) else Inl IndexOutOfBounds)"

definition set_current :: "'v kernel \<Rightarrow> nat \<Rightarrow> 'v kernel res" where
  "set_current k t =
     (let k1 = upd_task k t (\<lambda>x. x\<lparr>t_state := Running\<rparr>)
      in rbind (slice (t_priority (arcs k t))) (\<lambda>n.
         Inr (k1\<lparr>current := Some t, ticks_remaining := n\<rparr>)))"

definition remove_current :: "'v kernel \<Rightarrow> 'v kernel" where
  "remove_current k =
     (if current k \<noteq> None then k\<lparr>ticks_remaining := 0, needs_reschedule := True, current := None\<rparr> else k)"

definition push_back :: "'v kernel \<Rightarrow> nat \<Rightarrow> nat \<Rightarrow> 'v kernel" where
  "push_back k i t = k\<lparr>queues := (queues k)[i := queues k ! i @ [t]]\<rparr>"

definition sched_push :: "'v kernel \<Rightarrow> nat \<Rightarrow> 'v kernel" where
  "sched_push k t =
     (let priority = t_priority (arcs k t)
      in if priority < NUM_QUEUES then push_back k priority t else push_back k (NUM_QUEUES - 1) t)"

text \<open>
  Promotion: the queues from 1 upward are taken, their tasks get the priority of the queue
  below, and each is appended to the queue below it.
\<close>

definition boost_priorities :: "'v kernel \<Rightarrow> 'v kernel" where
  "boost_priorities k =
     (let promoted = map (\<lambda>i. queues k ! (i + 1)) [0 ..< NUM_QUEUES - 1];
          store = fold (\<lambda>i st. fold (\<lambda>t st'. st'(t := (st' t)\<lparr>t_priority := i - 1\<rparr>)) (queues k ! i) st)
                    [1 ..< NUM_QUEUES] (arcs k);
          emptied = map (\<lambda>i. if i = 0 then queues k ! 0 else []) [0 ..< NUM_QUEUES]
      in k\<lparr>arcs := store,
           queues := map (\<lambda>i. emptied ! i @ (if i < NUM_QUEUES - 1 then promoted ! i else [])) [0 ..< NUM_QUEUES]\<rparr>)"

definition sched_tick :: "'v kernel \<Rightarrow> 'v kernel res" where
  "sched_tick k =
     (if total_ticks k + 1 \<ge> 2 ^ 32 then Inl Overflow
      else let k1 = k\<lparr>total_ticks := total_ticks k + 1\<rparr>;
               k2 = (if total_ticks k1 mod BOOST_PERIOD = 0 then boost_priorities k1 else k1)
           in Inr (if current k2 \<noteq> None then
                     let k3 = (if ticks_remaining k2 > 0 then k2\<lparr>ticks_remaining := ticks_remaining k2 - 1\<rparr> else k2)
                     in if ticks_remaining k3 = 0 then k3\<lparr>needs_reschedule := True\<rparr> else k3
                   else k2))"

definition should_reschedule :: "'v kernel \<Rightarrow> 'v kernel" where
  "should_reschedule k =
     (case current k of
        None \<Rightarrow> k
      | Some t \<Rightarrow>
          (case t_state (arcs k t) of
             Blocked \<Rightarrow> k\<lparr>needs_reschedule := True\<rparr>
           | Zombie \<Rightarrow> k\<lparr>needs_reschedule := True\<rparr>
           | _ \<Rightarrow> k))"

fun first_nonempty :: "nat list list \<Rightarrow> (nat \<times> nat list list) option" where
  "first_nonempty [] = None"
| "first_nonempty (q # qs) =
     (case q of
        t # ts \<Rightarrow> Some (t, ts # qs)
      | [] \<Rightarrow> map_option (\<lambda>(t, qs'). (t, [] # qs')) (first_nonempty qs))"

definition pick_next :: "'v kernel \<Rightarrow> (nat \<times> 'v kernel) option" where
  "pick_next k = map_option (\<lambda>(t, qs). (t, k\<lparr>queues := qs\<rparr>)) (first_nonempty (queues k))"

definition requeue_current :: "'v kernel \<Rightarrow> 'v kernel res" where
  "requeue_current k =
     (case current k of
        None \<Rightarrow> Inr k
      | Some t \<Rightarrow>
          if t_priority (arcs k t) + 1 \<ge> 2 ^ 8 then Inl Overflow
          else let p = min (t_priority (arcs k t) + 1) (NUM_QUEUES - 1);
                   k1 = upd_task (k\<lparr>current := None\<rparr>) t (\<lambda>x. x\<lparr>t_priority := p, t_state := Ready\<rparr>)
               in Inr (push_back k1 p t))"

text \<open>The result names the outgoing task, if there is one, and the incoming task.\<close>

definition prepare_switch :: "'v kernel \<Rightarrow> ((nat option \<times> nat) option \<times> 'v kernel) res" where
  "prepare_switch k =
     (if \<not> needs_reschedule k then Inr (None, k)
      else case pick_next k of
             None \<Rightarrow> Inr (None, k\<lparr>needs_reschedule := False\<rparr>)
           | Some (t_in, k1) \<Rightarrow>
               rbind (requeue_current k1) (\<lambda>k2.
               let k3 = upd_task k2 t_in (\<lambda>x. x\<lparr>t_state := Running\<rparr>)
               in rbind (slice (t_priority (arcs k3 t_in))) (\<lambda>n.
                  Inr (Some (current k, t_in),
                       k3\<lparr>current := Some t_in, ticks_remaining := n, needs_reschedule := False\<rparr>))))"

definition schedule :: "'v kernel \<Rightarrow> 'v kernel res" where
  "schedule k =
     (if preempt_count k > 0 then Inr k
      else rbind (prepare_switch (should_reschedule k)) (\<lambda>(_, k'). Inr k'))"

definition timer_handler :: "'v kernel \<Rightarrow> 'v kernel res" where
  "timer_handler k = rbind (sched_tick k) schedule"

definition spawn :: "'v kernel \<Rightarrow> 'v task \<Rightarrow> 'v kernel" where
  "spawn k x =
     (let t = t_tid x;
          k1 = k\<lparr>arcs := (arcs k)(t := x), task_table := table_insert (task_table k) t\<rparr>
      in sched_push k1 t)"

text \<open>
  Start-up: the boot task becomes current and an idle task is queued at the lowest level. The two
  addresses are those of their kernel stacks. Task objects are entered in the store when they are
  created; the entries of other ids are not accessed and repeat the boot task.
\<close>

definition sched_init :: "id_counters \<Rightarrow> memory \<Rightarrow> nat \<Rightarrow> nat \<Rightarrow> 'v \<Rightarrow> nat \<Rightarrow> nat \<Rightarrow> nat \<Rightarrow>
    ('v kernel \<times> id_counters \<times> memory) res" where
  "sched_init ids m base0 base1 empty_vmm cr3 trampoline idle_task =
     (let (boot, ids1, m1) = task_new ids m base0 empty_vmm cr3 trampoline idle_task 0 None;
          k0 = sched_new (\<lambda>_. boot);
          k1 = k0\<lparr>task_table := table_insert (task_table k0) (t_tid boot)\<rparr>
      in rbind (set_current k1 (t_tid boot)) (\<lambda>k2.
         let (idle, ids2, m2) = task_new ids1 m1 base1 empty_vmm cr3 trampoline idle_task (NUM_QUEUES - 1) None
         in Inr (spawn k2 idle, ids2, m2)))"

definition unblock_tid :: "'v kernel \<Rightarrow> nat \<Rightarrow> 'v kernel" where
  "unblock_tid k tid =
     (case table_get (task_table k) tid of
        None \<Rightarrow> k
      | Some t \<Rightarrow>
          if t_state (arcs k t) = Blocked
          then sched_push (upd_task k t (\<lambda>x. x\<lparr>t_state := Ready\<rparr>)) t
          else k)"

definition find_pid :: "'v kernel \<Rightarrow> nat \<Rightarrow> nat option" where
  "find_pid k pid = find (\<lambda>t. t_pid (arcs k t) = pid) (all_tids (task_table k))"

definition unblock_pid :: "'v kernel \<Rightarrow> nat \<Rightarrow> 'v kernel" where
  "unblock_pid k pid = (case find_pid k pid of None \<Rightarrow> k | Some t \<Rightarrow> unblock_tid k t)"

subsection \<open>Lifecycle\<close>

definition mark_blocked :: "'v kernel \<Rightarrow> nat \<Rightarrow> 'v kernel" where
  "mark_blocked k tid =
     (case table_get (task_table k) tid of
        None \<Rightarrow> k | Some t \<Rightarrow> upd_task k t (\<lambda>x. x\<lparr>t_state := Blocked\<rparr>))"

definition exit_mark :: "'v kernel \<Rightarrow> nat \<Rightarrow> int \<Rightarrow> nat option \<times> 'v kernel" where
  "exit_mark k tid code =
     (case table_get (task_table k) tid of
        None \<Rightarrow> (None, k)
      | Some t \<Rightarrow> (t_parent (arcs k t),
                   upd_task k t (\<lambda>x. x\<lparr>t_state := Zombie, t_exit_code := Some code\<rparr>)))"

definition lifecycle_exit :: "'v kernel \<Rightarrow> int \<Rightarrow> 'v kernel res" where
  "lifecycle_exit k code =
     rbind (current_tid k) (\<lambda>tid.
     let (parent, k1) = exit_mark k tid code;
         k2 = (case parent of None \<Rightarrow> k1 | Some pid \<Rightarrow> unblock_pid k1 pid)
     in schedule (remove_current k2))"

definition reap :: "'v kernel \<Rightarrow> nat \<Rightarrow> int option \<times> 'v kernel" where
  "reap k t =
     (if t_state (arcs k t) = Zombie
      then (Some (case t_exit_code (arcs k t) of None \<Rightarrow> -1 | Some c \<Rightarrow> c),
            k\<lparr>task_table := table_remove (task_table k) t\<rparr>)
      else (None, k))"

text \<open>One round of the loops in \<^verbatim>\<open>wait\<close> and \<^verbatim>\<open>wait_tid\<close>: the exit code, or the caller blocks.\<close>

definition wait_round :: "'v kernel \<Rightarrow> nat \<Rightarrow> (int option \<times> 'v kernel) res" where
  "wait_round k child_pid =
     rbind (current_tid k) (\<lambda>tid.
     let (r, k1) = (case find_pid k child_pid of None \<Rightarrow> (Some (-1), k) | Some t \<Rightarrow> reap k t)
     in case r of
          Some c \<Rightarrow> Inr (Some c, k1)
        | None \<Rightarrow> rbind (schedule (mark_blocked k1 tid)) (\<lambda>k2. Inr (None, k2)))"

definition wait_tid_round :: "'v kernel \<Rightarrow> nat \<Rightarrow> (int option \<times> 'v kernel) res" where
  "wait_tid_round k target =
     rbind (current_tid k) (\<lambda>tid.
     let (r, k1) = (case table_get (task_table k) target of None \<Rightarrow> (Some (-1), k) | Some t \<Rightarrow> reap k t)
     in case r of
          Some c \<Rightarrow> Inr (Some c, k1)
        | None \<Rightarrow> rbind (schedule (mark_blocked k1 tid)) (\<lambda>k2. Inr (None, k2)))"

end
