(* ===== verification/Exec.thy ===== *)
theory Exec
  imports LoaderProps VfsSafety Sched
begin

text \<open>
  Starting a program from a file (\<^verbatim>\<open>load_path\<close> of \<^verbatim>\<open>process/loader.rs\<close>) and the page-fault handler (\<^verbatim>\<open>arch/idt.rs\<close>): the two
  places where the file system, the loader, the scheduler and the address spaces meet outside system calls.
\<close>

text \<open>\<^verbatim>\<open>expect\<close> on the result of a file-system operation.\<close>

definition fs_expect :: "('d, 'a) fs_result \<Rightarrow> ('a \<times> 'd logical_fs) res" where
  "fs_expect r = rbind r (\<lambda>(y, fs). case y of Inl _ \<Rightarrow> Inl ExpectFailed | Inr a \<Rightarrow> Inr (a, fs))"

definition load_path :: "'d fat_ops \<Rightarrow> (path \<Rightarrow> path) \<Rightarrow> phys_ops \<Rightarrow> ('pt, free_list \<times> memory) pt_ops \<Rightarrow> (memory \<Rightarrow> nat \<Rightarrow> 'pt) \<Rightarrow>
    bool list option \<Rightarrow> nat \<Rightarrow> 'v kernel \<Rightarrow> 'd logical_fs \<Rightarrow> 'pt space \<Rightarrow> id_counters \<Rightarrow> memory \<Rightarrow> nat \<Rightarrow> nat \<Rightarrow> nat \<Rightarrow> path \<Rightarrow> nat \<Rightarrow>
    ((vmm task \<times> 'pt \<times> 'pt space \<times> id_counters \<times> memory) \<times> 'd logical_fs) res" where
  "load_path F lower x P table_at kernel_l4 cr3 k fs sp ids m base trampoline user_trampoline path priority =
     rbind (current_pid k) (\<lambda>pid.
     rbind (fs_expect (fs_stat F fs path)) (\<lambda>(st, fs1).
     if st_size st = 0 then Inl ExpectFailed
     else rbind (fs_expect (fs_open F lower fs1 path pid 0 0)) (\<lambda>(fd, fs2).
          rbind (fs_expect (fs_read F fs2 fd pid 0 0 (st_size st))) (\<lambda>(buf, fs3).
          rbind (fs_expect (fs_close fs3 fd pid)) (\<lambda>(_, fs4).
          if length buf \<noteq> st_size st then Inl ExpectFailed
          else rbind (load_flat x P table_at kernel_l4 cr3 sp ids m base trampoline user_trampoline buf priority) (\<lambda>r. Inr (r, fs4)))))))"

text \<open>
  The handler: \<open>cr2\<close> is the faulting address if it could be read. A fault that the address space does not resolve ends in a
  panic; whether the address lies in the guard page below the user stack only changes the message.
\<close>

definition page_fault_handler :: "phys_ops \<Rightarrow> ('pt, free_list \<times> memory) pt_ops \<Rightarrow> nat option \<Rightarrow> bool \<Rightarrow> vmm kernel \<Rightarrow> 'pt space \<Rightarrow>
    (vmm kernel \<times> 'pt space) res" where
  "page_fault_handler x P cr2 is_write k sp =
     (case cr2 of
        None \<Rightarrow> Inl ExpectFailed
      | Some fault_addr \<Rightarrow>
          rbind (current_tid k) (\<lambda>tid.
          case table_get (task_table k) tid of
            None \<Rightarrow> Inl ExpectFailed
          | Some t \<Rightarrow>
              rbind (handle_fault x P (t_vmm (arcs k t)) sp fault_addr is_write) (\<lambda>(r, v, sp1).
              case r of
                Some _ \<Rightarrow> Inr (upd_task k t (\<lambda>y. y\<lparr>t_vmm := v\<rparr>), sp1)
              | None \<Rightarrow> Inl ExpectFailed)))"

subsection \<open>Reading the program\<close>

text \<open>
  Opening a closed file as the superuser, reading it once and closing it again: the bytes are those of the one read, and
  the tables are as before.
\<close>

lemma fs_expect_simps [simp]: "fs_expect (Inr (Inr a, fs)) = Inr (a, fs)" "fs_expect (Inr (Inl e, fs)) = Inl ExpectFailed"
  by (simp_all add: fs_expect_def)

lemma locked_tables:
  assumes "opens_ok (fcbs fs) (fds fs)"
  shows "holder (fds (locked_state fs path pid)) q n =
      (if q = pid \<and> n = next_fd (fst (table_for (fds fs) pid)) then Some path else holder (fds fs) q n)"
    "holder (fds fs) pid (next_fd (fst (table_for (fds fs) pid))) = None"
    "map_of (fcbs (locked_state fs path pid)) = (map_of (fcbs fs))(path \<mapsto> (fcb_new path)\<lparr>locked_by := Some pid, open_count := 1\<rparr>)"
proof -
  obtain ft r' where tf: "table_for (fds fs) pid = (ft, r')" by (cases "table_for (fds fs) pid")
  note v = table_for_view [OF opens_okD(2) [OF assms] tf] and ft = opens_ok_table_for(2) [OF assms tf]
  show "holder (fds fs) pid (next_fd (fst (table_for (fds fs) pid))) = None"
    using ft unfolding v(3) [symmetric] fd_table_ok_def tf by (auto simp: map_of_eq_None_iff)
  show "holder (fds (locked_state fs path pid)) q n =
      (if q = pid \<and> n = next_fd (fst (table_for (fds fs) pid)) then Some path else holder (fds fs) q n)"
    using v ft by (simp add: locked_state_def tf holder_insert map_of_bt_insert fd_table_ok_def)
  show "map_of (fcbs (locked_state fs path pid)) = (map_of (fcbs fs))(path \<mapsto> (fcb_new path)\<lparr>locked_by := Some pid, open_count := 1\<rparr>)"
    using opens_okD(1) [OF assms] by (simp add: locked_state_def tf bt_insert_ok map_of_bt_insert)
qed

lemma read_file_once:
  assumes laws: "fat_laws F canon files" and ok: "opens_ok (fcbs fs) (fds fs)"
    and vol: "disk fs = Some d" "to_fat_path path = Inr p" "files d (canon p) = Some c" "length c < U64_LIMIT"
    and closed: "map_of (fcbs fs) path = None" "\<not> case_conflict lower fs path" "Suc (next_fd (fst (table_for (fds fs) pid))) < U64_LIMIT"
    and read: "fat_read F d p 0 (length c) = Some (bs, d')" "length bs \<le> length c"
  obtains fd fs2 fs3 fs4 where "fs_open F lower fs path pid 0 0 = Inr (Inr fd, fs2)" "fs_read F fs2 fd pid 0 0 (length c) = Inr (Inr bs, fs3)"
    "fs_close fs3 fd pid = Inr (Inr (), fs4)" "disk fs4 = Some d'" "map_of (fcbs fs4) = map_of (fcbs fs)" "holder (fds fs4) = holder (fds fs)"
proof -
  let ?fd = "next_fd (fst (table_for (fds fs) pid))"
  define fs2 where "fs2 = locked_state fs path pid"
  note l = locked_view [OF opens_okD(1,2) [OF ok] opens_ok_tables [OF ok], where path = path and pid = pid, folded fs2_def]
  have o: "fs_open F lower fs path pid 0 0 = Inr (Inr ?fd, fs2)"
    using closed vol fat_laws_open [OF laws, of d p] by (simp add: fs_open_def check_perm_def disk_mut_def lock_fresh fs2_def)
  have ok2: "opens_ok (fcbs fs2) (fds fs2)" by (rule opens_ok_open [OF ok o])
  let ?b = "(fcb_new path)\<lparr>locked_by := Some pid, open_count := 1\<rparr>"
  have b: "cursor ?b = 0" by (simp add: fcb_new_def)
  have c2: "cursor ?b \<le> length c" "cursor ?b + length c < U64_LIMIT" "check_perm fs2 path 0 0 False = Inr ()" "disk fs2 = Some d"
    "fat_read F d p (cursor ?b) (length c) = Some (bs, d')"
    using vol l(6) read(1) b by (simp_all add: check_perm_def)
  obtain fs3 where r: "fs_read F fs2 ?fd pid 0 0 (length c) = Inr (Inr bs, fs3)" "disk fs3 = Some d'" "holder (fds fs3) = holder (fds fs2)"
    "map_of (fcbs fs3) = (map_of (fcbs fs2))(path \<mapsto> ?b\<lparr>cursor := cursor ?b + length bs\<rparr>)"
    by (rule read_result [OF laws ok2 l(3,2) vol(2) c2(4) vol(3) c2(1,2,3,5) read(2)]) (rule that)
  have ok3: "opens_ok (fcbs fs3) (fds fs3)" by (rule opens_ok_read [OF ok2 r(1)])
  have h3: "holder (fds fs3) pid ?fd = Some path" using r(3) l(3) by simp
  obtain fs4 where cl: "fs_close fs3 ?fd pid = Inr (Inr (), fs4)" "disk fs4 = disk fs3" "map_of (fcbs fs4) = (map_of (fcbs fs3))(path := None)"
    "\<And>q n. holder (fds fs4) q n = (if q = pid \<and> n = ?fd then None else holder (fds fs3) q n)"
    by (rule close_view [OF ok3 h3]) (rule that)
  note t = locked_tables(1,3) [OF ok, where path = path and pid = pid, folded fs2_def] locked_tables(2) [OF ok, of pid]
  have "holder (fds fs4) = holder (fds fs)" using t(3) by (auto simp: fun_eq_iff cl(4) r(3) t(1))
  moreover have "map_of (fcbs fs4) = map_of (fcbs fs)" using closed(1) by (auto simp: fun_eq_iff cl(3) r(4) t(2))
  ultimately show thesis using o r(1,2) cl(1,2) by (intro that [of ?fd fs2 fs3 fs4]) simp_all
qed

subsection \<open>Properties\<close>

text \<open>
  C15. A program started from a file. For a file that is not open and not empty, \<^verbatim>\<open>load_path\<close> reads once. If that
  read returned the whole file, it gives a task that starts at the load address, whose code pages hold the
  bytes of the file, padded with zeros, mapped for the user and not writable, with an empty heap behind them;
  the descriptor and control-block tables are as before. If the read was short, as the volume allows, it panics.
\<close>

theorem load_path_image:
  assumes fat: "fat_laws F canon files" "opens_ok (fcbs fs) (fds fs)" "current_pid k = Inr pid"
    and vol: "disk fs = Some d" "to_fat_path path = Inr p" "files d (canon p) = Some c" "c \<noteq> []" "length c < 2 ^ 38"
    and closed: "map_of (fcbs fs) path = None" "\<not> case_conflict lower fs path" "Suc (next_fd (fst (table_for (fds fs) pid))) < U64_LIMIT"
    and read: "fat_read F d p 0 (length c) = Some (bs, d')"
    and pt: "pt_laws P view (fl_rep_at x PHYS_MEM_OFFSET)" "pt_frame_laws x P" "table_laws table_at view"
    and sp: "space_ok x sp (f # gs)" "4 * ((length c + 4095) div 4096) \<le> length gs" "PHYS_MEM_OFFSET + cr3 < U64_LIMIT" "\<not> present ! 0"
  shows "if length bs < length c
    then load_path F lower x P table_at (Some present) cr3 k fs sp ids m base tramp utramp path prio = Inl ExpectFailed
    else \<exists>task child sp' ids' m' fs'.
      load_path F lower x P table_at (Some present) cr3 k fs sp ids m base tramp utramp path prio = Inr ((task, child, sp', ids', m'), fs') \<and>
      (\<forall>off\<in>set (code_offsets c). \<exists>g. view child (USER_CODE_BASE + off) = Some (g, {PRESENT, USER_ACCESSIBLE}) \<and>
         frame_bytes sp' g = code_page c off) \<and>
      t_user_entry task = USER_CODE_BASE \<and> t_cr3 task = f \<and> t_brk task = t_heap_start task \<and>
      t_heap_start task = USER_CODE_BASE + 4096 * ((length c + 4095) div 4096) \<and> sp_pt sp' = sp_pt sp \<and>
      disk fs' = Some d' \<and> map_of (fcbs fs') = map_of (fcbs fs) \<and> holder (fds fs') = holder (fds fs)"
proof -
  have n: "length c < U64_LIMIT" using vol(5) by (simp add: U64_LIMIT_def)
  have bs: "length bs \<le> length c" "bs = take (length bs) c"
    by (rule fat_laws_read [OF fat(1) vol(3), of 0 "length c"]; use read in simp)+
  obtain fd fs2 fs3 fs4 where r: "fs_open F lower fs path pid 0 0 = Inr (Inr fd, fs2)" "fs_read F fs2 fd pid 0 0 (length c) = Inr (Inr bs, fs3)"
    "fs_close fs3 fd pid = Inr (Inr (), fs4)" "disk fs4 = Some d'" "map_of (fcbs fs4) = map_of (fcbs fs)" "holder (fds fs4) = holder (fds fs)"
    by (rule read_file_once [OF fat(1,2) vol(1-3) n closed read bs(1)]) (rule that)
  obtain st where st: "fs_stat F fs path = Inr (Inr st, fs)" "st_size st = length c"
    using vol(1-3) fat_laws_open [OF fat(1), of d p] fat_laws_seek_end [OF fat(1) vol(3)]
    by (auto simp: fs_stat_def disk_mut_def Let_def split: option.splits)
  have l: "load_path F lower x P table_at (Some present) cr3 k fs sp ids m base tramp utramp path prio =
      (if length bs \<noteq> length c then Inl ExpectFailed
       else rbind (load_flat x P table_at (Some present) cr3 sp ids m base tramp utramp bs prio) (\<lambda>y. Inr (y, fs4)))"
    using fat(3) st r(1-3) vol(4) by (simp add: load_path_def)
  show ?thesis
  proof (cases "length bs < length c")
    case False
    then have "bs = c" using bs by simp
    then show ?thesis
      using l r(4-6) load_flat_image [OF pt sp(1,2,3,4) vol(5), of ids m base tramp utramp prio] by (auto 4 4)
  qed (simp add: l)
qed


text \<open>A one-byte program on the volume, started by process 2.\<close>

definition example_kernel :: "vmm kernel" where
  "example_kernel = (sched_new (\<lambda>t. fst (new_user \<lparr>next_pid = t, next_tid = t\<rparr> (\<lambda>_. 0) 0x100000 0 0 0 0 0 vmm_new 7)))
     \<lparr>current := Some 2, task_table := {2}\<rparr>"

lemma example_kernel_current: "current_pid example_kernel = Inr 2" "current_tid example_kernel = Inr 2" "task_table example_kernel = {2}"
  "t_vmm (arcs example_kernel t) = vmm_new"
  by (simp_all add: example_kernel_def sched_new_def current_pid_def current_tid_def new_user_def pid_next_def tid_next_def case_prod_beta Let_def)

theorem load_path_image_witness:
  "\<exists>(sp :: pt_view space) task child sp' ids' m' fs' g.
     load_path simple_fat (\<lambda>p. p) example_phys simple_pt_ops (\<lambda>m f. Map.empty) (Some (replicate 512 False)) 0 example_kernel
       (mount_disk logical_fs_new [[0x61] \<mapsto> [0x90]]) sp initial_ids (\<lambda>_. 0) 0 0 0 [0x2F, 0x61] 0 = Inr ((task, child, sp', ids', m'), fs') \<and>
     child USER_CODE_BASE = Some (g, {PRESENT, USER_ACCESSIBLE}) \<and> frame_bytes sp' g = 0x90 # replicate 4095 0"
proof -
  obtain sp :: "pt_view space" where sp: "space_ok example_phys sp (0x6000 # example_pool_frames)" by (rule example_load_space)
  let ?fs = "mount_disk logical_fs_new [[0x61] \<mapsto> [0x90 :: u8]]"
  have tl: "table_laws (\<lambda>m f. Map.empty) (\<lambda>pt. pt)" by (simp add: table_laws_def)
  have offs: "code_offsets [0x90] = [0]" "code_page [0x90] 0 = 0x90 # replicate 4095 0" by (simp_all add: code_offsets_def code_page_def)
  have fs: "opens_ok (fcbs ?fs) (fds ?fs)" "disk ?fs = Some [[0x61] \<mapsto> [0x90]]" "to_fat_path [0x2F, 0x61] = Inr [0x61]"
    "[[0x61] \<mapsto> [0x90 :: u8]] [0x61] = Some [0x90]" "[0x90 :: u8] \<noteq> []" "length [0x90 :: u8] < 2 ^ 38"
    "map_of (fcbs ?fs) [0x2F, 0x61] = None" "\<not> case_conflict (\<lambda>p. p) ?fs [0x2F, 0x61]" "Suc (next_fd (fst (table_for (fds ?fs) 2))) < U64_LIMIT"
    "fat_read simple_fat [[0x61] \<mapsto> [0x90]] [0x61] 0 (length [0x90 :: u8]) = Some ([0x90], [[0x61] \<mapsto> [0x90]])"
    using opens_ok_empty
    by (simp_all add: mount_disk_def logical_fs_new_def to_fat_path_def fcb_table_new_def case_conflict_def fcb_paths_def fd_registry_new_def
        table_for_def proc_fd_new_def U64_LIMIT_def simple_fat_def)
  have s: "4 * ((length [0x90 :: u8] + 4095) div 4096) \<le> length example_pool_frames" "PHYS_MEM_OFFSET + 0 < U64_LIMIT" "\<not> replicate 512 False ! 0"
    by (simp_all add: PHYS_MEM_OFFSET_def U64_LIMIT_def)
  from load_path_image [where view = "\<lambda>pt. pt" and ids = initial_ids and m = "\<lambda>_. 0" and base = 0 and tramp = 0 and utramp = 0 and prio = 0,
      OF simple_fat_laws fs(1) example_kernel_current(1) fs(2-10) simple_pt_laws simple_pt_frame_laws tl sp s]
  show ?thesis unfolding offs(1) by (simp only: offs(2) list.size less_irrefl if_False list.set ball_simps add_0_right simp_thms empty_iff insert_iff) blast
qed

text \<open>
  A page fault that no area covers stops the kernel: a user program that touches an unmapped address, such as the page
  below its stack, takes every other task with it.
\<close>

theorem unresolved_fault_panics:
  assumes "current_tid k = Inr t" "t \<in> task_table k" "pt_laws P view rep"
    and "\<forall>area\<in>set (vm_areas (t_vmm (arcs k t))). fault_addr < va_start area \<or> va_end area \<le> fault_addr"
    and "vm_swapped (t_vmm (arcs k t)) (page_start fault_addr) = None"
  shows "page_fault_handler x P (Some fault_addr) is_write k sp = Inl ExpectFailed"
proof -
  have "find_area (t_vmm (arcs k t)) fault_addr = None"
    using assms(4) by (auto simp: find_area_def find_None_iff)
  then show ?thesis
    using assms(1,2,5) by (simp add: page_fault_handler_def handle_fault_def pt_laws_page_of [OF assms(3)] table_get_def)
qed

theorem unresolved_fault_panics_witness:
  "page_fault_handler example_phys simple_pt_ops (Some 0x7FFFFFFEE000) True example_kernel (sp :: pt_view space) = Inl ExpectFailed"
  by (rule unresolved_fault_panics [OF example_kernel_current(2) _ simple_pt_laws])
     (simp_all add: example_kernel_current vmm_new_def)


end
