(* ===== verification/SchedInv.thy ===== *)
theory SchedInv
  imports Sched "HOL-Library.Multiset"
begin

text \<open>
  What the scheduler of \<^theory_text>\<open>Sched\<close> maintains: every task is in one place, ready tasks wait in the queue
  of their priority, and the highest non-empty queue is served first.
\<close>

subsection \<open>Queues\<close>

lemma mset_concat_update:
  "i < length qs \<Longrightarrow> mset (concat (qs[i := q])) + mset (qs ! i) = mset (concat qs) + mset q"
proof -
  assume i: "i < length qs"
  have "qs = take i qs @ qs ! i # drop (Suc i) qs" using i by (rule id_take_nth_drop)
  then have "mset (concat qs) = mset (concat (take i qs)) + mset (qs ! i) + mset (concat (drop (Suc i) qs))"
    by (metis concat.simps(2) concat_append mset_append union_assoc)
  then show ?thesis using i by (simp add: upd_conv_take_nth_drop)
qed

lemma mset_concat_push:
  "i < length qs \<Longrightarrow> mset (concat (qs[i := qs ! i @ [t]])) = add_mset t (mset (concat qs))"
  using mset_concat_update [of i qs "qs ! i @ [t]"] by simp

lemma first_nonempty_None: "first_nonempty qs = None \<longleftrightarrow> (\<forall>q\<in>set qs. q = [])"
  by (induction qs) (auto split: list.splits)

lemma first_nonempty_Some:
  "first_nonempty qs = Some (t, qs') \<Longrightarrow>
   \<exists>i ts. i < length qs \<and> (\<forall>j<i. qs ! j = []) \<and> qs ! i = t # ts \<and> qs' = qs[i := ts]"
proof (induction qs arbitrary: qs')
  case (Cons q qs)
  show ?case
  proof (cases q)
    case Nil
    then obtain r where r: "first_nonempty qs = Some (t, r)" "qs' = [] # r" using Cons.prems by auto
    then obtain i ts where "i < length qs" "\<forall>j<i. qs ! j = []" "qs ! i = t # ts" "r = qs[i := ts]"
      using Cons.IH by blast
    then show ?thesis using Nil r by (intro exI [of _ "Suc i"] exI [of _ ts]) (auto simp: less_Suc_eq_0_disj)
  next
    case (Cons u us)
    then show ?thesis using Cons.prems by (intro exI [of _ 0] exI [of _ us]) simp
  qed
qed simp

subsection \<open>The invariant\<close>

definition placed :: "'v kernel \<Rightarrow> nat list" where
  "placed k = concat (queues k) @ (case current k of None \<Rightarrow> [] | Some t \<Rightarrow> [t])"

definition queued_ok :: "'v kernel \<Rightarrow> bool" where
  "queued_ok k \<longleftrightarrow> (\<forall>i<NUM_QUEUES. \<forall>t\<in>set (queues k ! i).
     t_priority (arcs k t) = i \<and> t_state (arcs k t) = Ready)"

definition sched_inv :: "'v kernel \<Rightarrow> bool" where
  "sched_inv k \<longleftrightarrow> length (queues k) = NUM_QUEUES \<and> distinct (placed k) \<and> queued_ok k \<and>
     (\<forall>t. current k = Some t \<longrightarrow> t_priority (arcs k t) < NUM_QUEUES) \<and>
     (\<forall>t. t_state (arcs k t) = Blocked \<longrightarrow> current k = Some t) \<and>
     (\<forall>t\<in>set (placed k). t_tid (arcs k t) = t) \<and>
     (\<forall>t. current k = Some t \<longrightarrow> ticks_remaining k \<le> NUM_QUEUES * NUM_QUEUES)"

lemma placed_simps:
  "placed (k\<lparr>current := None\<rparr>) = concat (queues k)"
  "placed (k\<lparr>current := Some t\<rparr>) = concat (queues k) @ [t]"
  "placed (k\<lparr>ticks_remaining := n\<rparr>) = placed k"
  "placed (k\<lparr>total_ticks := n\<rparr>) = placed k"
  "placed (k\<lparr>needs_reschedule := b\<rparr>) = placed k"
  "placed (k\<lparr>task_table := s\<rparr>) = placed k"
  "placed (k\<lparr>preempt_count := n\<rparr>) = placed k"
  "placed (k\<lparr>arcs := st\<rparr>) = placed k"
  "placed (upd_task k t f) = placed k"
  by (simp_all add: placed_def upd_task_def)

lemma placed_current: "current k = Some t \<Longrightarrow> t \<in> set (placed k)"
  by (simp add: placed_def)

lemma current_not_queued:
  assumes "sched_inv k" "current k = Some t" "i < NUM_QUEUES"
  shows "t \<notin> set (queues k ! i)"
  using assms by (auto simp: sched_inv_def placed_def)

lemma slice_ok: "p < NUM_QUEUES \<Longrightarrow> slice p = Inr ((p + 1) * (p + 1))"
  by (simp add: slice_def TIME_SLICES_def)

lemma slice_bound: "p < NUM_QUEUES \<Longrightarrow> (p + 1) * (p + 1) \<le> NUM_QUEUES * NUM_QUEUES"
  by (rule mult_le_mono) simp_all

lemma sched_invD:
  assumes "sched_inv k"
  shows "length (queues k) = NUM_QUEUES" "distinct (placed k)" "queued_ok k"
    "current k = Some t \<Longrightarrow> t_priority (arcs k t) < NUM_QUEUES"
    "t_state (arcs k t) = Blocked \<Longrightarrow> current k = Some t"
    "t \<in> set (placed k) \<Longrightarrow> t_tid (arcs k t) = t"
    "current k = Some t \<Longrightarrow> ticks_remaining k \<le> NUM_QUEUES * NUM_QUEUES"
  using assms by (simp_all add: sched_inv_def)

lemma sched_invI:
  assumes "length (queues k) = NUM_QUEUES" "distinct (placed k)" "queued_ok k"
    "\<And>t. current k = Some t \<Longrightarrow> t_priority (arcs k t) < NUM_QUEUES"
    "\<And>t. t_state (arcs k t) = Blocked \<Longrightarrow> current k = Some t"
    "\<And>t. t \<in> set (placed k) \<Longrightarrow> t_tid (arcs k t) = t"
    "\<And>t. current k = Some t \<Longrightarrow> ticks_remaining k \<le> NUM_QUEUES * NUM_QUEUES"
  shows "sched_inv k"
  using assms by (simp add: sched_inv_def)

lemma queued_okD: "queued_ok k \<Longrightarrow> i < NUM_QUEUES \<Longrightarrow> t \<in> set (queues k ! i) \<Longrightarrow>
    t_priority (arcs k t) = i \<and> t_state (arcs k t) = Ready"
  by (simp add: queued_ok_def)

text \<open>Steps that leave queues and task objects alone.\<close>

lemma sched_inv_frame:
  assumes inv: "sched_inv k" and "queues k' = queues k" "current k' = current k" "arcs k' = arcs k"
    and "ticks_remaining k' \<le> ticks_remaining k"
  shows "sched_inv k'"
proof -
  have same: "placed k' = placed k" "queued_ok k' = queued_ok k" using assms by (simp_all add: placed_def queued_ok_def)
  show ?thesis
  proof (rule sched_invI)
    show "ticks_remaining k' \<le> NUM_QUEUES * NUM_QUEUES" if "current k' = Some t" for t
      using le_trans [OF assms(5) sched_invD(7) [OF inv]] that assms(3) by simp
  qed (use sched_invD(1-6) [OF inv] assms(2-4) same in simp_all)
qed

lemma upd_task_simps [simp]:
  "queues (upd_task k t f) = queues k" "current (upd_task k t f) = current k"
  "ticks_remaining (upd_task k t f) = ticks_remaining k" "total_ticks (upd_task k t f) = total_ticks k"
  "needs_reschedule (upd_task k t f) = needs_reschedule k" "task_table (upd_task k t f) = task_table k"
  "preempt_count (upd_task k t f) = preempt_count k" "arcs (upd_task k t f) = (arcs k)(t := f (arcs k t))"
  by (simp_all add: upd_task_def)

lemma sched_inv_upd_current:
  assumes inv: "sched_inv k" and c: "current k = Some t"
    and f: "t_priority (f (arcs k t)) = t_priority (arcs k t)" "t_tid (f (arcs k t)) = t_tid (arcs k t)"
  shows "sched_inv (upd_task k t f)"
proof (rule sched_invI)
  show "queued_ok (upd_task k t f)"
    using sched_invD(3) [OF inv] current_not_queued [OF inv c] by (auto simp: queued_ok_def)
  show "distinct (placed (upd_task k t f))" using sched_invD(2) [OF inv] by (simp add: placed_simps)
  show "t_tid (arcs (upd_task k t f) u) = u" if "u \<in> set (placed (upd_task k t f))" for u
    using that sched_invD(6) [OF inv] f(2) by (auto simp: placed_simps)
  show "current (upd_task k t f) = Some u" if "t_state (arcs (upd_task k t f) u) = Blocked" for u
    using that sched_invD(5) [OF inv, of u] c by (auto split: if_splits)
qed (use sched_invD(1,4,7) [OF inv] c f in auto)

lemma sched_inv_remove_current:
  assumes inv: "sched_inv k" and nb: "\<And>t. current k = Some t \<Longrightarrow> t_state (arcs k t) \<noteq> Blocked"
  shows "sched_inv (remove_current k)"
proof (cases "current k")
  case None
  then show ?thesis using inv by (simp add: remove_current_def)
next
  case (Some t)
  show ?thesis
  proof (rule sched_invI)
    show "distinct (placed (remove_current k))" using sched_invD(2) [OF inv] Some by (simp add: remove_current_def placed_def)
    show "queued_ok (remove_current k)" using sched_invD(3) [OF inv] by (simp add: remove_current_def queued_ok_def)
    show "t_tid (arcs (remove_current k) u) = u" if "u \<in> set (placed (remove_current k))" for u
    proof -
      have "u \<in> set (placed k)" using that by (auto simp: remove_current_def placed_def split: if_splits)
      then show ?thesis using sched_invD(6) [OF inv] by (simp add: remove_current_def)
    qed
    show "current (remove_current k) = Some u" if "t_state (arcs (remove_current k) u) = Blocked" for u
      using that sched_invD(5) [OF inv, of u] nb [of u] by (simp add: remove_current_def split: if_splits)
  qed (use sched_invD(1) [OF inv] Some in \<open>auto simp: remove_current_def\<close>)
qed

lemma push_back_simps [simp]:
  "queues (push_back k i t) = (queues k)[i := queues k ! i @ [t]]" "current (push_back k i t) = current k"
  "arcs (push_back k i t) = arcs k" "ticks_remaining (push_back k i t) = ticks_remaining k"
  by (simp_all add: push_back_def)

lemma placed_push_back:
  assumes "i < length (queues k)"
  shows "distinct (placed (push_back k i t)) \<longleftrightarrow> t \<notin> set (placed k) \<and> distinct (placed k)"
    and "set (placed (push_back k i t)) = insert t (set (placed k))"
proof -
  have "mset (placed (push_back k i t)) = mset (t # placed k)"
    using assms by (simp add: placed_def mset_concat_push)
  then show "distinct (placed (push_back k i t)) \<longleftrightarrow> t \<notin> set (placed k) \<and> distinct (placed k)"
    "set (placed (push_back k i t)) = insert t (set (placed k))"
    using mset_eq_imp_distinct_iff [of "placed (push_back k i t)" "t # placed k"]
      mset_eq_setD [of "placed (push_back k i t)" "t # placed k"] by simp_all
qed

lemma sched_inv_push_back:
  assumes inv: "sched_inv k" and t: "t \<notin> set (placed k)" "t_state (arcs k t) = Ready"
    "t_priority (arcs k t) = p" "p < NUM_QUEUES" "t_tid (arcs k t) = t"
  shows "sched_inv (push_back k p t)"
proof (rule sched_invI)
  have len: "length (queues k) = NUM_QUEUES" using inv by (rule sched_invD)
  then have p: "p < length (queues k)" using t(4) by simp
  show "length (queues (push_back k p t)) = NUM_QUEUES" using len by simp
  show "distinct (placed (push_back k p t))" using placed_push_back [OF p] t(1) sched_invD(2) [OF inv] by simp
  show "queued_ok (push_back k p t)"
    using sched_invD(3) [OF inv] t len unfolding queued_ok_def by (auto simp: nth_list_update)
  show "t_tid (arcs (push_back k p t) u) = u" if "u \<in> set (placed (push_back k p t))" for u
    using that placed_push_back(2) [OF p] sched_invD(6) [OF inv] t(5) by auto
qed (use sched_invD(4,5,7) [OF inv] in auto)

subsection \<open>Switching\<close>

lemma pick_inv:
  assumes inv: "sched_inv k" and i: "i < NUM_QUEUES" "queues k ! i = t # ts"
  defines "k1 \<equiv> k\<lparr>queues := (queues k)[i := ts]\<rparr>"
  shows "sched_inv k1" "t \<notin> set (placed k1)" "t_priority (arcs k t) = i" "t_state (arcs k t) = Ready"
    "t_tid (arcs k t) = t" "set (placed k) = insert t (set (placed k1))" "current k1 = current k" "arcs k1 = arcs k"
proof -
  have len: "length (queues k) = NUM_QUEUES" using inv by (rule sched_invD)
  have "mset (concat (queues k)) = add_mset t (mset (concat ((queues k)[i := ts])))"
    using mset_concat_update [of i "queues k" ts] i len by simp
  then have "mset (placed k) = mset (t # placed k1)" by (simp add: placed_def k1_def)
  then have m: "distinct (placed k) \<longleftrightarrow> distinct (t # placed k1)" "set (placed k) = set (t # placed k1)"
    by (rule mset_eq_imp_distinct_iff, rule mset_eq_setD)
  then show t: "t \<notin> set (placed k1)" and p: "set (placed k) = insert t (set (placed k1))"
    using sched_invD(2) [OF inv] by simp_all
  show "t_priority (arcs k t) = i" "t_state (arcs k t) = Ready"
    using queued_okD [OF sched_invD(3) [OF inv] i(1), of t] i(2) by simp_all
  show "t_tid (arcs k t) = t" using sched_invD(6) [OF inv] p by simp
  show "current k1 = current k" "arcs k1 = arcs k" by (simp_all add: k1_def)
  show "sched_inv k1"
  proof (rule sched_invI)
    show "distinct (placed k1)" using m sched_invD(2) [OF inv] by simp
    show "queued_ok k1"
      using sched_invD(3) [OF inv] i len by (auto simp: queued_ok_def k1_def nth_list_update)
    show "t_tid (arcs k1 u) = u" if "u \<in> set (placed k1)" for u
      using that sched_invD(6) [OF inv, of u] p by (simp add: k1_def)
  qed (use sched_invD(1,4,5,7) [OF inv] in \<open>auto simp: k1_def\<close>)
qed

lemma requeue_inv:
  assumes inv: "sched_inv k"
  obtains k2 where "requeue_current k = Inr k2" "sched_inv k2" "current k2 = None"
    "set (placed k2) = set (placed k)" "\<And>u. current k \<noteq> Some u \<Longrightarrow> arcs k2 u = arcs k u"
    "\<And>u. current k = Some u \<Longrightarrow> t_state (arcs k2 u) = Ready \<and>
       queues k2 = (queues k)[min (t_priority (arcs k u) + 1) (NUM_QUEUES - 1) :=
          queues k ! min (t_priority (arcs k u) + 1) (NUM_QUEUES - 1) @ [u]]"
proof (cases "current k")
  case None
  then show thesis using inv by (intro that [of k]) (simp_all add: requeue_current_def)
next
  case (Some t)
  let ?p = "min (t_priority (arcs k t) + 1) (NUM_QUEUES - 1)"
  let ?k0 = "upd_task (k\<lparr>current := None\<rparr>) t (\<lambda>x. x\<lparr>t_priority := ?p, t_state := Ready\<rparr>)"
  have len: "length (queues k) = NUM_QUEUES" using inv by (rule sched_invD)
  have p: "?p < NUM_QUEUES" by (simp add: NUM_QUEUES_def)
  have pl: "placed k = concat (queues k) @ [t]" using Some by (simp add: placed_def)
  have pl0: "placed ?k0 = concat (queues k)" by (simp add: placed_def)
  have t: "t \<notin> set (concat (queues k))" using sched_invD(2) [OF inv] pl by simp
  have inv0: "sched_inv ?k0"
  proof (rule sched_invI)
    show "distinct (placed ?k0)" using sched_invD(2) [OF inv] pl pl0 by simp
    show "queued_ok ?k0"
      using sched_invD(3) [OF inv] current_not_queued [OF inv Some] by (auto simp: queued_ok_def)
    show "t_tid (arcs ?k0 u) = u" if "u \<in> set (placed ?k0)" for u
      using that sched_invD(6) [OF inv, of u] pl pl0 by auto
    show "current ?k0 = Some u" if "t_state (arcs ?k0 u) = Blocked" for u
      using that sched_invD(5) [OF inv, of u] Some by (auto split: if_splits)
  qed (use len in auto)
  have "t_priority (arcs k t) < NUM_QUEUES" using inv Some by (rule sched_invD)
  then have r: "requeue_current k = Inr (push_back ?k0 ?p t)"
    using Some by (simp add: requeue_current_def Let_def NUM_QUEUES_def)
  have tid: "t_tid (arcs k t) = t" using sched_invD(6) [OF inv] pl by simp
  have "sched_inv (push_back ?k0 ?p t)"
    using inv0 t tid p pl0 by (intro sched_inv_push_back) simp_all
  moreover have "set (placed (push_back ?k0 ?p t)) = set (placed k)"
    using placed_push_back(2) [of ?p ?k0 t] p len pl pl0 by simp
  ultimately show thesis using r Some by (intro that [of "push_back ?k0 ?p t"]) auto
qed

lemma dispatch_inv:
  assumes inv: "sched_inv k" and "current k = None" "t \<notin> set (placed k)" "t_priority (arcs k t) = i"
    "i < NUM_QUEUES" "t_tid (arcs k t) = t"
  shows "sched_inv ((upd_task k t (\<lambda>x. x\<lparr>t_state := Running\<rparr>))\<lparr>current := Some t, ticks_remaining := (i + 1) * (i + 1),
     needs_reschedule := False\<rparr>)" (is "sched_inv ?k")
proof (rule sched_invI)
  have pl: "placed ?k = placed k @ [t]" using assms(2) by (simp add: placed_def)
  show "distinct (placed ?k)" using sched_invD(2) [OF inv] assms(3) pl by simp
  have "t \<notin> set (queues k ! j)" if "j < NUM_QUEUES" for j
    using assms(3) that sched_invD(1) [OF inv] by (auto simp: placed_def)
  then show "queued_ok ?k" using sched_invD(3) [OF inv] by (auto simp: queued_ok_def)
  show "t_tid (arcs ?k u) = u" if "u \<in> set (placed ?k)" for u
    using that sched_invD(6) [OF inv, of u] assms(6) pl by auto
  show "current ?k = Some u" if "t_state (arcs ?k u) = Blocked" for u
    using that sched_invD(5) [OF inv, of u] assms(2) by (auto split: if_splits)
  show "ticks_remaining ?k \<le> NUM_QUEUES * NUM_QUEUES" if "current ?k = Some u" for u
    using slice_bound [OF assms(5)] by simp
qed (use sched_invD(1) [OF inv] assms in auto)

lemma prepare_switch_inv:
  assumes inv: "sched_inv k" and needs: "needs_reschedule k"
    and i: "i < NUM_QUEUES" "\<forall>j<i. queues k ! j = []" "queues k ! i = t # ts"
  obtains k' where "prepare_switch k = Inr (Some (current k, t), k')" "sched_inv k'" "current k' = Some t"
    "t_state (arcs k' t) = Running" "ticks_remaining k' = (i + 1) * (i + 1)" "\<not> needs_reschedule k'"
    "set (placed k') = set (placed k)"
    "\<And>u. current k = Some u \<Longrightarrow> t_state (arcs k' u) = Ready \<and>
       u \<in> set (queues k' ! min (t_priority (arcs k u) + 1) (NUM_QUEUES - 1))"
proof -
  let ?k1 = "k\<lparr>queues := (queues k)[i := ts]\<rparr>"
  note pick = pick_inv [OF inv i(1,3)]
  have len: "length (queues k) = NUM_QUEUES" using inv by (rule sched_invD)
  obtain k2 where k2: "requeue_current ?k1 = Inr k2" "sched_inv k2" "current k2 = None"
    "set (placed k2) = set (placed ?k1)" "\<And>u. current k \<noteq> Some u \<Longrightarrow> arcs k2 u = arcs k u"
    "\<And>u. current k = Some u \<Longrightarrow> t_state (arcs k2 u) = Ready \<and>
       queues k2 = (queues ?k1)[min (t_priority (arcs k u) + 1) (NUM_QUEUES - 1) :=
          queues ?k1 ! min (t_priority (arcs k u) + 1) (NUM_QUEUES - 1) @ [u]]"
    using requeue_inv [OF pick(1)] by auto
  have tc: "current k \<noteq> Some t" using pick(2) placed_current [of ?k1 t] by auto
  then have at: "arcs k2 t = arcs k t" by (rule k2(5))
  have pn: "pick_next k = Some (t, ?k1)"
  proof -
    have "first_nonempty (queues k) \<noteq> None"
    proof
      assume "first_nonempty (queues k) = None"
      then have "queues k ! i = []" unfolding first_nonempty_None using i(1) len by simp
      then show False using i(3) by simp
    qed
    then obtain u qs where u: "first_nonempty (queues k) = Some (u, qs)" by auto
    then obtain j us where j: "j < length (queues k)" "\<forall>l<j. queues k ! l = []" "queues k ! j = u # us"
      "qs = (queues k)[j := us]" using first_nonempty_Some by blast
    then have "\<not> i < j" "\<not> j < i" using i by auto
    then have "j = i" by simp
    then show ?thesis using u j i by (simp add: pick_next_def)
  qed
  let ?k' = "(upd_task k2 t (\<lambda>x. x\<lparr>t_state := Running\<rparr>))\<lparr>current := Some t, ticks_remaining := (i + 1) * (i + 1),
     needs_reschedule := False\<rparr>"
  have nt: "t \<notin> set (placed k2)" using k2(4) pick(2) by simp
  have "prepare_switch k = Inr (Some (current k, t), ?k')"
    using needs pn k2(1) at pick(3) slice_ok [OF i(1)] by (simp add: prepare_switch_def Let_def)
  moreover have "sched_inv ?k'"
    using k2(2,3) nt at pick(3,5) i(1) by (intro dispatch_inv) simp_all
  moreover have "set (placed ?k') = set (placed k)"
    using k2(3,4) pick(6) by (auto simp: placed_def)
  moreover have "t_state (arcs ?k' u) = Ready \<and>
      u \<in> set (queues ?k' ! min (t_priority (arcs k u) + 1) (NUM_QUEUES - 1))" if "current k = Some u" for u
    using k2(6) [OF that] that tc len by (auto simp: NUM_QUEUES_def)
  ultimately show thesis by (intro that [of ?k']) simp_all
qed

lemma prepare_switch_idle:
  assumes "sched_inv k" "\<forall>i<NUM_QUEUES. queues k ! i = []"
  shows "prepare_switch k = Inr (None, k\<lparr>needs_reschedule := False\<rparr>)"
proof -
  have "first_nonempty (queues k) = None"
    unfolding first_nonempty_None using assms sched_invD(1) [OF assms(1)] by (metis in_set_conv_nth)
  then show ?thesis by (simp add: prepare_switch_def pick_next_def)
qed

lemma prepare_switch_preserves:
  assumes inv: "sched_inv k"
  shows "\<exists>sw k'. prepare_switch k = Inr (sw, k') \<and> sched_inv k'"
proof (cases "needs_reschedule k")
  case False
  then show ?thesis using inv by (simp add: prepare_switch_def)
next
  case True
  show ?thesis
  proof (cases "\<forall>i<NUM_QUEUES. queues k ! i = []")
    case e: True
    then show ?thesis
      using prepare_switch_idle [OF inv e] sched_inv_frame [OF inv, of "k\<lparr>needs_reschedule := False\<rparr>"] by simp
  next
    case False
    then obtain i where i: "i < NUM_QUEUES \<and> queues k ! i \<noteq> []"
      "\<forall>j<i. \<not> (j < NUM_QUEUES \<and> queues k ! j \<noteq> [])"
      using exists_least_iff [of "\<lambda>i. i < NUM_QUEUES \<and> queues k ! i \<noteq> []"] by auto
    then obtain t ts where t: "queues k ! i = t # ts" by (cases "queues k ! i") auto
    have "\<forall>j<i. queues k ! j = []" using i by (meson less_trans)
    then show ?thesis using prepare_switch_inv [OF inv True _ _ t] i by metis
  qed
qed

lemma schedule_preserves:
  assumes inv: "sched_inv k"
  shows "\<exists>k'. schedule k = Inr k' \<and> sched_inv k'"
proof (cases "preempt_count k > 0")
  case True
  then show ?thesis using inv by (simp add: schedule_def)
next
  case False
  have "sched_inv (should_reschedule k)"
    using inv by (rule sched_inv_frame) (auto simp: should_reschedule_def split: option.splits task_state.splits)
  then obtain sw k' where "prepare_switch (should_reschedule k) = Inr (sw, k')" "sched_inv k'"
    using prepare_switch_preserves by blast
  then show ?thesis using False by (simp add: schedule_def)
qed

subsection \<open>Ticks and promotion\<close>

lemma fold_set_priority:
  "fold (\<lambda>t st'. st'(t := (st' t)\<lparr>t_priority := p\<rparr>)) ts st u =
     (if u \<in> set ts then (st u)\<lparr>t_priority := p\<rparr> else st u)"
proof (induction ts arbitrary: st)
  case (Cons t ts)
  show ?case unfolding fold_simps(2) Cons.IH by simp
qed simp

lemma fold_queues_priority:
  fixes js :: "nat list"
  assumes "\<forall>j\<in>set js. u \<in> set (Q j) \<longrightarrow> j = i"
  shows "fold (\<lambda>i st. fold (\<lambda>t st'. st'(t := (st' t)\<lparr>t_priority := i - 1\<rparr>)) (Q i) st) js st u =
    (if i \<in> set js \<and> u \<in> set (Q i) then (st u)\<lparr>t_priority := i - 1\<rparr> else st u)"
  using assms
proof (induction js arbitrary: st)
  case (Cons j js)
  have "\<forall>j\<in>insert j (set js). u \<in> set (Q j) \<longrightarrow> j = i" using Cons.prems unfolding list.set .
  then have tail: "\<forall>j\<in>set js. u \<in> set (Q j) \<longrightarrow> j = i" and head: "u \<in> set (Q j) \<longrightarrow> j = i"
    by blast+
  show ?case
    unfolding fold_simps(2) Cons.IH [OF tail] unfolding fold_set_priority
    using head apply (cases "j = i")
    subgoal by (cases "u \<in> set (Q j)"; cases "i \<in> set js") simp_all
    subgoal by (cases "u \<in> set (Q j)") simp_all
    done
qed simp

lemma eight_queues:
  assumes "length qs = NUM_QUEUES"
  obtains a b c d e f g h where "qs = [a, b, c, d, e, f, g, h]"
proof -
  have "qs = map ((!) qs) [0 ..< NUM_QUEUES]" using map_nth [of qs] assms by simp
  also have "[0 ..< NUM_QUEUES] = [0, 1, 2, 3, 4, 5, 6, 7]" by (simp add: NUM_QUEUES_def upt_rec)
  finally show thesis unfolding list.map by (rule that)
qed

lemma boost_queues:
  assumes "queues k = [a, b, c, d, e, f, g, h]"
  shows "queues (boost_priorities k) = [a @ b, c, d, e, f, g, h, []]"
proof -
  have "queues (boost_priorities k) =
      map (\<lambda>i. map (\<lambda>i. if i = 0 then queues k ! 0 else []) [0 ..< NUM_QUEUES] ! i @
        (if i < NUM_QUEUES - 1 then map (\<lambda>i. queues k ! (i + 1)) [0 ..< NUM_QUEUES - 1] ! i else [])) [0 ..< NUM_QUEUES]"
    by (simp add: boost_priorities_def Let_def)
  also have "\<dots> = map (\<lambda>i. (if i = 0 then queues k ! 0 else []) @
        (if i < NUM_QUEUES - 1 then queues k ! (i + 1) else [])) [0 ..< NUM_QUEUES]"
    by (rule map_cong) simp_all
  also have "[0 ..< NUM_QUEUES] = [0, 1, 2, 3, 4, 5, 6, 7]" by (simp add: NUM_QUEUES_def upt_rec)
  finally show ?thesis using assms by (simp add: NUM_QUEUES_def)
qed

lemma boost_simps [simp]:
  "current (boost_priorities k) = current k" "ticks_remaining (boost_priorities k) = ticks_remaining k"
  by (simp_all add: boost_priorities_def Let_def)

lemma queue_index_unique:
  assumes inv: "sched_inv k" and "i < NUM_QUEUES" "j < NUM_QUEUES" "t \<in> set (queues k ! i)" "t \<in> set (queues k ! j)"
  shows "j = i"
  using queued_okD [OF sched_invD(3) [OF inv]] assms(2-5) by metis

lemma arcs_boost:
  assumes "\<forall>j\<in>set [1 ..< NUM_QUEUES]. t \<in> set (queues k ! j) \<longrightarrow> j = i"
  shows "arcs (boost_priorities k) t =
    (if i \<in> set [1 ..< NUM_QUEUES] \<and> t \<in> set (queues k ! i) then (arcs k t)\<lparr>t_priority := i - 1\<rparr> else arcs k t)"
  unfolding fold_queues_priority [of "[1 ..< NUM_QUEUES]" t "\<lambda>j. queues k ! j" i "arcs k", OF assms, symmetric]
  by (simp add: boost_priorities_def Let_def)

lemma boost_arcs:
  assumes inv: "sched_inv k"
  shows boost_arcs_queued: "i < NUM_QUEUES \<Longrightarrow> t \<in> set (queues k ! i) \<Longrightarrow>
      arcs (boost_priorities k) t = (arcs k t)\<lparr>t_priority := i - 1\<rparr>"
    and boost_arcs_other: "\<forall>i<NUM_QUEUES. t \<notin> set (queues k ! i) \<Longrightarrow> arcs (boost_priorities k) t = arcs k t"
proof -
  assume i: "i < NUM_QUEUES" "t \<in> set (queues k ! i)"
  have "\<forall>j\<in>set [1 ..< NUM_QUEUES]. t \<in> set (queues k ! j) \<longrightarrow> j = i"
  proof (intro ballI impI)
    fix j assume "j \<in> set [1 ..< NUM_QUEUES]" "t \<in> set (queues k ! j)"
    then show "j = i" by (intro queue_index_unique [OF inv i(1) _ i(2)]) simp_all
  qed
  note eq = arcs_boost [OF this]
  have "t_priority (arcs k t) = i" using queued_okD [OF sched_invD(3) [OF inv] i] by simp
  then show "arcs (boost_priorities k) t = (arcs k t)\<lparr>t_priority := i - 1\<rparr>"
    unfolding eq using i by (cases "i = 0") simp_all
next
  assume "\<forall>i<NUM_QUEUES. t \<notin> set (queues k ! i)"
  then show "arcs (boost_priorities k) t = arcs k t" using arcs_boost [of t k 0] by simp
qed

lemma boost_fields:
  assumes inv: "sched_inv k"
  shows "t_state (arcs (boost_priorities k) t) = t_state (arcs k t)" "t_tid (arcs (boost_priorities k) t) = t_tid (arcs k t)"
  using boost_arcs_queued [OF inv, of _ t] boost_arcs_other [OF inv, of t]
  by (cases "\<exists>i<NUM_QUEUES. t \<in> set (queues k ! i)"; auto)+

lemma boost_placed:
  assumes "length (queues k) = NUM_QUEUES"
  shows "placed (boost_priorities k) = placed k"
proof -
  obtain a b c d e f g h where q: "queues k = [a, b, c, d, e, f, g, h]" using eight_queues [OF assms] .
  then show ?thesis by (simp add: placed_def boost_queues [OF q])
qed

lemma boost_preserves:
  assumes inv: "sched_inv k"
  shows "sched_inv (boost_priorities k)"
proof -
  obtain a b c d e f g h where q: "queues k = [a, b, c, d, e, f, g, h]"
    using eight_queues sched_invD(1) [OF inv] by metis
  have pl: "placed (boost_priorities k) = placed k" using sched_invD(1) [OF inv] by (rule boost_placed)
  have mem: "i < NUM_QUEUES \<and> t \<in> set (queues (boost_priorities k) ! i) \<Longrightarrow>
      t \<in> set (queues k ! i) \<and> i = 0 \<or> Suc i < NUM_QUEUES \<and> t \<in> set (queues k ! Suc i)" for i t
    unfolding boost_queues [OF q] q by (auto simp: NUM_QUEUES_def less_Suc_eq numeral_eq_Suc)
  show ?thesis
  proof (rule sched_invI)
    show "length (queues (boost_priorities k)) = NUM_QUEUES" by (simp add: boost_queues [OF q] NUM_QUEUES_def)
    show "distinct (placed (boost_priorities k))" using pl sched_invD(2) [OF inv] by simp
    show "queued_ok (boost_priorities k)"
      unfolding queued_ok_def
    proof (intro allI impI ballI)
      fix i t assume "i < NUM_QUEUES" "t \<in> set (queues (boost_priorities k) ! i)"
      then consider "t \<in> set (queues k ! 0)" "i = 0" | "Suc i < NUM_QUEUES" "t \<in> set (queues k ! Suc i)"
        using mem [of i t] by auto
      then show "t_priority (arcs (boost_priorities k) t) = i \<and> t_state (arcs (boost_priorities k) t) = Ready"
      proof cases
        case 1
        have "0 < NUM_QUEUES" by (simp add: NUM_QUEUES_def)
        from boost_arcs_queued [OF inv this 1(1)] queued_okD [OF sched_invD(3) [OF inv] this 1(1)] 1(2)
        show ?thesis by simp
      next
        case 2
        from boost_arcs_queued [OF inv this] queued_okD [OF sched_invD(3) [OF inv] this] show ?thesis by simp
      qed
    qed
    show "t_priority (arcs (boost_priorities k) t) < NUM_QUEUES" if "current (boost_priorities k) = Some t" for t
      using that boost_arcs_other [OF inv, of t] current_not_queued [OF inv, of t] sched_invD(4) [OF inv, of t] by simp
  qed (use sched_invD(5-7) [OF inv] boost_fields [OF inv] pl in simp_all)
qed

lemma tick_preserves:
  assumes inv: "sched_inv k" and "total_ticks k + 1 < 2 ^ 32"
  shows "\<exists>k'. sched_tick k = Inr k' \<and> sched_inv k' \<and> total_ticks k' = total_ticks k + 1 \<and> placed k' = placed k"
proof -
  let ?k1 = "k\<lparr>total_ticks := total_ticks k + 1\<rparr>"
  let ?k2 = "if total_ticks ?k1 mod BOOST_PERIOD = 0 then boost_priorities ?k1 else ?k1"
  have "sched_inv ?k1" using inv by (rule sched_inv_frame) simp_all
  then have inv2: "sched_inv ?k2" using boost_preserves [of ?k1] by (simp del: One_nat_def)
  define k' where "k' = (if current ?k2 \<noteq> None then
      let k3 = (if ticks_remaining ?k2 > 0 then ?k2\<lparr>ticks_remaining := ticks_remaining ?k2 - 1\<rparr> else ?k2)
      in if ticks_remaining k3 = 0 then k3\<lparr>needs_reschedule := True\<rparr> else k3 else ?k2)"
  have "sched_inv k'" using inv2 by (rule sched_inv_frame) (simp_all add: k'_def Let_def)
  moreover have "sched_tick k = Inr k'" using assms(2) by (simp add: sched_tick_def k'_def Let_def)
  moreover have "total_ticks k' = total_ticks k + 1" by (simp add: k'_def Let_def boost_priorities_def)
  moreover have "placed ?k2 = placed k" using boost_placed [of ?k1] sched_invD(1) [OF inv] by (simp add: placed_simps)
  then have "placed k' = placed k" by (simp add: k'_def Let_def placed_simps)
  ultimately show ?thesis by blast
qed

end
