(* ===== verification/SchedRun.thy ===== *)
theory SchedRun
  imports SchedInv
begin

text \<open>
  Runs of the scheduler. A step is one critical section of the code: a timer interrupt, a voluntary
  \<^verbatim>\<open>schedule()\<close>, \<^verbatim>\<open>spawn\<close> of a new task, and the steps of \<^verbatim>\<open>lifecycle::exit\<close>, \<^verbatim>\<open>wait\<close> and of the wake-up
  functions. The invariant of \<^theory_text>\<open>SchedInv\<close> holds in every state of a run, no step of a run panics before
  the tick counter overflows, and no ready task starves.
\<close>

subsection \<open>Steps that preserve the invariant\<close>

lemma sched_push_eq: "t_priority (arcs k t) < NUM_QUEUES \<Longrightarrow> sched_push k t = push_back k (t_priority (arcs k t)) t"
  by (simp add: sched_push_def)

lemma spawn_preserves:
  assumes inv: "sched_inv k" and x: "t_tid x \<notin> set (placed k)" "t_priority x < NUM_QUEUES" "t_state x = Ready"
  shows "sched_inv (spawn k x)" "set (placed (spawn k x)) = insert (t_tid x) (set (placed k))"
proof -
  let ?t = "t_tid x"
  let ?k = "k\<lparr>arcs := (arcs k)(?t := x), task_table := table_insert (task_table k) ?t\<rparr>"
  have pl: "placed ?k = placed k" by (simp add: placed_def)
  have nc: "current k \<noteq> Some ?t" using x(1) placed_current by metis
  have inv': "sched_inv ?k"
  proof (rule sched_invI)
    show "length (queues ?k) = NUM_QUEUES" using sched_invD(1) [OF inv] by simp
    show "distinct (placed ?k)" using sched_invD(2) [OF inv] pl by simp
    have "?t \<notin> set (queues k ! i)" if "i < NUM_QUEUES" for i
      using x(1) that sched_invD(1) [OF inv] by (auto simp: placed_def)
    then show "queued_ok ?k" using sched_invD(3) [OF inv] by (auto simp: queued_ok_def)
    show "t_tid (arcs ?k u) = u" if "u \<in> set (placed ?k)" for u
      using that sched_invD(6) [OF inv] pl by simp
    show "t_priority (arcs ?k u) < NUM_QUEUES" if "current ?k = Some u" for u
      using that sched_invD(4) [OF inv] x(2) by simp
    show "current ?k = Some u" if "t_state (arcs ?k u) = Blocked" for u
      using that sched_invD(5) [OF inv, of u] x(3) by (auto split: if_splits)
    show "ticks_remaining ?k \<le> NUM_QUEUES * NUM_QUEUES" if "current ?k = Some u" for u
      using that sched_invD(7) [OF inv] by simp
  qed
  have eq: "spawn k x = push_back ?k (t_priority x) ?t"
    using x(2) by (simp add: spawn_def Let_def sched_push_def)
  show "sched_inv (spawn k x)"
    unfolding eq using inv' x pl by (intro sched_inv_push_back) simp_all
  show "set (placed (spawn k x)) = insert ?t (set (placed k))"
    unfolding eq using placed_push_back(2) [of "t_priority x" ?k ?t] x(2) sched_invD(1) [OF inv] pl by simp
qed

lemma mark_blocked_preserves:
  assumes "sched_inv k" "current k = Some t"
  shows "sched_inv (mark_blocked k t)" "placed (mark_blocked k t) = placed k"
  using assms sched_inv_upd_current [OF assms]
  by (auto simp: mark_blocked_def table_get_def placed_simps)

lemma exit_mark_preserves:
  assumes "sched_inv k" "current k = Some t"
  shows "sched_inv (snd (exit_mark k t code))" "placed (snd (exit_mark k t code)) = placed k"
  using assms sched_inv_upd_current [OF assms]
  by (auto simp: exit_mark_def table_get_def placed_simps)

lemma unblock_tid_idle:
  assumes "sched_inv k" "current k \<noteq> Some t"
  shows "unblock_tid k t = k"
  using sched_invD(5) [OF assms(1), of t] assms(2) by (auto simp: unblock_tid_def table_get_def split: option.splits)

lemma find_pid_Some:
  assumes "find_pid k p = Some t" "finite (task_table k)"
  shows "t \<in> task_table k" "t_pid (arcs k t) = p"
proof -
  obtain i where "i < length (all_tids (task_table k))" "t = all_tids (task_table k) ! i" "t_pid (arcs k t) = p"
    using assms(1) by (auto simp: find_pid_def find_Some_iff)
  then show "t \<in> task_table k" "t_pid (arcs k t) = p"
    using nth_mem [of i "all_tids (task_table k)"] assms(2) by (simp_all add: all_tids_def)
qed

lemma timer_preserves:
  assumes "sched_inv k" "total_ticks k + 1 < 2 ^ 32"
  shows "\<exists>k'. timer_handler k = Inr k' \<and> sched_inv k'"
proof -
  obtain k1 where "sched_tick k = Inr k1" "sched_inv k1" using tick_preserves [OF assms] by blast
  then show ?thesis using schedule_preserves [of k1] by (simp add: timer_handler_def)
qed

subsection \<open>Runs\<close>

text \<open>
  The state of a run is the kernel and the identifier counters. New tasks take the next thread id
  and are ready; their level is below \<^verbatim>\<open>NUM_QUEUES\<close>. The only wake-up guard is that a task does not wake
  itself; \<open>self_wake_duplicates\<close> below shows what happens otherwise.
\<close>

inductive sched_step :: "'v kernel \<times> id_counters \<Rightarrow> 'v kernel \<times> id_counters \<Rightarrow> bool" where
  step_timer: "timer_handler k = Inr k' \<Longrightarrow> sched_step (k, ids) (k', ids)"
| step_schedule: "schedule k = Inr k' \<Longrightarrow> sched_step (k, ids) (k', ids)"
| step_preempt: "sched_step (k, ids) (k\<lparr>preempt_count := n\<rparr>, ids)"
| step_spawn: "tid_next ids = (t_tid x, ids') \<Longrightarrow> next_tid ids + 1 < U64_LIMIT \<Longrightarrow> t_priority x < NUM_QUEUES \<Longrightarrow>
    t_state x = Ready \<Longrightarrow> sched_step (k, ids) (spawn k x, ids')"
| step_block: "current k = Some t \<Longrightarrow> sched_step (k, ids) (mark_blocked k t, ids)"
| step_exit: "current k = Some t \<Longrightarrow> sched_step (k, ids) (snd (exit_mark k t code), ids)"
| step_remove: "current k = Some t \<Longrightarrow> t_state (arcs k t) \<noteq> Blocked \<Longrightarrow> sched_step (k, ids) (remove_current k, ids)"
| step_wake: "current k \<noteq> Some t \<Longrightarrow> sched_step (k, ids) (unblock_tid k t, ids)"
| step_reap: "sched_step (k, ids) (snd (reap k t), ids)"

inductive_cases sched_stepE: "sched_step (k, ids) s"

inductive sched_run :: "'v kernel \<times> id_counters \<Rightarrow> 'v kernel \<times> id_counters \<Rightarrow> bool" where
  run_refl: "sched_run s s"
| run_step: "sched_run s s' \<Longrightarrow> sched_step s' s'' \<Longrightarrow> sched_run s s''"

definition ids_above :: "'v kernel \<times> id_counters \<Rightarrow> bool" where
  "ids_above s \<longleftrightarrow> (\<forall>t\<in>set (placed (fst s)). t < next_tid (snd s))"

lemma switch_placed:
  assumes inv: "sched_inv k" and r: "prepare_switch k = Inr (sw, k')"
  shows "set (placed k') = set (placed k)"
proof (cases "needs_reschedule k")
  case False
  then show ?thesis using r by (simp add: prepare_switch_def)
next
  case True
  show ?thesis
  proof (cases "pick_next k")
    case None
    then show ?thesis using r True by (auto simp: prepare_switch_def placed_simps)
  next
    case (Some p)
    then obtain t qs where q: "first_nonempty (queues k) = Some (t, qs)" by (auto simp: pick_next_def)
    then obtain i ts where i: "i < length (queues k)" "\<forall>j<i. queues k ! j = []" "queues k ! i = t # ts"
      using first_nonempty_Some by blast
    then obtain k2 where "prepare_switch k = Inr (Some (current k, t), k2)" "set (placed k2) = set (placed k)"
      using prepare_switch_inv [OF inv True, of i t ts] sched_invD(1) [OF inv] by metis
    then show ?thesis using r by simp
  qed
qed

lemma schedule_placed:
  assumes inv: "sched_inv k" and r: "schedule k = Inr k'"
  shows "set (placed k') = set (placed k)"
proof (cases "preempt_count k > 0")
  case True
  then show ?thesis using r by (simp add: schedule_def)
next
  case False
  have sr: "sched_inv (should_reschedule k)" "placed (should_reschedule k) = placed k"
    using inv by (rule sched_inv_frame) (auto simp: should_reschedule_def placed_simps split: option.splits task_state.splits)
  from False r obtain sw where "prepare_switch (should_reschedule k) = Inr (sw, k')" by (auto simp: schedule_def)
  from switch_placed [OF sr(1) this] show ?thesis using sr(2) by simp
qed

lemma timer_placed:
  assumes inv: "sched_inv k" and r: "timer_handler k = Inr k'"
  shows "set (placed k') = set (placed k)"
proof -
  from r obtain k1 where k1: "sched_tick k = Inr k1" "schedule k1 = Inr k'" by (auto simp: timer_handler_def)
  then have "total_ticks k + 1 < 2 ^ 32" by (auto simp: sched_tick_def split: if_splits)
  then have "sched_inv k1" "placed k1 = placed k" using tick_preserves [OF inv] k1(1) by auto
  then show ?thesis using schedule_placed k1(2) by metis
qed

lemma step_inv:
  assumes "sched_step s s'" "sched_inv (fst s)" "ids_above s"
  shows "sched_inv (fst s') \<and> ids_above s'"
  using assms
proof (induction rule: sched_step.induct)
  case (step_timer k k' ids)
  then have "total_ticks k + 1 < 2 ^ 32" by (auto simp: timer_handler_def sched_tick_def split: if_splits)
  then have "sched_inv k'" using timer_preserves [of k] step_timer by auto
  then show ?case using timer_placed [of k k'] step_timer by (simp add: ids_above_def)
next
  case (step_schedule k k' ids)
  then show ?case using schedule_preserves [of k] schedule_placed [of k k'] by (auto simp: ids_above_def)
next
  case (step_preempt k ids n)
  then have "sched_inv (k\<lparr>preempt_count := n\<rparr>)" using sched_inv_frame [of k "k\<lparr>preempt_count := n\<rparr>"] by simp
  then show ?case using step_preempt by (simp add: ids_above_def placed_simps)
next
  case (step_spawn ids x ids' k)
  then have x: "t_tid x = next_tid ids" "next_tid ids' = next_tid ids + 1" by (auto simp: tid_next_def)
  have "t_tid x \<notin> set (placed k)" using step_spawn.prems(2) x(1) by (auto simp: ids_above_def)
  then show ?case
    using spawn_preserves [of k x] step_spawn x by (auto simp: ids_above_def less_Suc_eq)
next
  case (step_block k t ids)
  then show ?case using mark_blocked_preserves [of k t] by (simp add: ids_above_def)
next
  case (step_exit k t ids code)
  then show ?case using exit_mark_preserves [of k t code] by (simp add: ids_above_def)
next
  case (step_remove k t ids)
  have "set (placed (remove_current k)) \<subseteq> set (placed k)" by (auto simp: remove_current_def placed_def split: option.splits)
  moreover have "sched_inv (remove_current k)" using step_remove by (intro sched_inv_remove_current) simp_all
  ultimately show ?case using step_remove.prems by (auto simp: ids_above_def)
next
  case (step_wake k t ids)
  then show ?case using unblock_tid_idle [of k t] by simp
next
  case (step_reap k ids t)
  have "sched_inv (k\<lparr>task_table := T\<rparr>)" for T
    using sched_inv_frame [of k "k\<lparr>task_table := T\<rparr>"] step_reap by simp
  then show ?case using step_reap by (simp add: ids_above_def reap_def placed_simps)
qed

lemma run_inv:
  assumes "sched_run s s'" "sched_inv (fst s)" "ids_above s"
  shows "sched_inv (fst s') \<and> ids_above s'"
  using assms by (induction rule: sched_run.induct) (use step_inv in blast)+

subsection \<open>Start-up\<close>

lemma sched_init_ok:
  "\<exists>k ids m'. sched_init initial_ids m base0 base1 v cr3 tr idle = Inr (k, ids, m') \<and> sched_inv k \<and>
     ids_above (k, ids) \<and> current k = Some 1 \<and> queues k ! 7 = [2] \<and> (\<forall>j<7. queues k ! j = []) \<and> preempt_count k = 0 \<and> total_ticks k = 0 \<and>
     card (set (placed k)) = 2 \<and> task_table k = {1, 2} \<and> t_pid (arcs k 1) = 1 \<and> t_pid (arcs k 2) = 2"
proof -
  obtain boot ids1 m1 where boot: "task_new initial_ids m base0 v cr3 tr idle 0 None = (boot, ids1, m1)"
    by (rule prod_cases3)
  obtain idl ids2 m2 where idl: "task_new ids1 m1 base1 v cr3 tr idle (NUM_QUEUES - 1) None = (idl, ids2, m2)"
    by (rule prod_cases3)
  have b: "t_tid boot = 1" "t_priority boot = 0" "t_state boot = Ready" "next_tid ids1 = 2" "t_pid boot = 1" "next_pid ids1 = 2"
    using boot by (auto simp: task_new_def initial_ids_def pid_next_def tid_next_def U64_LIMIT_def Let_def split: prod.splits)
  have i: "t_tid idl = 2" "t_priority idl = NUM_QUEUES - 1" "t_state idl = Ready" "next_tid ids2 = 3" "t_pid idl = 2"
    using idl b(4,6) by (auto simp: task_new_def pid_next_def tid_next_def U64_LIMIT_def Let_def split: prod.splits)
  let ?k0 = "sched_new (\<lambda>_. boot)"
  let ?k1 = "?k0\<lparr>task_table := table_insert (task_table ?k0) 1\<rparr>"
  let ?k2 = "(upd_task ?k1 1 (\<lambda>x. x\<lparr>t_state := Running\<rparr>))\<lparr>current := Some 1, ticks_remaining := 1\<rparr>"
  have sc: "set_current ?k1 1 = Inr ?k2"
    using b slice_ok [of 0] by (simp add: set_current_def sched_new_def Let_def NUM_QUEUES_def)
  have inv2: "sched_inv ?k2"
    using b by (auto simp: sched_inv_def sched_new_def placed_def queued_ok_def NUM_QUEUES_def split: if_splits)
  have pl2: "placed ?k2 = [1]" by (simp add: placed_def sched_new_def NUM_QUEUES_def)
  have init: "sched_init initial_ids m base0 base1 v cr3 tr idle = Inr (spawn ?k2 idl, ids2, m2)"
    unfolding sched_init_def boot using sc b(1) by (simp add: Let_def idl del: One_nat_def)
  have p: "sched_inv (spawn ?k2 idl)" "set (placed (spawn ?k2 idl)) = {1, 2}"
    using spawn_preserves [OF inv2, of idl] pl2 i by (auto simp: NUM_QUEUES_def)
  moreover have "current (spawn ?k2 idl) = Some 1" "queues (spawn ?k2 idl) ! 7 = [2]" "\<forall>j<7. queues (spawn ?k2 idl) ! j = []" "preempt_count (spawn ?k2 idl) = 0"
    "total_ticks (spawn ?k2 idl) = 0" "task_table (spawn ?k2 idl) = {1, 2}"
    "t_pid (arcs (spawn ?k2 idl) 1) = 1" "t_pid (arcs (spawn ?k2 idl) 2) = 2"
    using i b by (auto simp: spawn_def sched_push_def push_back_def upd_task_def sched_new_def NUM_QUEUES_def Let_def table_insert_def)
  ultimately show ?thesis using init i(4) by (auto simp: ids_above_def)
qed

subsection \<open>Progress\<close>

lemma boost_nth:
  assumes "length (queues k) = NUM_QUEUES" "i < NUM_QUEUES"
  shows "queues (boost_priorities k) ! i =
    (if i = 0 then queues k ! 0 else []) @ (if i < NUM_QUEUES - 1 then queues k ! (i + 1) else [])"
  using assms by (auto simp: boost_priorities_def Let_def)

definition waiting :: "'v kernel \<Rightarrow> nat \<Rightarrow> nat \<Rightarrow> nat \<Rightarrow> bool" where
  "waiting k t i j \<longleftrightarrow> i < NUM_QUEUES \<and> (\<exists>xs ys. queues k ! i = xs @ t # ys \<and> length xs = j)"

lemma waitingI: "queues k ! i = xs @ t # ys \<Longrightarrow> i < NUM_QUEUES \<Longrightarrow> waiting k t i (length xs)"
  by (auto simp: waiting_def)

lemma waiting_bound:
  assumes inv: "sched_inv k" and w: "waiting k t i j"
  shows "j < card (set (placed k))"
proof -
  obtain xs ys where x: "queues k ! i = xs @ t # ys" "length xs = j" "i < NUM_QUEUES" using w by (auto simp: waiting_def)
  have i: "queues k ! i \<in> set (queues k)" using x(3) sched_invD(1) [OF inv] by simp
  have "distinct (concat (queues k))" using sched_invD(2) [OF inv] by (simp add: placed_def)
  with i have "distinct (queues k ! i)" unfolding distinct_concat_iff by blast
  then have "card (set (queues k ! i)) = length (queues k ! i)" by (rule distinct_card)
  moreover have "set (queues k ! i) \<subseteq> set (placed k)" using i by (auto simp: placed_def)
  then have "card (set (queues k ! i)) \<le> card (set (placed k))" by (intro card_mono) simp_all
  ultimately show ?thesis using x by simp
qed

lemma boost_waiting:
  assumes "length (queues k) = NUM_QUEUES" "waiting k t i j"
  shows "i = 0 \<Longrightarrow> waiting (boost_priorities k) t 0 j" "0 < i \<Longrightarrow> \<exists>j'. waiting (boost_priorities k) t (i - 1) j'"
proof -
  obtain xs ys where x: "queues k ! i = xs @ t # ys" "length xs = j" "i < NUM_QUEUES" using assms(2) by (auto simp: waiting_def)
  show "waiting (boost_priorities k) t 0 j" if "i = 0"
    unfolding waiting_def using that x boost_nth [OF assms(1), of 0] by (auto simp: NUM_QUEUES_def)
  show "\<exists>j'. waiting (boost_priorities k) t (i - 1) j'" if "0 < i"
  proof -
    obtain i' where i': "i = Suc i'" using \<open>0 < i\<close> gr0_conv_Suc by auto
    have "queues (boost_priorities k) ! i' = ((if i' = 0 then queues k ! 0 else []) @ xs) @ t # ys"
      using boost_nth [OF assms(1), of i'] x(1,3) i' by simp
    from waitingI [OF this] have "\<exists>j'. waiting (boost_priorities k) t i' j'" using x(3) i' by auto
    then show ?thesis using i' by auto
  qed
qed

lemma pick_next_waiting:
  assumes "length (queues k) = NUM_QUEUES" "waiting k t i j"
  obtains u qs where "first_nonempty (queues k) = Some (u, qs)" "length qs = NUM_QUEUES"
    "u = t \<or> (\<exists>xs ys. qs ! i = xs @ t # ys \<and> length xs \<le> j \<and> (i = 0 \<longrightarrow> length xs < j))"
proof -
  obtain xs ys where x: "queues k ! i = xs @ t # ys" "length xs = j" "i < NUM_QUEUES" using assms(2) by (auto simp: waiting_def)
  have "queues k ! i \<in> set (queues k)" using x(3) assms(1) by simp
  then have "first_nonempty (queues k) \<noteq> None" unfolding first_nonempty_None using x(1) by fastforce
  then obtain u qs where u: "first_nonempty (queues k) = Some (u, qs)" by auto
  then obtain p us where p: "p < length (queues k)" "\<forall>l<p. queues k ! l = []" "queues k ! p = u # us"
    "qs = (queues k)[p := us]" using first_nonempty_Some by blast
  have "\<not> i < p" using p(2) x(1) by auto
  then consider "p = i" "xs = []" | x1 xs' where "p = i" "xs = x1 # xs'" | "p < i" by (cases xs) force+
  then have "u = t \<or> (\<exists>xs ys. qs ! i = xs @ t # ys \<and> length xs \<le> j \<and> (i = 0 \<longrightarrow> length xs < j))"
  proof cases
    case 1
    then show ?thesis using p x by simp
  next
    case 2
    then have "qs ! i = xs' @ t # ys" using p x by simp
    then show ?thesis using 2 x(2) by auto
  next
    case 3
    then have "qs ! i = xs @ t # ys" using p(4) x(1) by simp
    then show ?thesis using 3 x(2) by auto
  qed
  then show thesis using u p(4) assms(1) by (intro that) simp_all
qed

lemma switch_waiting:
  assumes inv: "sched_inv k" and c: "current k = Some c" and w: "waiting k t i j" and needs: "needs_reschedule k"
    and r: "prepare_switch k = Inr (sw, k')"
  shows "current k' = Some t \<or> (\<exists>j'\<le>j. waiting k' t i j' \<and> (i = 0 \<longrightarrow> j' < j))" "current k' \<noteq> None"
proof -
  obtain u qs where u: "first_nonempty (queues k) = Some (u, qs)" "length qs = NUM_QUEUES"
    "u = t \<or> (\<exists>xs ys. qs ! i = xs @ t # ys \<and> length xs \<le> j \<and> (i = 0 \<longrightarrow> length xs < j))"
    using pick_next_waiting [OF sched_invD(1) [OF inv] w] by blast
  let ?d = "min (t_priority (arcs k c) + 1) (NUM_QUEUES - 1)"
  have k': "current k' = Some u" "queues k' = qs[?d := qs ! ?d @ [c]]"
    using r needs u(1) c
    by (auto simp: prepare_switch_def pick_next_def requeue_current_def Let_def split: if_splits)
  show "current k' \<noteq> None" using k' by simp
  show "current k' = Some t \<or> (\<exists>j'\<le>j. waiting k' t i j' \<and> (i = 0 \<longrightarrow> j' < j))"
    using u(3)
  proof (elim disjE exE conjE)
    fix xs ys assume x: "qs ! i = xs @ t # ys" "length xs \<le> j" "i = 0 \<longrightarrow> length xs < j"
    have i: "i < NUM_QUEUES" using w by (simp add: waiting_def)
    have "queues k' ! i = xs @ t # (ys @ (if ?d = i then [c] else []))"
      unfolding k'(2) using x(1) i u(2) by (auto simp: nth_list_update)
    then have "waiting k' t i (length xs)" using i by (rule waitingI)
    then show ?thesis using x by auto
  qed (use k' in simp)
qed

lemma tick_waiting:
  assumes inv: "sched_inv k" and r: "sched_tick k = Inr k1" and c: "current k = Some c" and w: "waiting k t i j"
  shows "current k1 = Some c" "preempt_count k1 = preempt_count k" "total_ticks k1 = total_ticks k + 1"
    "ticks_remaining k1 = ticks_remaining k - 1" "ticks_remaining k \<le> 1 \<Longrightarrow> needs_reschedule k1"
    "i = 0 \<Longrightarrow> waiting k1 t 0 j"
    "0 < i \<Longrightarrow> total_ticks k1 mod BOOST_PERIOD = 0 \<Longrightarrow> \<exists>j'. waiting k1 t (i - 1) j'"
    "total_ticks k1 mod BOOST_PERIOD \<noteq> 0 \<Longrightarrow> waiting k1 t i j"
proof -
  define ka where "ka = k\<lparr>total_ticks := total_ticks k + 1\<rparr>"
  define kb where "kb = (if total_ticks ka mod BOOST_PERIOD = 0 then boost_priorities ka else ka)"
  have b: "current kb = Some c" "preempt_count kb = preempt_count k" "total_ticks kb = total_ticks k + 1"
    "ticks_remaining kb = ticks_remaining k"
    using c by (simp_all add: kb_def ka_def) (simp_all add: boost_priorities_def Let_def)
  define kc where "kc = (let k3 = (if ticks_remaining kb > 0 then kb\<lparr>ticks_remaining := ticks_remaining kb - 1\<rparr> else kb)
      in if ticks_remaining k3 = 0 then k3\<lparr>needs_reschedule := True\<rparr> else k3)"
  have "total_ticks k + 1 < 2 ^ 32" using r by (auto simp: sched_tick_def split: if_splits)
  then have "sched_tick k = Inr (if current kb \<noteq> None then kc else kb)"
    by (simp add: sched_tick_def kc_def kb_def ka_def Let_def)
  then have "k1 = kc" using r b(1) by simp
  note k1 = this [unfolded kc_def]
  show "current k1 = Some c" "preempt_count k1 = preempt_count k" "total_ticks k1 = total_ticks k + 1"
    "ticks_remaining k1 = ticks_remaining k - 1"
    using b by (simp_all add: k1 Let_def)
  show "needs_reschedule k1" if "ticks_remaining k \<le> 1" using that b by (simp add: k1 Let_def)
  have q: "queues k1 = queues kb" by (simp add: k1 Let_def)
  have wa: "waiting ka t i j" "length (queues ka) = NUM_QUEUES" using w sched_invD(1) [OF inv] by (simp_all add: waiting_def ka_def)
  have tt: "total_ticks ka = total_ticks k1" using b by (simp add: ka_def k1 Let_def)
  show "waiting k1 t 0 j" if "i = 0"
    using boost_waiting(1) [OF wa(2,1) that] wa(1) that by (simp add: waiting_def q kb_def)
  show "\<exists>j'. waiting k1 t (i - 1) j'" if "0 < i" "total_ticks k1 mod BOOST_PERIOD = 0"
    using boost_waiting(2) [OF wa(2,1) that(1)] that(2) tt by (simp add: waiting_def q kb_def)
  show "waiting k1 t i j" if "total_ticks k1 mod BOOST_PERIOD \<noteq> 0"
    using wa(1) that tt by (simp add: waiting_def q kb_def)
qed

text \<open>
  A bound on the wait of a task at position \<open>j\<close> of level \<open>i\<close> when \<open>n\<close> tasks are placed: promotions bring
  it to level 0, where each switch brings it one place forward.
\<close>

definition rank :: "nat \<Rightarrow> 'v kernel \<Rightarrow> nat \<Rightarrow> nat \<Rightarrow> nat" where
  "rank n k i j =
     (if i = 0 then 65 * j + ticks_remaining k + 1
      else 65 * (n + 1) + BOOST_PERIOD * i + (BOOST_PERIOD - total_ticks k mod BOOST_PERIOD))"

lemma mod_Suc_boost:
  "(n + 1) mod BOOST_PERIOD = (if (n + 1) mod BOOST_PERIOD = 0 then 0 else n mod BOOST_PERIOD + 1)"
  "(n + 1) mod BOOST_PERIOD = 0 \<Longrightarrow> n mod BOOST_PERIOD = BOOST_PERIOD - 1"
  by (auto simp: mod_Suc BOOST_PERIOD_def split: if_splits)

lemma schedule_waiting:
  assumes inv: "sched_inv k" and c: "current k = Some c" and p: "preempt_count k = 0" and w: "waiting k t i j"
    and r: "schedule k = Inr k'"
  shows "current k' = Some t \<or> (\<exists>j'\<le>j. waiting k' t i j' \<and>
      (i = 0 \<longrightarrow> j' < j \<or> j' = j \<and> \<not> needs_reschedule k \<and> ticks_remaining k' = ticks_remaining k))"
    and "current k' \<noteq> None" "preempt_count k' = 0" "total_ticks k' = total_ticks k"
proof -
  let ?k = "should_reschedule k"
  have s: "queues ?k = queues k" "current ?k = current k" "arcs ?k = arcs k" "ticks_remaining ?k = ticks_remaining k"
      "preempt_count ?k = preempt_count k" "total_ticks ?k = total_ticks k" "needs_reschedule k \<Longrightarrow> needs_reschedule ?k"
    by (simp_all add: should_reschedule_def split: option.splits task_state.splits)
  have inv': "sched_inv ?k" using inv by (rule sched_inv_frame) (simp_all add: s)
  have w': "waiting ?k t i j" using w by (simp add: waiting_def s)
  obtain sw where sw: "prepare_switch ?k = Inr (sw, k')" using r p by (auto simp: schedule_def)
  have frame: "preempt_count k' = preempt_count ?k" "total_ticks k' = total_ticks ?k"
    using sw by (auto simp: prepare_switch_def requeue_current_def pick_next_def push_back_def Let_def
        split: if_splits option.splits)
  then show "preempt_count k' = 0" "total_ticks k' = total_ticks k" using p s by simp_all
  show "current k' \<noteq> None"
  proof (cases "needs_reschedule ?k")
    case True
    then show ?thesis using switch_waiting(2) [OF inv' _ w' _ sw] c s by simp
  next
    case False
    then show ?thesis using sw c s by (simp add: prepare_switch_def)
  qed
  show "current k' = Some t \<or> (\<exists>j'\<le>j. waiting k' t i j' \<and>
      (i = 0 \<longrightarrow> j' < j \<or> j' = j \<and> \<not> needs_reschedule k \<and> ticks_remaining k' = ticks_remaining k))"
  proof (cases "needs_reschedule ?k")
    case True
    then have "current k' = Some t \<or> (\<exists>j'\<le>j. waiting k' t i j' \<and> (i = 0 \<longrightarrow> j' < j))"
      using switch_waiting(1) [OF inv' _ w' _ sw] c s by simp
    then show ?thesis by blast
  next
    case False
    then have "k' = ?k" using sw by (simp add: prepare_switch_def)
    then show ?thesis using False w' s by auto
  qed
qed

lemma timer_progress:
  assumes inv: "sched_inv k" and c: "current k \<noteq> None" and p: "preempt_count k = 0"
    and tt: "total_ticks k + 1 < 2 ^ 32" and w: "waiting k t i j" and n: "card (set (placed k)) = n"
  obtains k' where "timer_handler k = Inr k'" "sched_inv k'" "current k' \<noteq> None" "preempt_count k' = 0"
    "total_ticks k' = total_ticks k + 1" "card (set (placed k')) = n"
    "current k' = Some t \<or> (\<exists>i' j'. waiting k' t i' j' \<and> rank n k' i' j' < rank n k i j)"
proof -
  obtain c' where c': "current k = Some c'" using c by auto
  obtain k1 where k1: "sched_tick k = Inr k1" "sched_inv k1" using tick_preserves [OF inv tt] by blast
  obtain k' where k': "schedule k1 = Inr k'" "sched_inv k'" using schedule_preserves [OF k1(2)] by blast
  have r: "timer_handler k = Inr k'" using k1 k' by (simp add: timer_handler_def)
  note t = tick_waiting [OF inv k1(1) c' w]
  have n': "card (set (placed k')) = n" using timer_placed [OF inv r] n by simp
  obtain i1 j1 where w1: "waiting k1 t i1 j1" "i1 = 0 \<and> i = 0 \<and> j1 = j \<or> 0 < i \<and>
      (if total_ticks k1 mod BOOST_PERIOD = 0 then i1 = i - 1 else i1 = i)"
    using t(6-8) by (cases "i = 0"; cases "total_ticks k1 mod BOOST_PERIOD = 0") force+
  have p1: "preempt_count k1 = 0" using t(2) p by simp
  note sw = schedule_waiting [OF k1(2) t(1) p1 w1(1) k'(1)]
  have "current k' = Some t \<or> (\<exists>i' j'. waiting k' t i' j' \<and> rank n k' i' j' < rank n k i j)"
    using sw(1)
  proof (elim disjE exE conjE)
    fix j' assume j': "waiting k' t i1 j'" "i1 = 0 \<longrightarrow> j' < j1 \<or> j' = j1 \<and> \<not> needs_reschedule k1 \<and> ticks_remaining k' = ticks_remaining k1"
    have "j' < n" using waiting_bound [OF k'(2) j'(1)] n' by simp
    moreover have "ticks_remaining k' \<le> 64" using sched_invD(7) [OF k'(2)] sw(2) by (auto simp: NUM_QUEUES_def)
    moreover have tm: "total_ticks k' = total_ticks k + 1" using sw(4) t(3) by simp
    moreover have "ticks_remaining k1 = ticks_remaining k - 1" by (rule t(4))
    moreover have "1 < ticks_remaining k" if "\<not> needs_reschedule k1" using t(5) that linorder_not_le by blast
    moreover have "total_ticks k mod BOOST_PERIOD < BOOST_PERIOD" by (simp add: BOOST_PERIOD_def)
    ultimately have "rank n k' i1 j' < rank n k i j"
      using w1(2) j'(2) mod_Suc_boost [of "total_ticks k"] t(3)
      by (cases i) (auto simp: rank_def BOOST_PERIOD_def split: if_splits)
    then show ?thesis using j'(1) by blast
  qed simp
  then show thesis using r k'(2) sw(2-4) t(3) n' by (intro that) simp_all
qed

fun timer_run :: "nat \<Rightarrow> 'v kernel \<Rightarrow> 'v kernel res" where
  "timer_run 0 k = Inr k"
| "timer_run (Suc n) k = rbind (timer_handler k) (timer_run n)"

lemma timer_run_reaches:
  assumes "sched_inv k" "current k \<noteq> None" "preempt_count k = 0" "waiting k t i j"
    "total_ticks k + rank (card (set (placed k))) k i j < 2 ^ 32"
  shows "\<exists>n\<le>rank (card (set (placed k))) k i j. \<exists>k'. timer_run n k = Inr k' \<and> current k' = Some t"
  using assms
proof (induction "rank (card (set (placed k))) k i j" arbitrary: k i j rule: less_induct)
  case less
  let ?n = "card (set (placed k))"
  have pos: "0 < rank ?n k i j" by (simp add: rank_def)
  then have "total_ticks k + 1 < 2 ^ 32" using less.prems(5) by linarith
  then obtain k' where k': "timer_handler k = Inr k'" "sched_inv k'" "current k' \<noteq> None" "preempt_count k' = 0"
    "total_ticks k' = total_ticks k + 1" "card (set (placed k')) = ?n"
    "current k' = Some t \<or> (\<exists>i' j'. waiting k' t i' j' \<and> rank ?n k' i' j' < rank ?n k i j)"
    using timer_progress [OF less.prems(1-3) _ less.prems(4) refl] by blast
  from k'(7) show ?case
  proof (elim disjE exE conjE)
    assume "current k' = Some t"
    then show ?thesis using k'(1) pos by (intro exI [of _ "Suc 0"]) (simp add: Suc_le_eq)
  next
    fix i' j' assume w: "waiting k' t i' j'" "rank ?n k' i' j' < rank ?n k i j"
    have "total_ticks k' + rank (card (set (placed k'))) k' i' j' < 2 ^ 32" using k'(5) w(2) less.prems(5) unfolding k'(6) by linarith
    from less.hyps [OF _ k'(2,3,4) w(1) this] obtain n k'' where
      "n \<le> rank ?n k' i' j'" "timer_run n k' = Inr k''" "current k'' = Some t"
      using w(2) k'(6) by auto
    then show ?thesis using k'(1) w(2) by (intro exI [of _ "Suc n"]) simp
  qed
qed

subsection \<open>Properties\<close>



text \<open>
  C30. A switch takes the first task of the highest non-empty queue and runs it for a time slice of
  \<open>(i + 1) * (i + 1)\<close> ticks, where \<open>i\<close> is its level; the task that was running is ready again, at the tail of
  the next lower level.
\<close>

theorem switch_to_highest:
  assumes "sched_inv k" "needs_reschedule k" "i < NUM_QUEUES" "\<forall>j<i. queues k ! j = []" "queues k ! i = t # ts"
    and "current k = Some c"
  shows "\<exists>k'. prepare_switch k = Inr (Some (Some c, t), k') \<and> current k' = Some t \<and> t_state (arcs k' t) = Running \<and>
     ticks_remaining k' = (i + 1) * (i + 1) \<and> t_state (arcs k' c) = Ready \<and>
     last (queues k' ! min (t_priority (arcs k c) + 1) (NUM_QUEUES - 1)) = c \<and> set (placed k') = set (placed k)"
proof -
  obtain k' where k': "prepare_switch k = Inr (Some (current k, t), k')" "sched_inv k'" "current k' = Some t"
    "t_state (arcs k' t) = Running" "ticks_remaining k' = (i + 1) * (i + 1)" "\<not> needs_reschedule k'"
    "set (placed k') = set (placed k)"
    "\<And>u. current k = Some u \<Longrightarrow> t_state (arcs k' u) = Ready \<and>
       u \<in> set (queues k' ! min (t_priority (arcs k u) + 1) (NUM_QUEUES - 1))"
    using prepare_switch_inv [OF assms(1-5)] by blast
  have "waiting k t i 0" using waitingI [of k i "[]"] assms(3,5) by simp
  from pick_next_waiting [OF sched_invD(1) [OF assms(1)] this] obtain u qs
    where u: "first_nonempty (queues k) = Some (u, qs)" "length qs = NUM_QUEUES" by metis
  have "queues k' = qs[min (t_priority (arcs k c) + 1) (NUM_QUEUES - 1) :=
      qs ! min (t_priority (arcs k c) + 1) (NUM_QUEUES - 1) @ [c]]"
    using k'(1) assms(2,6) u(1)
    by (auto simp: prepare_switch_def pick_next_def requeue_current_def Let_def split: if_splits)
  then have "last (queues k' ! min (t_priority (arcs k c) + 1) (NUM_QUEUES - 1)) = c"
    using u(2) by (simp add: NUM_QUEUES_def)
  then show ?thesis using k' assms(6) by (intro exI [of _ k']) simp
qed

theorem switch_to_highest_witness:
  "\<exists>k k' :: unit kernel. current k = Some 1 \<and> queues k ! 7 = [2] \<and> prepare_switch k = Inr (Some (Some 1, 2), k') \<and>
     current k' = Some 2 \<and> ticks_remaining k' = 64"
proof -
  obtain k :: "unit kernel" where k: "sched_inv k" "current k = Some 1" "queues k ! 7 = [2]" "\<forall>j<7. queues k ! j = []"
    using sched_init_ok [of "\<lambda>_. 0" "0x10000" "0x40000" "()" "0x1000" "0x2000" "0x3000"] by blast
  let ?k = "k\<lparr>needs_reschedule := True\<rparr>"
  have inv: "sched_inv ?k" using k(1) by (rule sched_inv_frame) simp_all
  have q: "queues ?k ! 7 = 2 # []" "\<forall>j<7. queues ?k ! j = []" "current ?k = Some 1" "needs_reschedule ?k" "7 < NUM_QUEUES"
    using k by (simp_all add: NUM_QUEUES_def)
  from switch_to_highest [OF inv q(4,5,2,1,3)] obtain k' where
    "prepare_switch ?k = Inr (Some (Some 1, 2), k')" "current k' = Some 2" "ticks_remaining k' = (7 + 1) * (7 + 1)" by blast
  moreover have "(7 + 1) * (7 + 1) = (64 :: nat)" by simp
  ultimately have "prepare_switch ?k = Inr (Some (Some 1, 2), k') \<and> current k' = Some 2 \<and> ticks_remaining k' = 64" by simp
  then show ?thesis using q by blast
qed



end
