(* ===== verification/Lifecycle.thy ===== *)
theory Lifecycle
  imports SchedRun
begin

text \<open>
  Exit and wait (\<^verbatim>\<open>process/lifecycle.rs\<close>) on the scheduler: an exit that is not interrupted leaves a zombie
  whose code \<^verbatim>\<open>wait\<close> and \<^verbatim>\<open>wait_tid\<close> return exactly once; what a switch does to a task that is blocked or a
  zombie when it happens.
\<close>

subsection \<open>Tasks a switch does not touch\<close>

lemma prepare_switch_other:
  assumes inv: "sched_inv k" and r: "prepare_switch k = Inr (sw, k')" and t: "t \<notin> set (placed k)"
  shows "arcs k' t = arcs k t" "task_table k' = task_table k"
proof -
  have c: "current k \<noteq> Some t" using t placed_current by metis
  have "arcs k' t = arcs k t \<and> task_table k' = task_table k"
  proof (cases "first_nonempty (queues k)")
    case None
    then show ?thesis using r by (auto simp: prepare_switch_def pick_next_def split: if_splits)
  next
    case (Some p)
    obtain u qs where u: "p = (u, qs)" by (cases p)
    obtain i ts where i: "i < length (queues k)" "queues k ! i = u # ts"
      using first_nonempty_Some [OF Some [unfolded u]] by blast
    have "u \<in> set (queues k ! i)" using i(2) by simp
    then have "u \<in> set (concat (queues k))" unfolding set_concat by (rule UN_I [OF nth_mem [OF i(1)]])
    then have "u \<noteq> t" using t by (auto simp: placed_def)
    then show ?thesis
      using r c Some [unfolded u]
      by (cases "current k")
        (auto simp: prepare_switch_def pick_next_def requeue_current_def push_back_def upd_task_def Let_def split: if_splits)
  qed
  then show "arcs k' t = arcs k t" "task_table k' = task_table k" by simp_all
qed

lemma should_reschedule_simps [simp]:
  "queues (should_reschedule k) = queues k" "current (should_reschedule k) = current k"
  "arcs (should_reschedule k) = arcs k" "task_table (should_reschedule k) = task_table k"
  "placed (should_reschedule k) = placed k"
  by (simp_all add: should_reschedule_def placed_def split: option.splits task_state.splits)

lemma schedule_other:
  assumes inv: "sched_inv k" and r: "schedule k = Inr k'" and t: "t \<notin> set (placed k)"
  shows "arcs k' t = arcs k t" "task_table k' = task_table k"
proof -
  have "sched_inv (should_reschedule k)"
    using inv by (rule sched_inv_frame) (auto simp: should_reschedule_def split: option.splits task_state.splits)
  then have "arcs k' t = arcs k t \<and> task_table k' = task_table k"
    using r prepare_switch_other [of "should_reschedule k" _ k' t] t by (auto simp: schedule_def split: if_splits)
  then show "arcs k' t = arcs k t" "task_table k' = task_table k" by simp_all
qed

lemma schedule_pid:
  assumes "schedule k = Inr k'"
  shows "t_pid (arcs k' t) = t_pid (arcs k t)"
  using assms by (auto simp: schedule_def prepare_switch_def pick_next_def requeue_current_def Let_def
      split: if_splits option.splits)

lemma unblock_tid_not_blocked: "t_state (arcs k t) \<noteq> Blocked \<Longrightarrow> unblock_tid k t = k"
  by (simp add: unblock_tid_def table_get_def)

lemma unblock_pid_none:
  assumes "\<And>t. t_state (arcs k t) \<noteq> Blocked"
  shows "unblock_pid k p = k"
  using unblock_tid_not_blocked [OF assms] by (simp add: unblock_pid_def split: option.splits)

text \<open>A switch is due when the flag is set or the running task is blocked or a zombie.\<close>

lemma schedule_switches:
  assumes inv: "sched_inv k" and p: "preempt_count k = 0"
    and due: "needs_reschedule k \<or> (\<exists>c. current k = Some c \<and> (t_state (arcs k c) = Blocked \<or> t_state (arcs k c) = Zombie))"
    and i: "i < NUM_QUEUES" "\<forall>j<i. queues k ! j = []" "queues k ! i = t # ts"
  obtains k' where "schedule k = Inr k'" "current k' = Some t" "sched_inv k'"
    "\<And>u. current k = Some u \<Longrightarrow> t_state (arcs k' u) = Ready \<and>
       u \<in> set (queues k' ! min (t_priority (arcs k u) + 1) (NUM_QUEUES - 1))"
proof -
  let ?k = "should_reschedule k"
  have inv': "sched_inv ?k"
    using inv by (rule sched_inv_frame) (auto simp: should_reschedule_def split: option.splits task_state.splits)
  have "needs_reschedule ?k" using due by (auto simp: should_reschedule_def split: option.splits task_state.splits)
  note sw = prepare_switch_inv [OF inv' this, of i t ts, unfolded should_reschedule_simps, OF i]
  obtain k' where "prepare_switch ?k = Inr (Some (current k, t), k')" "sched_inv k'"
    "current k' = Some t"
    "\<And>u. current k = Some u \<Longrightarrow> t_state (arcs k' u) = Ready \<and>
       u \<in> set (queues k' ! min (t_priority (arcs k u) + 1) (NUM_QUEUES - 1))"
    by (rule sw) blast
  then show thesis using p by (intro that [of k']) (simp_all add: schedule_def)
qed

subsection \<open>Exit and wait\<close>

lemma lifecycle_exit_zombie:
  assumes inv: "sched_inv k" and c: "current k = Some c" and tbl: "c \<in> task_table k"
  obtains k' where "lifecycle_exit k code = Inr k'" "sched_inv k'" "c \<notin> set (placed k')"
    "arcs k' c = (arcs k c)\<lparr>t_state := Zombie, t_exit_code := Some code\<rparr>" "task_table k' = task_table k"
    "set (placed k') = set (placed k) - {c}" "\<And>t. t_pid (arcs k' t) = t_pid (arcs k t)"
    "\<And>i t ts. preempt_count k = 0 \<Longrightarrow> i < NUM_QUEUES \<Longrightarrow> \<forall>j<i. queues k ! j = [] \<Longrightarrow> queues k ! i = t # ts \<Longrightarrow>
       current k' = Some t"
proof -
  define k1 where "k1 = upd_task k c (\<lambda>x. x\<lparr>t_state := Zombie, t_exit_code := Some code\<rparr>)"
  have em: "exit_mark k c code = (t_parent (arcs k c), k1)" using tbl by (simp add: exit_mark_def table_get_def k1_def)
  have inv1: "sched_inv k1" using exit_mark_preserves(1) [OF inv c, of code] em by simp
  have nb: "t_state (arcs k1 t) \<noteq> Blocked" for t
    using sched_invD(5) [OF inv, of t] c by (auto simp: k1_def)
  have wake: "(case t_parent (arcs k c) of None \<Rightarrow> k1 | Some pid \<Rightarrow> unblock_pid k1 pid) = k1"
    using unblock_pid_none [of k1] nb by (simp split: option.splits)
  let ?k2 = "remove_current k1"
  have inv2: "sched_inv ?k2" using inv1 nb by (intro sched_inv_remove_current)
  have c1: "current k1 = Some c" using c by (simp add: k1_def)
  have pl: "placed k1 = placed k" by (simp add: k1_def placed_simps)
  have "placed k1 = placed ?k2 @ [c]" using c1 by (simp add: remove_current_def placed_def)
  then have pl2: "c \<notin> set (placed ?k2)" "set (placed ?k2) = set (placed k) - {c}"
    using sched_invD(2) [OF inv1] pl by auto
  obtain k' where k': "schedule ?k2 = Inr k'" "sched_inv k'" using schedule_preserves [OF inv2] by blast
  have "t_tid (arcs k c) = c" using sched_invD(6) [OF inv] placed_current [OF c] by simp
  then have "lifecycle_exit k code = Inr k'"
    using c em wake k'(1) by (simp add: lifecycle_exit_def current_tid_def)
  moreover have "arcs k' c = arcs k1 c" "task_table k' = task_table k"
    using schedule_other [OF inv2 k'(1) pl2(1)] by (simp_all add: remove_current_def k1_def)
  moreover have "set (placed k') = set (placed ?k2)" using schedule_placed [OF inv2 k'(1)] .
  moreover have "t_pid (arcs k' t) = t_pid (arcs k t)" for t
    using schedule_pid [OF k'(1), of t] by (simp add: remove_current_def k1_def)
  moreover have "current k' = Some t"
    if q: "preempt_count k = 0" "i < NUM_QUEUES" "\<forall>j<i. queues k ! j = []" "queues k ! i = t # ts" for i t ts
  proof -
    have "needs_reschedule ?k2" "preempt_count ?k2 = 0" "queues ?k2 = queues k"
      using c1 q(1) by (simp_all add: remove_current_def k1_def)
    with schedule_switches [OF inv2, of i t ts] q k'(1) show ?thesis by fastforce
  qed
  ultimately show thesis using k'(2) pl2 by (intro that [of k']) (simp_all add: k1_def)
qed

lemma find_pid_unique:
  assumes "finite (task_table k)" "c \<in> task_table k" "\<forall>t\<in>task_table k. t_pid (arcs k t) = p \<longleftrightarrow> t = c"
  shows "find_pid k p = Some c"
proof (cases "find_pid k p")
  case None
  then show ?thesis using assms by (auto simp: find_pid_def all_tids_def find_None_iff)
next
  case (Some t)
  then show ?thesis using find_pid_Some [OF Some assms(1)] assms(3) by simp
qed

text \<open>
  C31. The exit code of a task reaches the waiter once. An exit that runs without interruption leaves the
  task off every queue, a zombie with its code; the next task that calls \<^verbatim>\<open>wait_tid\<close> on its thread, or
  \<^verbatim>\<open>wait\<close> on its process when the process has no other thread, gets the code and removes it from the
  table, and asking again yields \<open>-1\<close>.
\<close>

theorem exit_then_wait:
  assumes "sched_inv k" "current k = Some c" "finite (task_table k)" "c \<in> task_table k"
    and "\<forall>t\<in>task_table k. t_pid (arcs k t) = p \<longleftrightarrow> t = c"
    and "lifecycle_exit k code = Inr k'" "current k' = Some w"
  defines "k'' \<equiv> k'\<lparr>task_table := task_table k - {c}\<rparr>"
  shows "wait_tid_round k' c = Inr (Some code, k'') \<and> wait_round k' p = Inr (Some code, k'') \<and>
    wait_tid_round k'' c = Inr (Some (-1), k'') \<and> wait_round k'' p = Inr (Some (-1), k'') \<and>
    c \<notin> set (placed k'')"
proof (intro conjI)
  obtain k1 where k1: "lifecycle_exit k code = Inr k1" "sched_inv k1" "c \<notin> set (placed k1)"
    "arcs k1 c = (arcs k c)\<lparr>t_state := Zombie, t_exit_code := Some code\<rparr>" "task_table k1 = task_table k"
    "set (placed k1) = set (placed k) - {c}" "\<And>t. t_pid (arcs k1 t) = t_pid (arcs k t)"
    using lifecycle_exit_zombie [OF assms(1,2,4), of code] by metis
  then have eq: "k1 = k'" using assms(6) by simp
  note z = k1 [unfolded eq]
  have tid: "current_tid k' = Inr (t_tid (arcs k' w))" "current_tid k'' = Inr (t_tid (arcs k' w))"
    using assms(7) by (simp_all add: current_tid_def k''_def)
  have reap: "reap k' c = (Some code, k'')" using z by (simp add: reap_def k''_def table_remove_def)
  show "wait_tid_round k' c = Inr (Some code, k'')"
    using tid z(5) reap assms(4) by (simp add: wait_tid_round_def table_get_def)
  have "find_pid k' p = Some c" by (rule find_pid_unique; (unfold z(5,7))?; rule assms(3-5))
  then show "wait_round k' p = Inr (Some code, k'')" using tid reap by (simp add: wait_round_def)
  show "wait_tid_round k'' c = Inr (Some (-1), k'')" using tid by (simp add: wait_tid_round_def table_get_def k''_def)
  have "\<not> (\<exists>t\<in>task_table k - {c}. t_pid (arcs k' t) = p)" unfolding z(7) using assms(5) by blast
  then have "find_pid k'' p = None"
    using assms(3) unfolding find_pid_def all_tids_def find_None_iff by (auto simp: k''_def)
  then show "wait_round k'' p = Inr (Some (-1), k'')" using tid by (simp add: wait_round_def)
  show "c \<notin> set (placed k'')" using z(3) by (simp add: k''_def placed_simps)
qed

text \<open>The start-up state with its idle task: the boot task exits and the idle task waits for it.\<close>

theorem exit_then_wait_witness:
  "\<exists>k k' :: unit kernel. lifecycle_exit k 7 = Inr k' \<and> current k' = Some 2 \<and>
     wait_tid_round k' 1 = Inr (Some 7, k'\<lparr>task_table := task_table k - {1}\<rparr>)"
proof -
  obtain k :: "unit kernel" where k: "sched_inv k" "current k = Some 1" "queues k ! 7 = [2]" "\<forall>j<7. queues k ! j = []"
      "task_table k = {1, 2}" "t_pid (arcs k 1) = 1" "t_pid (arcs k 2) = 2" "preempt_count k = 0"
    using sched_init_ok [of "\<lambda>_. 0" "0x10000" "0x40000" "()" "0x1000" "0x2000" "0x3000"] by metis
  have "1 \<in> task_table k" using k(5) by simp
  from lifecycle_exit_zombie [OF k(1,2) this, of 7] obtain k' where k'1: "lifecycle_exit k 7 = Inr k'" and
    "preempt_count k = 0 \<Longrightarrow> 7 < NUM_QUEUES \<Longrightarrow> \<forall>j<7. queues k ! j = [] \<Longrightarrow> queues k ! 7 = 2 # [] \<Longrightarrow> current k' = Some 2"
    by metis
  then have k': "lifecycle_exit k 7 = Inr k'" "current k' = Some 2" using k by (simp_all add: NUM_QUEUES_def)
  have "wait_tid_round k' 1 = Inr (Some 7, k'\<lparr>task_table := task_table k - {1}\<rparr>)"
    using k by (intro exit_then_wait [THEN conjunct1, OF k(1,2) _ _ _ k', of 1]) simp_all
  then show ?thesis using k' by blast
qed

subsection \<open>Switching away from a blocked or exiting task\<close>

lemma first_queue:
  assumes "sched_inv k" "i < NUM_QUEUES" "queues k ! i \<noteq> []"
  obtains j t ts where "j < NUM_QUEUES" "\<forall>l<j. queues k ! l = []" "queues k ! j = t # ts"
proof -
  obtain j where j: "j < NUM_QUEUES \<and> queues k ! j \<noteq> []" "\<forall>l<j. \<not> (l < NUM_QUEUES \<and> queues k ! l \<noteq> [])"
    using exists_least_iff [of "\<lambda>i. i < NUM_QUEUES \<and> queues k ! i \<noteq> []"] assms(2,3) by blast
  then obtain t ts where "queues k ! j = t # ts" by (cases "queues k ! j") auto
  moreover have "\<forall>l<j. queues k ! l = []" using j by (meson less_trans)
  ultimately show thesis using j(1) by (intro that) simp_all
qed

text \<open>
  Blocking only yields: when the running task marks itself blocked, as \<^verbatim>\<open>wait\<close>, \<^verbatim>\<open>wait_tid\<close> and the
  condition queues do, and another task is ready, the following \<^verbatim>\<open>schedule()\<close> puts it back on a queue as
  ready. It will run again without any wake-up, and a wake-up that comes meanwhile does nothing.
\<close>

theorem blocked_task_requeued:
  assumes "sched_inv k" "current k = Some c" "c \<in> task_table k" "preempt_count k = 0" "i < NUM_QUEUES" "queues k ! i \<noteq> []"
  shows "\<exists>k'. schedule (mark_blocked k c) = Inr k' \<and> current k' \<noteq> Some c \<and> t_state (arcs k' c) = Ready \<and>
     c \<in> set (queues k' ! min (t_priority (arcs k c) + 1) (NUM_QUEUES - 1)) \<and> unblock_tid k' c = k'"
proof -
  let ?k = "mark_blocked k c"
  have mb: "?k = upd_task k c (\<lambda>x. x\<lparr>t_state := Blocked\<rparr>)" using assms(3) by (simp add: mark_blocked_def table_get_def)
  have inv: "sched_inv ?k" using mark_blocked_preserves [OF assms(1,2)] by simp
  obtain j t ts where j: "j < NUM_QUEUES" "\<forall>l<j. queues k ! l = []" "queues k ! j = t # ts"
    using first_queue [OF assms(1,5,6)] .
  have tc: "t \<noteq> c" using current_not_queued [OF assms(1,2) j(1)] j(3) by auto
  have due: "needs_reschedule ?k \<or> (\<exists>c. current ?k = Some c \<and> (t_state (arcs ?k c) = Blocked \<or> t_state (arcs ?k c) = Zombie))"
    using assms(2) by (simp add: mb)
  have q: "queues ?k = queues k" "preempt_count ?k = 0" "current ?k = Some c" "t_priority (arcs ?k c) = t_priority (arcs k c)"
    using assms(2,4) by (simp_all add: mb)
  obtain k' where k': "schedule ?k = Inr k'" "current k' = Some t" "sched_inv k'"
    "\<And>u. current ?k = Some u \<Longrightarrow> t_state (arcs k' u) = Ready \<and>
       u \<in> set (queues k' ! min (t_priority (arcs ?k u) + 1) (NUM_QUEUES - 1))"
    by (rule schedule_switches [OF inv q(2) due j(1), unfolded q(1), OF j(2,3)]) blast
  then have "unblock_tid k' c = k'" using q(3) by (intro unblock_tid_not_blocked) simp
  then show ?thesis using k' k'(4) [OF q(3)] q(4) tc by (intro exI [of _ k']) simp
qed

theorem blocked_task_requeued_witness:
  "\<exists>k k' :: unit kernel. current k = Some 1 \<and> schedule (mark_blocked k 1) = Inr k' \<and> t_state (arcs k' 1) = Ready"
proof -
  obtain k :: "unit kernel" where k: "sched_inv k" "current k = Some 1" "queues k ! 7 = [2]" "task_table k = {1, 2}" "preempt_count k = 0"
    using sched_init_ok [of "\<lambda>_. 0" "0x10000" "0x40000" "()" "0x1000" "0x2000" "0x3000"] by metis
  then show ?thesis using blocked_task_requeued [OF k(1,2) _ k(5), of 7] by (auto simp: NUM_QUEUES_def)
qed



end
