(* ===== verification/Sync.thy ===== *)
theory Sync
  imports Lifecycle
begin

text \<open>
  Synchronisation (\<^verbatim>\<open>sync/spinlock.rs\<close>, \<^verbatim>\<open>sync/condvar.rs\<close>, \<^verbatim>\<open>sync/monitor.rs\<close>, \<^verbatim>\<open>sync/resource.rs\<close>,
  \<^verbatim>\<open>sync/resource_table.rs\<close>) and the preemption counter of \<^verbatim>\<open>process/task.rs\<close>. One processor runs the kernel,
  so a spinlock found taken by the code that would have to release it never becomes free: that is the
  fault \<open>SelfDeadlock\<close>. Operations that give up the processor end there; what follows is a later step.
\<close>

subsection \<open>Spinlocks\<close>

definition preempt_disable :: "'v kernel \<Rightarrow> 'v kernel" where
  "preempt_disable k = k\<lparr>preempt_count := (preempt_count k + 1) mod 2 ^ 32\<rparr>"

definition preempt_enable :: "'v kernel \<Rightarrow> 'v kernel" where
  "preempt_enable k = k\<lparr>preempt_count := (preempt_count k + (2 ^ 32 - 1)) mod 2 ^ 32\<rparr>"

definition spin_lock :: "'v kernel \<Rightarrow> bool \<Rightarrow> ('v kernel \<times> bool) res" where
  "spin_lock k locked = (if locked then Inl SelfDeadlock else Inr (preempt_disable k, True))"

definition spin_try_lock :: "'v kernel \<Rightarrow> bool \<Rightarrow> bool \<times> 'v kernel \<times> bool" where
  "spin_try_lock k locked = (if \<not> locked then (True, preempt_disable k, True) else (False, k, locked))"

definition guard_drop :: "'v kernel \<Rightarrow> bool \<Rightarrow> 'v kernel \<times> bool" where
  "guard_drop k locked = (preempt_enable k, False)"

subsection \<open>Condition variables\<close>

definition condvar_wait :: "'v kernel \<Rightarrow> nat list \<Rightarrow> ('v kernel \<times> nat list) res" where
  "condvar_wait k waiters =
     rbind (current_tid k) (\<lambda>curr_tid.
     let waiters1 = waiters @ [curr_tid];
         k1 = mark_blocked k curr_tid;
         (k2, _) = guard_drop k1 True
     in rbind (schedule k2) (\<lambda>k3. Inr (k3, waiters1)))"

definition condvar_signal :: "'v kernel \<Rightarrow> nat list \<Rightarrow> 'v kernel \<times> nat list" where
  "condvar_signal k waiters =
     (case waiters of [] \<Rightarrow> (k, []) | tid # rest \<Rightarrow> (unblock_tid k tid, rest))"

fun condvar_broadcast :: "'v kernel \<Rightarrow> nat list \<Rightarrow> 'v kernel \<times> nat list" where
  "condvar_broadcast k [] = (k, [])"
| "condvar_broadcast k (tid # rest) = condvar_broadcast (unblock_tid k tid) rest"

record 'a monitor =
  mon_locked :: bool
  mon_data :: 'a
  mon_cond :: "nat list"

definition monitor_new :: "'a \<Rightarrow> 'a monitor" where
  "monitor_new v = \<lparr>mon_locked = False, mon_data = v, mon_cond = []\<rparr>"

definition monitor_lock :: "'v kernel \<Rightarrow> 'a monitor \<Rightarrow> ('v kernel \<times> 'a monitor) res" where
  "monitor_lock k mon =
     rbind (spin_lock k (mon_locked mon)) (\<lambda>(k', l). Inr (k', mon\<lparr>mon_locked := l\<rparr>))"

definition monitor_wait :: "'v kernel \<Rightarrow> 'a monitor \<Rightarrow> ('v kernel \<times> 'a monitor) res" where
  "monitor_wait k mon =
     rbind (condvar_wait k (mon_cond mon)) (\<lambda>(k', ws). Inr (k', mon\<lparr>mon_locked := False, mon_cond := ws\<rparr>))"

definition monitor_signal :: "'v kernel \<Rightarrow> 'a monitor \<Rightarrow> 'v kernel \<times> 'a monitor" where
  "monitor_signal k mon = (let (k', ws) = condvar_signal k (mon_cond mon) in (k', mon\<lparr>mon_cond := ws\<rparr>))"

definition monitor_broadcast :: "'v kernel \<Rightarrow> 'a monitor \<Rightarrow> 'v kernel \<times> 'a monitor" where
  "monitor_broadcast k mon = (let (k', ws) = condvar_broadcast k (mon_cond mon) in (k', mon\<lparr>mon_cond := ws\<rparr>))"

subsection \<open>User-visible locks\<close>

record queued_resource =
  qr_locked :: bool
  qr_waiters :: "nat list"
  qr_cond_waiters :: "nat list"

definition resource_new :: queued_resource where
  "resource_new = \<lparr>qr_locked = False, qr_waiters = [], qr_cond_waiters = []\<rparr>"

text \<open>One round of the loop in \<^verbatim>\<open>lock\<close>: acquired, or queued and blocked, after which \<^verbatim>\<open>schedule()\<close> runs.\<close>

definition resource_lock_round :: "'v kernel \<Rightarrow> queued_resource \<Rightarrow> (bool \<times> 'v kernel \<times> queued_resource) res" where
  "resource_lock_round k s =
     rbind (current_tid k) (\<lambda>curr_tid.
     if qr_locked s
     then rbind (schedule (mark_blocked k curr_tid)) (\<lambda>k'. Inr (False, k', s\<lparr>qr_waiters := qr_waiters s @ [curr_tid]\<rparr>))
     else Inr (True, k, s\<lparr>qr_locked := True\<rparr>))"

definition resource_try_lock :: "queued_resource \<Rightarrow> bool \<times> queued_resource" where
  "resource_try_lock s = (if qr_locked s then (False, s) else (True, s\<lparr>qr_locked := True\<rparr>))"

definition resource_unlock :: "'v kernel \<Rightarrow> queued_resource \<Rightarrow> 'v kernel \<times> queued_resource" where
  "resource_unlock k s =
     (case qr_waiters s of
        [] \<Rightarrow> (k, s\<lparr>qr_locked := False\<rparr>)
      | tid # rest \<Rightarrow> (unblock_tid k tid, s\<lparr>qr_locked := False, qr_waiters := rest\<rparr>))"

text \<open>\<^verbatim>\<open>wait\<close> up to its \<^verbatim>\<open>schedule()\<close>; the re-acquisition that follows is \<^verbatim>\<open>lock\<close>.\<close>

definition resource_wait_release :: "'v kernel \<Rightarrow> queued_resource \<Rightarrow> ('v kernel \<times> queued_resource) res" where
  "resource_wait_release k s =
     rbind (current_tid k) (\<lambda>curr_tid.
     let s1 = s\<lparr>qr_cond_waiters := qr_cond_waiters s @ [curr_tid]\<rparr>;
         k1 = mark_blocked k curr_tid
     in Inr (resource_unlock k1 s1))"

definition resource_wait :: "'v kernel \<Rightarrow> queued_resource \<Rightarrow> ('v kernel \<times> queued_resource) res" where
  "resource_wait k s =
     rbind (resource_wait_release k s) (\<lambda>(k1, s1). rbind (schedule k1) (\<lambda>k2. Inr (k2, s1)))"

definition resource_signal :: "'v kernel \<Rightarrow> queued_resource \<Rightarrow> 'v kernel \<times> queued_resource" where
  "resource_signal k s =
     (let (k', ws) = condvar_signal k (qr_cond_waiters s) in (k', s\<lparr>qr_cond_waiters := ws\<rparr>))"

definition resource_broadcast :: "'v kernel \<Rightarrow> queued_resource \<Rightarrow> 'v kernel \<times> queued_resource" where
  "resource_broadcast k s =
     (let (k', ws) = condvar_broadcast k (qr_cond_waiters s) in (k', s\<lparr>qr_cond_waiters := ws\<rparr>))"

subsection \<open>Handle tables\<close>

text \<open>\<^verbatim>\<open>ResourceTable\<close> and \<^verbatim>\<open>IpcTable\<close> are the same code over different objects.\<close>

record 'a handle_table =
  next_handle :: nat
  handle_map :: "nat \<rightharpoonup> 'a"

definition handle_table_new :: "'a handle_table" where
  "handle_table_new = \<lparr>next_handle = 0, handle_map = Map.empty\<rparr>"

definition handle_insert :: "'a handle_table \<Rightarrow> 'a \<Rightarrow> (nat \<times> 'a handle_table) res" where
  "handle_insert tbl res =
     (if next_handle tbl + 1 < U64_LIMIT
      then Inr (next_handle tbl,
                tbl\<lparr>next_handle := next_handle tbl + 1, handle_map := (handle_map tbl)(next_handle tbl \<mapsto> res)\<rparr>)
      else Inl ExpectFailed)"

definition handle_get :: "'a handle_table \<Rightarrow> nat \<Rightarrow> 'a option" where
  "handle_get tbl h = handle_map tbl h"

definition handle_remove :: "'a handle_table \<Rightarrow> nat \<Rightarrow> 'a handle_table" where
  "handle_remove tbl h = tbl\<lparr>handle_map := (handle_map tbl)(h := None)\<rparr>"

subsection \<open>No switch under a spinlock\<close>

lemma boost_states: "t_state (arcs (boost_priorities k) t) = t_state (arcs k t)" "preempt_count (boost_priorities k) = preempt_count k"
proof -
  have one: "t_state (fold (\<lambda>t st'. st'(t := (st' t)\<lparr>t_priority := p\<rparr>)) ts st u) = t_state (st u)" for p ts u and st :: "'a tasks"
    unfolding fold_set_priority by simp
  have "t_state (fold (\<lambda>i st. fold (\<lambda>t st'. st'(t := (st' t)\<lparr>t_priority := i - 1\<rparr>)) (Q i) st) js st u) = t_state (st u)"
    for Q js u and st :: "'a tasks" by (induction js arbitrary: st) (simp_all add: one)
  then show "t_state (arcs (boost_priorities k) t) = t_state (arcs k t)"
    by (simp add: boost_priorities_def Let_def)
  show "preempt_count (boost_priorities k) = preempt_count k" by (simp add: boost_priorities_def Let_def)
qed

lemma timer_held:
  assumes "timer_handler k = Inr k'" "0 < preempt_count k"
  shows "current k' = current k \<and> preempt_count k' = preempt_count k \<and> (\<forall>t. t_state (arcs k' t) = t_state (arcs k t))"
  using assms by (auto simp: timer_handler_def sched_tick_def schedule_def boost_states Let_def split: if_splits)

lemma timer_run_held:
  "timer_run n k = Inr k' \<Longrightarrow> 0 < preempt_count k \<Longrightarrow>
     current k' = current k \<and> preempt_count k' = preempt_count k \<and> (\<forall>t. t_state (arcs k' t) = t_state (arcs k t))"
proof (induction n arbitrary: k)
  case (Suc n)
  then obtain k1 where "timer_handler k = Inr k1" "timer_run n k1 = Inr k'" by auto
  then show ?case using timer_held [of k k1] Suc.IH [of k1] Suc.prems(2) by simp
qed simp



subsection \<open>Mutual exclusion of user-visible locks\<close>

text \<open>
  Threads use a lock between two switches. The ghost component is the set of threads that have acquired
  the lock and not released it; a thread releases (by \<^verbatim>\<open>unlock\<close> or \<^verbatim>\<open>wait\<close>) only what it has acquired.
\<close>

inductive resource_step :: "'v kernel \<times> queued_resource \<times> nat set \<Rightarrow> 'v kernel \<times> queued_resource \<times> nat set \<Rightarrow> bool" where
  res_lock: "resource_lock_round k s = Inr (ok, k', s') \<Longrightarrow> current k = Some c \<Longrightarrow>
    resource_step (k, s, H) (k', s', if ok then insert c H else H)"
| res_try_lock: "resource_try_lock s = (ok, s') \<Longrightarrow> current k = Some c \<Longrightarrow>
    resource_step (k, s, H) (k, s', if ok then insert c H else H)"
| res_unlock: "current k = Some c \<Longrightarrow> c \<in> H \<Longrightarrow> resource_unlock k s = (k', s') \<Longrightarrow>
    resource_step (k, s, H) (k', s', H - {c})"
| res_wait: "current k = Some c \<Longrightarrow> c \<in> H \<Longrightarrow> resource_wait k s = Inr (k', s') \<Longrightarrow>
    resource_step (k, s, H) (k', s', H - {c})"
| res_signal: "resource_signal k s = (k', s') \<Longrightarrow> resource_step (k, s, H) (k', s', H)"
| res_broadcast: "resource_broadcast k s = (k', s') \<Longrightarrow> resource_step (k, s, H) (k', s', H)"
| res_kernel: "resource_step (k, s, H) (k', s, H)"

inductive resource_run :: "'v kernel \<times> queued_resource \<times> nat set \<Rightarrow> 'v kernel \<times> queued_resource \<times> nat set \<Rightarrow> bool" where
  res_refl: "resource_run st st"
| res_step: "resource_run st st' \<Longrightarrow> resource_step st' st'' \<Longrightarrow> resource_run st st''"

definition exclusive :: "'v kernel \<times> queued_resource \<times> nat set \<Rightarrow> bool" where
  "exclusive st \<longleftrightarrow> (case st of (k, s, H) \<Rightarrow> if qr_locked s then \<exists>c. H = {c} else H = {})"

lemma resource_unlock_free: "resource_unlock k s = (k', s') \<Longrightarrow> \<not> qr_locked s'"
  by (auto simp: resource_unlock_def split: list.splits)

lemma resource_step_exclusive: "resource_step st st' \<Longrightarrow> exclusive st \<Longrightarrow> exclusive st'"
proof (induction rule: resource_step.induct)
  case (res_wait k c H s k' s')
  then have "\<not> qr_locked s'"
    by (auto simp: resource_wait_def resource_wait_release_def Let_def dest: resource_unlock_free)
  then show ?case using res_wait by (auto simp: exclusive_def split: if_splits)
qed (auto simp: exclusive_def resource_lock_round_def resource_try_lock_def resource_unlock_def resource_signal_def
    resource_broadcast_def Let_def split: if_splits list.splits prod.splits)



subsection \<open>A thread that wakes itself\<close>

text \<open>
  Every failed round of \<^verbatim>\<open>lock\<close> queues the caller again, and acquiring the lock removes no entry. A
  thread that holds the lock with an entry of its own still at the head of the queue and calls \<^verbatim>\<open>wait\<close>
  wakes itself: it has just been marked blocked, so \<^verbatim>\<open>unlock\<close> makes it ready and pushes it on a run queue
  while it is the running task.
\<close>

theorem self_wake_duplicates:
  assumes "sched_inv k" "current k = Some c" "c \<in> task_table k" "qr_waiters s = c # ws"
  shows "\<exists>k' s'. resource_wait_release k s = Inr (k', s') \<and> current k' = Some c \<and>
     c \<in> set (queues k' ! t_priority (arcs k c)) \<and> \<not> distinct (placed k')"
proof -
  let ?k1 = "upd_task k c (\<lambda>x. x\<lparr>t_state := Blocked\<rparr>)"
  let ?k2 = "upd_task ?k1 c (\<lambda>x. x\<lparr>t_state := Ready\<rparr>)"
  let ?p = "t_priority (arcs k c)"
  have p: "?p < NUM_QUEUES" using sched_invD(4) [OF assms(1,2)] .
  have tid: "current_tid k = Inr c" using sched_invD(6) [OF assms(1) placed_current [OF assms(2)]] assms(2)
    by (simp add: current_tid_def)
  have "unblock_tid ?k1 c = push_back ?k2 ?p c"
    using assms(3) p by (simp add: unblock_tid_def table_get_def sched_push_def)
  then have r: "resource_wait_release k s =
      Inr (push_back ?k2 ?p c, s\<lparr>qr_cond_waiters := qr_cond_waiters s @ [c], qr_locked := False, qr_waiters := ws\<rparr>)"
    using tid assms(3,4) by (simp add: resource_wait_release_def mark_blocked_def table_get_def resource_unlock_def)
  have len: "?p < length (queues ?k2)" using p sched_invD(1) [OF assms(1)] by simp
  have "c \<in> set (placed ?k2)" using placed_current [OF assms(2)] by (simp add: placed_simps)
  then have "\<not> distinct (placed (push_back ?k2 ?p c))" using placed_push_back(1) [OF len] by simp
  moreover have "c \<in> set (queues (push_back ?k2 ?p c) ! ?p)" using len by simp
  ultimately show ?thesis using r assms(2) by (intro exI conjI) simp_all
qed

theorem self_wake_duplicates_witness:
  "\<exists>k k' :: unit kernel. \<exists>s'. current k = Some 1 \<and>
     resource_wait_release k \<lparr>qr_locked = True, qr_waiters = [1], qr_cond_waiters = []\<rparr> = Inr (k', s') \<and> \<not> distinct (placed k')"
proof -
  obtain k :: "unit kernel" where k: "sched_inv k" "current k = Some 1" "task_table k = {1, 2}"
    using sched_init_ok [of "\<lambda>_. 0" "0x10000" "0x40000" "()" "0x1000" "0x2000" "0x3000"] by metis
  then show ?thesis
    using self_wake_duplicates [OF k(1,2), of "\<lparr>qr_locked = True, qr_waiters = [1], qr_cond_waiters = []\<rparr>" "[]"] by auto
qed

end
