(* ===== verification/Ipc.thy ===== *)
theory Ipc
  imports Sync
begin

text \<open>
  Pipes, message queues, shared-memory handles and their table (\<^verbatim>\<open>ipc/\<close>). An operation that waits gives
  up the processor in the middle; it is modelled up to that point, and resumes with the same operation
  (for a pipe, with the number of bytes already written). The result \<open>None\<close> stands for such a wait. Holding
  the buffer lock shows as the preemption counter; a table of handles is a \<open>handle_table\<close> of \<^theory_text>\<open>Sync\<close>.
\<close>

datatype ipc_error = Closed | WouldBlock | TooLarge

subsection \<open>Pipes\<close>

definition PIPE_BUF :: nat where
  "PIPE_BUF = 4096"

record pipe =
  p_buf :: "u8 list"
  p_not_empty :: "nat list"
  p_not_full :: "nat list"
  p_closed :: bool

definition pipe_new :: pipe where
  "pipe_new = \<lparr>p_buf = [], p_not_empty = [], p_not_full = [], p_closed = False\<rparr>"

function pipe_send_loop :: "'v kernel \<Rightarrow> pipe \<Rightarrow> u8 list \<Rightarrow> nat \<Rightarrow> ((ipc_error + unit) option \<times> nat \<times> 'v kernel \<times> pipe) res" where
  "pipe_send_loop k p data bytes_written =
     (if bytes_written < length data then
        if p_closed p then Inr (Some (Inl Closed), bytes_written, preempt_enable k, p)
        else if PIPE_BUF < length (p_buf p) then Inl Overflow
        else let available_space = PIPE_BUF - length (p_buf p)
             in if available_space = 0 then
                  rbind (condvar_wait k (p_not_full p)) (\<lambda>(k', ws). Inr (None, bytes_written, k', p\<lparr>p_not_full := ws\<rparr>))
                else let to_write = min (length data - bytes_written) available_space;
                         p1 = p\<lparr>p_buf := p_buf p @ take to_write (drop bytes_written data)\<rparr>;
                         (k2, ws) = condvar_signal k (p_not_empty p1)
                     in pipe_send_loop k2 (p1\<lparr>p_not_empty := ws\<rparr>) data (bytes_written + to_write)
      else Inr (Some (Inr ()), bytes_written, preempt_enable k, p))"
  by pat_completeness auto
termination by (relation "measure (\<lambda>(k, p, data, w). length data - w)") auto

declare pipe_send_loop.simps [simp del]

definition pipe_send :: "'v kernel \<Rightarrow> pipe \<Rightarrow> u8 list \<Rightarrow> nat \<Rightarrow> ((ipc_error + unit) option \<times> nat \<times> 'v kernel \<times> pipe) res" where
  "pipe_send k p data bytes_written = pipe_send_loop (preempt_disable k) p data bytes_written"

definition pipe_recv :: "'v kernel \<Rightarrow> pipe \<Rightarrow> nat \<Rightarrow> (u8 list option \<times> 'v kernel \<times> pipe) res" where
  "pipe_recv k0 p out_len =
     (let k = preempt_disable k0
      in if p_buf p = [] then
           if p_closed p then Inr (Some [], preempt_enable k, p)
           else rbind (condvar_wait k (p_not_empty p)) (\<lambda>(k', ws). Inr (None, k', p\<lparr>p_not_empty := ws\<rparr>))
         else let to_read = min out_len (length (p_buf p));
                  out = take to_read (p_buf p);
                  p1 = p\<lparr>p_buf := drop to_read (p_buf p)\<rparr>;
                  (k2, ws) = (if to_read > 0 then condvar_signal k (p_not_full p1) else (k, p_not_full p1))
              in Inr (Some out, preempt_enable k2, p1\<lparr>p_not_full := ws\<rparr>))"

definition pipe_close :: "'v kernel \<Rightarrow> pipe \<Rightarrow> 'v kernel \<times> pipe" where
  "pipe_close k p =
     (let (k1, ws1) = condvar_broadcast k (p_not_empty p);
          (k2, ws2) = condvar_broadcast k1 (p_not_full p)
      in (k2, p\<lparr>p_closed := True, p_not_empty := ws1, p_not_full := ws2\<rparr>))"

subsection \<open>Message queues\<close>

definition MSG_SIZE :: nat where
  "MSG_SIZE = 256"

definition MAX_MESSAGES :: nat where
  "MAX_MESSAGES = 128"

record msg_queue =
  q_queue :: "u8 list list"
  q_not_empty :: "nat list"
  q_not_full :: "nat list"
  q_closed :: bool

definition msg_queue_new :: msg_queue where
  "msg_queue_new = \<lparr>q_queue = [], q_not_empty = [], q_not_full = [], q_closed = False\<rparr>"

definition pad_msg :: "u8 list \<Rightarrow> u8 list" where
  "pad_msg data = data @ replicate (MSG_SIZE - length data) 0"

definition msg_send :: "'v kernel \<Rightarrow> msg_queue \<Rightarrow> u8 list \<Rightarrow> ((ipc_error + unit) option \<times> 'v kernel \<times> msg_queue) res" where
  "msg_send k0 q data =
     (if length data > MSG_SIZE then Inr (Some (Inl TooLarge), k0, q)
      else let msg = pad_msg data; k = preempt_disable k0
           in if q_closed q then Inr (Some (Inl Closed), preempt_enable k, q)
              else if length (q_queue q) < MAX_MESSAGES
              then let (k1, ws) = condvar_signal k (q_not_empty q)
                   in Inr (Some (Inr ()), preempt_enable k1, q\<lparr>q_queue := q_queue q @ [msg], q_not_empty := ws\<rparr>)
              else rbind (condvar_wait k (q_not_full q)) (\<lambda>(k1, ws). Inr (None, k1, q\<lparr>q_not_full := ws\<rparr>)))"

definition msg_recv :: "'v kernel \<Rightarrow> msg_queue \<Rightarrow> nat \<Rightarrow> (u8 list option \<times> 'v kernel \<times> msg_queue) res" where
  "msg_recv k0 q out_len =
     (let k = preempt_disable k0
      in case q_queue q of
           msg # rest \<Rightarrow>
             (let to_read = min out_len MSG_SIZE; (k1, ws) = condvar_signal k (q_not_full q)
              in Inr (Some (take to_read msg), preempt_enable k1, q\<lparr>q_queue := rest, q_not_full := ws\<rparr>))
         | [] \<Rightarrow>
             if q_closed q then Inr (Some [], preempt_enable k, q)
             else rbind (condvar_wait k (q_not_empty q)) (\<lambda>(k1, ws). Inr (None, k1, q\<lparr>q_not_empty := ws\<rparr>)))"

definition msg_close :: "'v kernel \<Rightarrow> msg_queue \<Rightarrow> 'v kernel \<times> msg_queue" where
  "msg_close k q =
     (let (k1, ws1) = condvar_broadcast k (q_not_empty q);
          (k2, ws2) = condvar_broadcast k1 (q_not_full q)
      in (k2, q\<lparr>q_closed := True, q_not_empty := ws1, q_not_full := ws2\<rparr>))"

subsection \<open>Shared memory handles and the channel interface\<close>

record shared_mem =
  shm_name :: string
  shm_data :: "u8 list"

definition shm_new :: "string \<Rightarrow> nat \<Rightarrow> shared_mem" where
  "shm_new name sz = \<lparr>shm_name = name, shm_data = replicate sz 0\<rparr>"

datatype ipc_channel = ChPipe pipe | ChMsg msg_queue | ChShm shared_mem

definition ipc_recv :: "'v kernel \<Rightarrow> ipc_channel \<Rightarrow> nat \<Rightarrow> ((ipc_error + u8 list) option \<times> 'v kernel \<times> ipc_channel) res" where
  "ipc_recv k ch out_len =
     (case ch of
        ChPipe p \<Rightarrow> rbind (pipe_recv k p out_len) (\<lambda>(r, k', p'). Inr (map_option Inr r, k', ChPipe p'))
      | ChMsg q \<Rightarrow> rbind (msg_recv k q out_len) (\<lambda>(r, k', q'). Inr (map_option Inr r, k', ChMsg q'))
      | ChShm sh \<Rightarrow> Inr (Some (Inl WouldBlock), k, ch))"

definition ipc_close :: "'v kernel \<Rightarrow> ipc_channel \<Rightarrow> 'v kernel \<times> ipc_channel" where
  "ipc_close k ch =
     (case ch of
        ChPipe p \<Rightarrow> (let (k', p') = pipe_close k p in (k', ChPipe p'))
      | ChMsg q \<Rightarrow> (let (k', q') = msg_close k q in (k', ChMsg q'))
      | ChShm sh \<Rightarrow> (k, ch))"

subsection \<open>The contract of a channel\<close>

text \<open>
  What enters a channel leaves it in the same order. A run logs what was put and what was got; the
  relations are those of one operation of the code, with any waiting in between.
\<close>

inductive channel_run :: "('s \<Rightarrow> 'a list \<Rightarrow> 's \<Rightarrow> bool) \<Rightarrow> ('s \<Rightarrow> 'a list \<Rightarrow> 's \<Rightarrow> bool) \<Rightarrow> 's \<Rightarrow> 'a list \<Rightarrow> 'a list \<Rightarrow> 's \<Rightarrow> bool"
  for put get s0 where
  chan_start: "channel_run put get s0 [] [] s0"
| chan_put: "channel_run put get s0 sent recvd s \<Longrightarrow> put s xs s' \<Longrightarrow> channel_run put get s0 (sent @ xs) recvd s'"
| chan_get: "channel_run put get s0 sent recvd s \<Longrightarrow> get s ys s' \<Longrightarrow> channel_run put get s0 sent (recvd @ ys) s'"

locale fifo_channel =
  fixes put :: "'s \<Rightarrow> 'a list \<Rightarrow> 's \<Rightarrow> bool"
    and get :: "'s \<Rightarrow> 'a list \<Rightarrow> 's \<Rightarrow> bool"
    and contents :: "'s \<Rightarrow> 'a list"
    and cap :: nat
  assumes put_fifo: "put s xs s' \<Longrightarrow> length (contents s) \<le> cap \<Longrightarrow>
      contents s' = contents s @ xs \<and> length (contents s') \<le> cap"
    and get_fifo: "get s ys s' \<Longrightarrow> contents s = ys @ contents s'"
begin

lemma run_fifo:
  assumes "channel_run put get s0 sent recvd s" "contents s0 = []"
  shows "sent = recvd @ contents s \<and> length (contents s) \<le> cap"
  using assms
proof (induction rule: channel_run.induct)
  case (chan_put sent recvd s xs s')
  then show ?case using put_fifo [of s xs s'] by (metis append.assoc)
next
  case (chan_get sent recvd s ys s')
  then show ?case using get_fifo [of s ys s'] by simp
qed simp

end

subsection \<open>Pipes are channels\<close>

lemma take_take_drop: "take a (drop w d) @ take b (drop (w + a) d) = take (a + b) (drop w d)"
  by (simp add: take_add add.commute)

lemma pipe_send_loop_spec:
  assumes "pipe_send_loop k p data w = Inr (r, w', k', p')" "length (p_buf p) \<le> PIPE_BUF" "w \<le> length data"
  shows "w \<le> w' \<and> w' \<le> length data \<and> p_buf p' = p_buf p @ take (w' - w) (drop w data) \<and>
    length (p_buf p') \<le> PIPE_BUF \<and> p_closed p' = p_closed p \<and> (r = Some (Inr ()) \<longrightarrow> w' = length data) \<and>
    (r = None \<longrightarrow> w' < length data \<and> length (p_buf p') = PIPE_BUF \<and> \<not> p_closed p) \<and> r \<in> {None, Some (Inr ()), Some (Inl Closed)} \<and>
    (r = Some (Inl Closed) \<longrightarrow> p_closed p \<and> w' = w \<and> w < length data) \<and>
    (\<not> p_closed p \<and> length (p_buf p) < PIPE_BUF \<and> w < length data \<longrightarrow> w < w')"
  using assms
proof (induction k p data w rule: pipe_send_loop.induct)
  case (1 k p data w)
  show ?case
  proof (cases "w < length data \<and> \<not> p_closed p \<and> length (p_buf p) < PIPE_BUF")
    case True
    let ?n = "min (length data - w) (PIPE_BUF - length (p_buf p))"
    let ?p1 = "p\<lparr>p_buf := p_buf p @ take ?n (drop w data)\<rparr>"
    obtain k2 ws where sg: "condvar_signal k (p_not_empty ?p1) = (k2, ws)" by (rule prod.exhaust)
    let ?p2 = "?p1\<lparr>p_not_empty := ws\<rparr>"
    have r: "pipe_send_loop k2 ?p2 data (w + ?n) = Inr (r, w', k', p')"
      using "1.prems"(1) True sg by (subst (asm) pipe_send_loop.simps) (simp add: Let_def)
    have h: "w + ?n \<le> w' \<and> w' \<le> length data \<and> p_buf p' = p_buf ?p2 @ take (w' - (w + ?n)) (drop (w + ?n) data) \<and>
        length (p_buf p') \<le> PIPE_BUF \<and> p_closed p' = p_closed ?p2 \<and> (r = Some (Inr ()) \<longrightarrow> w' = length data) \<and>
        (r = None \<longrightarrow> w' < length data \<and> length (p_buf p') = PIPE_BUF \<and> \<not> p_closed ?p2) \<and> r \<in> {None, Some (Inr ()), Some (Inl Closed)} \<and>
        (r = Some (Inl Closed) \<longrightarrow> p_closed ?p2 \<and> w' = w + ?n \<and> w + ?n < length data) \<and>
        (\<not> p_closed ?p2 \<and> length (p_buf ?p2) < PIPE_BUF \<and> w + ?n < length data \<longrightarrow> w + ?n < w')"
      by (rule "1.IH" [OF _ _ _ refl _ refl refl sg [symmetric] refl r]) (use True in auto)
    have "p_buf p' = p_buf p @ take (?n + (w' - (w + ?n))) (drop w data)"
      using h unfolding take_take_drop [symmetric] by simp
    moreover have "?n + (w' - (w + ?n)) = w' - w" using h by linarith
    ultimately have "p_buf p' = p_buf p @ take (w' - w) (drop w data)" by (simp only:)
    moreover have "p_closed ?p2 = p_closed p" by simp
    moreover have "w < w'" using h True by linarith
    ultimately show ?thesis using h True by (metis less_imp_le)
  next
    case False
    then show ?thesis
      using "1.prems" by (subst (asm) pipe_send_loop.simps) (auto simp: Let_def split: if_splits)
  qed
qed

definition pipe_put :: "'v kernel \<times> pipe \<Rightarrow> u8 list \<Rightarrow> 'v kernel \<times> pipe \<Rightarrow> bool" where
  "pipe_put s xs s' \<longleftrightarrow> (\<exists>data w r w'. w \<le> length data \<and>
     pipe_send (fst s) (snd s) data w = Inr (r, w', s') \<and> xs = take (w' - w) (drop w data))"

definition pipe_get :: "'v kernel \<times> pipe \<Rightarrow> u8 list \<Rightarrow> 'v kernel \<times> pipe \<Rightarrow> bool" where
  "pipe_get s ys s' \<longleftrightarrow>
     (\<exists>n r. pipe_recv (fst s) (snd s) n = Inr (r, s') \<and> ys = (case r of None \<Rightarrow> [] | Some out \<Rightarrow> out)) \<or>
     ys = [] \<and> (snd s' = snd (pipe_close (fst s) (snd s)) \<or> snd s' = snd s)"

interpretation pch: fifo_channel pipe_put pipe_get "\<lambda>s. p_buf (snd s)" PIPE_BUF
proof unfold_locales
  fix s :: "'v kernel \<times> pipe" and xs s'
  assume "pipe_put s xs s'" "length (p_buf (snd s)) \<le> PIPE_BUF"
  then show "p_buf (snd s') = p_buf (snd s) @ xs \<and> length (p_buf (snd s')) \<le> PIPE_BUF"
    unfolding pipe_put_def pipe_send_def using pipe_send_loop_spec by (metis prod.collapse)
next
  fix s :: "'v kernel \<times> pipe" and ys s'
  assume "pipe_get s ys s'"
  then show "p_buf (snd s) = ys @ p_buf (snd s')"
    by (auto simp: pipe_get_def pipe_recv_def pipe_close_def Let_def split: if_splits prod.splits)
qed

text \<open>
  C23. A pipe is a bounded byte stream: over any interleaving of sends (of any number of senders, resumed
  after waiting), receives, closing and other kernel activity, the bytes received so far followed by the
  bytes in the buffer are exactly the bytes put in so far, in order, and the buffer never exceeds
  \<^verbatim>\<open>PIPE_BUF\<close>.
\<close>

theorem pipe_fifo:
  assumes "channel_run pipe_put pipe_get (k0, pipe_new) sent recvd (k, p)"
  shows "sent = recvd @ p_buf p \<and> length (p_buf p) \<le> PIPE_BUF"
  using pch.run_fifo [OF assms] by (simp add: pipe_new_def)

text \<open>Three bytes sent, one received.\<close>

theorem pipe_fifo_witness:
  "\<exists>k0 k :: unit kernel. \<exists>p. channel_run pipe_put pipe_get (k0, pipe_new) [1, 2, 3] [1] (k, p) \<and> p_buf p = [2, 3]"
proof -
  let ?p = "pipe_new\<lparr>p_buf := [1, 2, 3]\<rparr>"
  fix k :: "unit kernel"
  let ?k1 = "preempt_enable (preempt_disable k)"
  have "pipe_send k pipe_new [1, 2, 3] 0 = Inr (Some (Inr ()), 3, ?k1, ?p)"
    unfolding pipe_send_def
    by (subst pipe_send_loop.simps, subst pipe_send_loop.simps) (simp add: pipe_new_def PIPE_BUF_def condvar_signal_def Let_def)
  then have put: "pipe_put (k, pipe_new) [1, 2, 3] (?k1, ?p)"
    unfolding pipe_put_def by (intro exI [of _ "[1, 2, 3]"] exI [of _ 0] exI [of _ "Some (Inr ())"] exI [of _ 3]) simp
  have get: "pipe_get (?k1, ?p) [1] (preempt_enable (preempt_disable ?k1), pipe_new\<lparr>p_buf := [2, 3]\<rparr>)"
    unfolding pipe_get_def
    by (intro disjI1 exI [of _ 1] exI [of _ "Some [1]"]) (simp add: pipe_recv_def pipe_new_def condvar_signal_def Let_def)
  have "channel_run pipe_put pipe_get (k, pipe_new) ([] @ [1, 2, 3]) [] (?k1, ?p)"
    by (rule channel_run.chan_put, rule channel_run.chan_start, rule put)
  then have run: "channel_run pipe_put pipe_get (k, pipe_new) ([] @ [1, 2, 3]) ([] @ [1])
      (preempt_enable (preempt_disable ?k1), pipe_new\<lparr>p_buf := [2, 3]\<rparr>)"
    using get by (rule channel_run.chan_get)
  have "[] @ [1, 2, 3] = ([] @ [1]) @ p_buf (pipe_new\<lparr>p_buf := [2, 3]\<rparr>)" using pipe_fifo [OF run] by (rule conjunct1)
  then show ?thesis using run by (intro exI conjI) (assumption | simp)+
qed



subsection \<open>Waiting under the table lock\<close>

text \<open>
  The system calls on pipes call \<^verbatim>\<open>send\<close> and \<^verbatim>\<open>recv\<close> while the guard of the handle table is alive
  (\<^verbatim>\<open>if let Some(ch) = IPC_TABLE.lock().get(handle)\<close> keeps its temporary to the end of the block). The
  loop of \<^verbatim>\<open>send\<close> then goes round the following number of times.
\<close>

fun pipe_send_rounds :: "nat \<Rightarrow> 'v kernel \<Rightarrow> pipe \<Rightarrow> u8 list \<Rightarrow> nat \<Rightarrow> ((ipc_error + unit) option \<times> nat \<times> 'v kernel \<times> pipe) res" where
  "pipe_send_rounds 0 k p data w = Inr (None, w, k, p)"
| "pipe_send_rounds (Suc n) k p data w =
     rbind (pipe_send k p data w) (\<lambda>(r, w', k', p').
       case r of None \<Rightarrow> pipe_send_rounds n k' p' data w' | Some _ \<Rightarrow> Inr (r, w', k', p'))"

lemma preempt_nested:
  "preempt_count k + 1 < 2 ^ 32 \<Longrightarrow> preempt_enable (preempt_disable k) = k"
  by (simp add: preempt_enable_def preempt_disable_def)

lemma pipe_send_locked_round:
  assumes "0 < preempt_count k" "preempt_count k + 1 < 2 ^ 32" "current k = Some c"
    and "length (p_buf p) = PIPE_BUF" "\<not> p_closed p" "w < length data"
  shows "\<exists>k' p'. pipe_send k p data w = Inr (None, w, k', p') \<and> current k' = Some c \<and>
    preempt_count k' = preempt_count k \<and> p_buf p' = p_buf p \<and> \<not> p_closed p'"
proof -
  let ?k0 = "preempt_disable k"
  let ?tid = "t_tid (arcs k c)"
  let ?k1 = "preempt_enable (mark_blocked ?k0 ?tid)"
  have f: "current ?k1 = Some c" "preempt_count ?k1 = preempt_count k"
    using assms(1-3) by (auto simp: preempt_disable_def preempt_enable_def mark_blocked_def table_get_def)
  then have "schedule ?k1 = Inr ?k1" using assms(1) by (simp add: schedule_def)
  moreover have "current_tid ?k0 = Inr ?tid" using assms(3) by (simp add: current_tid_def preempt_disable_def)
  ultimately have "condvar_wait ?k0 (p_not_full p) = Inr (?k1, p_not_full p @ [?tid])"
    by (simp add: condvar_wait_def guard_drop_def)
  then have "pipe_send k p data w = Inr (None, w, ?k1, p\<lparr>p_not_full := p_not_full p @ [?tid]\<rparr>)"
    unfolding pipe_send_def using assms(4-6) by (subst pipe_send_loop.simps) simp
  then show ?thesis
    using f assms(5) by (intro exI [of _ ?k1] exI [of _ "p\<lparr>p_not_full := p_not_full p @ [?tid]\<rparr>"]) simp
qed

text \<open>
  A write to a full pipe through the system call never returns: with the preemption counter already
  raised by the guard of the handle table, waiting does not give up the processor. However often the
  loop goes round, the writer is still the running task, still waiting, and the pipe is still full, since
  no reader can run.
\<close>

theorem pipe_write_under_table_lock:
  assumes "0 < preempt_count k" "preempt_count k + 1 < 2 ^ 32" "current k = Some c"
    and "length (p_buf p) = PIPE_BUF" "\<not> p_closed p" "w < length data"
  shows "\<exists>k' p'. pipe_send_rounds n k p data w = Inr (None, w, k', p') \<and> current k' = Some c \<and>
    preempt_count k' = preempt_count k \<and> p_buf p' = p_buf p"
  using assms
proof (induction n arbitrary: k p)
  case (Suc n)
  obtain k1 p1 where r: "pipe_send k p data w = Inr (None, w, k1, p1)" "current k1 = Some c"
    "preempt_count k1 = preempt_count k" "p_buf p1 = p_buf p" "\<not> p_closed p1"
    using pipe_send_locked_round [OF Suc.prems] by blast
  then show ?case using Suc.IH [of k1 p1] Suc.prems by simp
qed simp

theorem pipe_write_under_table_lock_witness:
  "\<exists>k k' :: unit kernel. \<exists>p'. current k = Some 1 \<and>
     pipe_send_rounds 1000 k (pipe_new\<lparr>p_buf := replicate PIPE_BUF 0\<rparr>) [1] 0 = Inr (None, 0, k', p') \<and> current k' = Some 1"
proof -
  obtain k0 :: "unit kernel" where k0: "current k0 = Some 1"
    using sched_init_ok [of "\<lambda>_. 0" "0x10000" "0x40000" "()" "0x1000" "0x2000" "0x3000"] by metis
  let ?k = "k0\<lparr>preempt_count := 1\<rparr>"
  let ?p = "pipe_new\<lparr>p_buf := replicate PIPE_BUF 0\<rparr>"
  have "\<exists>k' p'. pipe_send_rounds 1000 ?k ?p [1] 0 = Inr (None, 0, k', p') \<and> current k' = Some 1 \<and>
      preempt_count k' = preempt_count ?k \<and> p_buf p' = p_buf ?p"
    by (rule pipe_write_under_table_lock) (simp_all add: k0 pipe_new_def)
  then obtain k' p' where "pipe_send_rounds 1000 ?k ?p [1] 0 = Inr (None, 0, k', p')" "current k' = Some 1" by blast
  moreover have "current ?k = Some 1" using k0 by simp
  ultimately show ?thesis by blast
qed

subsection \<open>Message queues are channels\<close>

definition msg_put :: "'v kernel \<times> msg_queue \<Rightarrow> u8 list list \<Rightarrow> 'v kernel \<times> msg_queue \<Rightarrow> bool" where
  "msg_put s xs s' \<longleftrightarrow> (\<exists>data r. msg_send (fst s) (snd s) data = Inr (r, s') \<and>
     xs = (if r = Some (Inr ()) then [pad_msg data] else []))"

definition msg_get :: "'v kernel \<times> msg_queue \<Rightarrow> u8 list list \<Rightarrow> 'v kernel \<times> msg_queue \<Rightarrow> bool" where
  "msg_get s ys s' \<longleftrightarrow>
     (\<exists>r. msg_recv (fst s) (snd s) MSG_SIZE = Inr (r, s') \<and>
        ys = (case (r, q_queue (snd s)) of (Some out, _ # _) \<Rightarrow> [out] | _ \<Rightarrow> [])) \<or>
     ys = [] \<and> (snd s' = snd (msg_close (fst s) (snd s)) \<or> snd s' = snd s)"

lemma length_pad_msg: "length data \<le> MSG_SIZE \<Longrightarrow> length (pad_msg data) = MSG_SIZE"
  by (simp add: pad_msg_def)

interpretation mch: fifo_channel msg_put msg_get "\<lambda>s. map (take MSG_SIZE) (q_queue (snd s))" MAX_MESSAGES
proof unfold_locales
  fix s :: "'v kernel \<times> msg_queue" and xs s'
  assume "msg_put s xs s'" "length (map (take MSG_SIZE) (q_queue (snd s))) \<le> MAX_MESSAGES"
  then show "map (take MSG_SIZE) (q_queue (snd s')) = map (take MSG_SIZE) (q_queue (snd s)) @ xs \<and>
      length (map (take MSG_SIZE) (q_queue (snd s'))) \<le> MAX_MESSAGES"
    using length_pad_msg
    by (auto simp: msg_put_def msg_send_def Let_def split: if_splits prod.splits)
next
  fix s :: "'v kernel \<times> msg_queue" and ys s'
  assume "msg_get s ys s'"
  then show "map (take MSG_SIZE) (q_queue (snd s)) = ys @ map (take MSG_SIZE) (q_queue (snd s'))"
    by (auto simp: msg_get_def msg_recv_def msg_close_def Let_def split: if_splits prod.splits list.splits)
qed

text \<open>
  A message queue delivers messages in order: over any interleaving of operations on a new queue, the
  messages received in full so far followed by those queued are the messages accepted so far, each padded
  with zeros to \<^verbatim>\<open>MSG_SIZE\<close> bytes, and at most \<^verbatim>\<open>MAX_MESSAGES\<close> are queued.
\<close>

theorem message_queue_fifo:
  assumes "channel_run msg_put msg_get (k0, msg_queue_new) sent recvd (k, q)"
  shows "sent = recvd @ map (take MSG_SIZE) (q_queue q) \<and> length (q_queue q) \<le> MAX_MESSAGES"
  using mch.run_fifo [OF assms] by (simp add: msg_queue_new_def)

theorem message_queue_fifo_witness:
  "\<exists>k0 k :: unit kernel. \<exists>q. channel_run msg_put msg_get (k0, msg_queue_new) [pad_msg [7]] [] (k, q) \<and>
     map (take MSG_SIZE) (q_queue q) = [pad_msg [7]]"
proof -
  fix k :: "unit kernel"
  let ?k1 = "preempt_enable (preempt_disable k)" and ?q = "msg_queue_new\<lparr>q_queue := [pad_msg [7]]\<rparr>"
  have "msg_send k msg_queue_new [7] = Inr (Some (Inr ()), ?k1, ?q)"
    by (simp add: msg_send_def msg_queue_new_def condvar_signal_def MSG_SIZE_def MAX_MESSAGES_def Let_def)
  then have put: "msg_put (k, msg_queue_new) [pad_msg [7]] (?k1, ?q)"
    unfolding msg_put_def by (intro exI [of _ "[7]"] exI [of _ "Some (Inr ())"]) simp
  have "channel_run msg_put msg_get (k, msg_queue_new) ([] @ [pad_msg [7]]) [] (?k1, ?q)"
    by (rule channel_run.chan_put, rule channel_run.chan_start, rule put)
  then have run: "channel_run msg_put msg_get (k, msg_queue_new) [pad_msg [7]] [] (?k1, ?q)" by simp
  from message_queue_fifo [OF run] have "map (take MSG_SIZE) (q_queue ?q) = [pad_msg [7]]" by simp
  then show ?thesis using run by (intro exI [of _ k] exI [of _ ?k1] exI [of _ ?q]) simp
qed

end
