(* ===== verification/Fifo.thy ===== *)
theory Fifo
  imports Prelude
begin

text \<open>
  The contract of the kernel's bounded queues: a full queue ignores a push, elements leave in
  the order they entered.
\<close>

fun push_all :: "('s \<Rightarrow> 'a \<Rightarrow> 's res) \<Rightarrow> 's \<Rightarrow> 'a list \<Rightarrow> 's res" where
  "push_all push s [] = Inr s"
| "push_all push s (x # xs) = rbind (push s x) (\<lambda>s'. push_all push s' xs)"

fun pop_n :: "('s \<Rightarrow> ('a option \<times> 's) res) \<Rightarrow> nat \<Rightarrow> 's \<Rightarrow> ('a option list \<times> 's) res" where
  "pop_n pop 0 s = Inr ([], s)"
| "pop_n pop (Suc n) s = rbind (pop s) (\<lambda>(x, s1). rbind (pop_n pop n s1) (\<lambda>(xs, s2). Inr (x # xs, s2)))"

locale bounded_fifo =
  fixes push :: "'s \<Rightarrow> 'a \<Rightarrow> 's res"
    and pop :: "'s \<Rightarrow> ('a option \<times> 's) res"
    and rep :: "'s \<Rightarrow> 'a list \<Rightarrow> bool"
    and cap :: nat
  assumes push_rep: "rep s xs \<Longrightarrow> \<exists>s'. push s x = Inr s' \<and> rep s' (if length xs < cap then xs @ [x] else xs)"
    and pop_Nil: "rep s [] \<Longrightarrow> pop s = Inr (None, s)"
    and pop_Cons: "rep s (x # xs) \<Longrightarrow> \<exists>s'. pop s = Inr (Some x, s') \<and> rep s' xs"
    and rep_cap: "rep s xs \<Longrightarrow> length xs \<le> cap"
begin

lemma push_all_rep:
  "rep s xs \<Longrightarrow> \<exists>s'. push_all push s ys = Inr s' \<and> rep s' (xs @ take (cap - length xs) ys)"
proof (induction ys arbitrary: s xs)
  case Nil
  then show ?case by simp
next
  case (Cons y ys)
  obtain s1 where s1: "push s y = Inr s1" "rep s1 (if length xs < cap then xs @ [y] else xs)"
    using push_rep [OF Cons.prems] by blast
  have "length xs \<le> cap" using Cons.prems by (rule rep_cap)
  show ?case
  proof (cases "length xs < cap")
    case True
    then have "take (cap - length xs) (y # ys) = y # take (cap - length (xs @ [y])) ys"
      by (simp add: take_Cons')
    then show ?thesis using True Cons.IH [OF s1(2)] s1(1) by auto
  next
    case False
    then show ?thesis using Cons.IH [OF s1(2)] s1(1) by auto
  qed
qed

lemma pop_n_rep:
  "rep s xs \<Longrightarrow> \<exists>s'. pop_n pop n s = Inr (map Some (take n xs) @ replicate (n - length xs) None, s') \<and> rep s' (drop n xs)"
proof (induction n arbitrary: s xs)
  case 0
  then show ?case by simp
next
  case (Suc n)
  show ?case
  proof (cases xs)
    case Nil
    then show ?thesis using Suc.IH [of s "[]"] Suc.prems pop_Nil by auto
  next
    case (Cons x ys)
    then obtain s1 where "pop s = Inr (Some x, s1)" "rep s1 ys" using pop_Cons Suc.prems by blast
    then show ?thesis using Suc.IH [of s1 ys] Cons by auto
  qed
qed

lemma push_then_pop:
  assumes "rep s []"
  shows "\<exists>s' s''. push_all push s ys = Inr s' \<and>
    pop_n pop n s' = Inr (map Some (take n (take cap ys)) @ replicate (n - length (take cap ys)) None, s'')"
  using push_all_rep [OF assms, of ys] pop_n_rep [of _ "take cap ys" n] by fastforce

end

end
