(* ===== verification/Console.thy ===== *)
theory Console
  imports Fifo
begin

text \<open>
  Keyboard input: the scancode ring of \<^verbatim>\<open>arch/interrupts.rs\<close>, filled by the keyboard interrupt and
  emptied by the console, and the line discipline of \<^verbatim>\<open>io/console.rs\<close>; with it the device table
  of \<^verbatim>\<open>io/device.rs\<close>. Bytes sent to the serial port are the list \<open>con_serial\<close>.
\<close>

unbundle bit_operations_syntax

subsection \<open>The scancode ring\<close>

record ring =
  scancode_buf :: "u8 list"
  scancode_head :: nat
  scancode_tail :: nat

definition ring_empty :: ring where
  "ring_empty = \<lparr>scancode_buf = replicate 256 0, scancode_head = 0, scancode_tail = 0\<rparr>"

definition push_scancode :: "ring \<Rightarrow> u8 \<Rightarrow> ring res" where
  "push_scancode r scancode =
     rbind (add_u64 (scancode_tail r) 1) (\<lambda>t.
     let next_tail = t mod 256
     in if next_tail \<noteq> scancode_head r then
          if scancode_tail r \<ge> length (scancode_buf r) then Inl IndexOutOfBounds
          else Inr (r\<lparr>scancode_buf := (scancode_buf r)[scancode_tail r := scancode], scancode_tail := next_tail\<rparr>)
        else Inr r)"

definition pop_scancode :: "ring \<Rightarrow> (u8 option \<times> ring) res" where
  "pop_scancode r =
     (if scancode_head r = scancode_tail r then Inr (None, r)
      else if scancode_head r \<ge> length (scancode_buf r) then Inl IndexOutOfBounds
      else rbind (add_u64 (scancode_head r) 1) (\<lambda>h.
           Inr (Some (scancode_buf r ! scancode_head r), r\<lparr>scancode_head := h mod 256\<rparr>)))"

subsection \<open>The console\<close>

definition SCANCODE_TO_ASCII :: "u8 list" where
  "SCANCODE_TO_ASCII = [
     0, 0, 49, 50, 51, 52, 53, 54, 55, 56,
     57, 48, 45, 61, 8, 9,
     113, 119, 101, 114, 116, 121, 117, 105, 111, 112,
     91, 93, 10, 0,
     97, 115, 100, 102, 103, 104, 106, 107, 108,
     59, 39, 96, 0, 92,
     122, 120, 99, 118, 98, 110, 109,
     44, 46, 47, 0, 0, 0, 32]"

record console =
  con_line_buf :: "u8 list"
  con_line_len :: nat
  con_ready_buf :: "u8 list"
  con_ready_len :: nat
  con_ready_pos :: nat
  con_serial :: "u8 list"

definition console_new :: console where
  "console_new = \<lparr>con_line_buf = replicate 256 0, con_line_len = 0, con_ready_buf = replicate 256 0,
     con_ready_len = 0, con_ready_pos = 0, con_serial = []\<rparr>"

definition decode_scancode :: "u8 \<Rightarrow> u8 option" where
  "decode_scancode code =
     (if code AND 0x80 \<noteq> 0 then None
      else if unat code < length SCANCODE_TO_ASCII then
        let c = SCANCODE_TO_ASCII ! unat code in if c \<noteq> 0 then Some c else None
      else None)"

text \<open>The body of \<^verbatim>\<open>drain_scancodes\<close> for one decoded character.\<close>

definition accept_char :: "console \<Rightarrow> u8 \<Rightarrow> console res" where
  "accept_char c ch =
     (let c1 = (if con_line_len c < length (con_line_buf c)
                then c\<lparr>con_line_buf := (con_line_buf c)[con_line_len c := ch], con_line_len := con_line_len c + 1,
                       con_serial := con_serial c @ [ch]\<rparr>
                else c)
      in if ch = 10 then
           if length (con_ready_buf c1) < con_line_len c1 \<or> length (con_line_buf c1) < con_line_len c1
           then Inl IndexOutOfBounds
           else Inr (c1\<lparr>con_ready_buf := overwrite (con_ready_buf c1) 0 (take (con_line_len c1) (con_line_buf c1)),
                        con_ready_len := con_line_len c1, con_ready_pos := 0, con_line_len := 0\<rparr>)
         else Inr c1)"

partial_function (option) drain_scancodes :: "console \<Rightarrow> ring \<Rightarrow> (console \<times> ring) res option" where
  "drain_scancodes c r =
     (case pop_scancode r of
        Inl e \<Rightarrow> Some (Inl e)
      | Inr (popped, r') \<Rightarrow>
          (case popped of
             None \<Rightarrow> Some (Inr (c, r'))
           | Some code \<Rightarrow>
               (case decode_scancode code of
                  None \<Rightarrow> drain_scancodes c r'
                | Some ch \<Rightarrow>
                    (case accept_char c ch of Inl e \<Rightarrow> Some (Inl e) | Inr c' \<Rightarrow> drain_scancodes c' r'))))"

definition take_ready :: "console \<Rightarrow> (u8 option \<times> console) res" where
  "take_ready c =
     (if con_ready_pos c < con_ready_len c then
        if con_ready_pos c \<ge> length (con_ready_buf c) then Inl IndexOutOfBounds
        else Inr (Some (con_ready_buf c ! con_ready_pos c), c\<lparr>con_ready_pos := con_ready_pos c + 1\<rparr>)
      else Inr (None, c))"

definition console_get :: "console \<Rightarrow> ring \<Rightarrow> ((u8 option \<times> console \<times> ring) res) option" where
  "console_get c r =
     (case take_ready c of
        Inl e \<Rightarrow> Some (Inl e)
      | Inr (Some ch, c') \<Rightarrow> Some (Inr (Some ch, c', r))
      | Inr (None, c') \<Rightarrow>
          (case drain_scancodes c' r of
             None \<Rightarrow> None
           | Some (Inl e) \<Rightarrow> Some (Inl e)
           | Some (Inr (c2, r2)) \<Rightarrow> Some (rbind (take_ready c2) (\<lambda>(v, c3). Inr (v, c3, r2)))))"

definition console_put :: "console \<Rightarrow> u8 \<Rightarrow> console" where
  "console_put c byte = c\<lparr>con_serial := con_serial c @ [byte]\<rparr>"

subsection \<open>The device table\<close>

record device_status =
  ds_name :: string
  ds_blocking :: bool

type_synonym device_table = "device_status list"

definition DEV_FD_OFFSET :: nat where
  "DEV_FD_OFFSET = 0x10000"

definition device_register :: "device_table \<Rightarrow> string \<Rightarrow> nat \<times> device_table" where
  "device_register t name = (length t, t @ [\<lparr>ds_name = name, ds_blocking = True\<rparr>])"

fun device_find :: "device_table \<Rightarrow> string \<Rightarrow> nat option" where
  "device_find [] name = None"
| "device_find (e # es) name = (if ds_name e = name then Some 0 else map_option Suc (device_find es name))"

definition device_get :: "device_table \<Rightarrow> nat \<Rightarrow> device_status option" where
  "device_get t idx = (if idx < length t then Some (t ! idx) else None)"

definition device_is_blocking :: "device_table \<Rightarrow> nat \<Rightarrow> bool" where
  "device_is_blocking t idx = (case device_get t idx of Some e \<Rightarrow> ds_blocking e | None \<Rightarrow> True)"

subsection \<open>The ring is a bounded queue\<close>

definition ring_ok :: "ring \<Rightarrow> bool" where
  "ring_ok r \<longleftrightarrow> length (scancode_buf r) = 256 \<and> scancode_head r < 256 \<and> scancode_tail r < 256"

definition ring_count :: "nat \<Rightarrow> nat \<Rightarrow> nat" where
  "ring_count h t = (if h \<le> t then t - h else t + 256 - h)"

definition ring_contents :: "ring \<Rightarrow> u8 list" where
  "ring_contents r = map (\<lambda>k. scancode_buf r ! ((scancode_head r + k) mod 256))
     [0 ..< ring_count (scancode_head r) (scancode_tail r)]"

definition ring_rep :: "ring \<Rightarrow> u8 list \<Rightarrow> bool" where
  "ring_rep r xs \<longleftrightarrow> ring_ok r \<and> ring_contents r = xs"

lemma wrap_add: "a < 256 \<Longrightarrow> b \<le> 256 \<Longrightarrow> (a + b) mod 256 = (if a + b < 256 then a + b else a + b - 256)" for a b :: nat
  using le_mod_geq [of 256 "a + b"] by simp

lemma succ_mod: "n < 256 \<Longrightarrow> (n + 1) mod 256 = (if n = 255 then 0 else n + 1)" for n :: nat
  using wrap_add [of n 1] by auto

lemma pop_scancode_Nil:
  assumes "ring_rep r []"
  shows "pop_scancode r = Inr (None, r)"
proof -
  have "ring_count (scancode_head r) (scancode_tail r) = 0" "scancode_head r < 256"
    using assms by (simp_all add: ring_rep_def ring_contents_def ring_ok_def)
  then have "scancode_head r = scancode_tail r" by (auto simp: ring_count_def split: if_splits)
  then show ?thesis by (simp add: pop_scancode_def)
qed

lemma pop_scancode_Cons:
  assumes "ring_rep r (x # xs)"
  shows "\<exists>r'. pop_scancode r = Inr (Some x, r') \<and> ring_rep r' xs"
proof -
  let ?h = "scancode_head r" and ?t = "scancode_tail r" and ?b = "scancode_buf r"
  have ok: "length ?b = 256" "?h < 256" "?t < 256" using assms by (auto simp: ring_rep_def ring_ok_def)
  let ?n = "ring_count ?h ?t"
  have c: "map (\<lambda>k. ?b ! ((?h + k) mod 256)) [0 ..< ?n] = x # xs"
    using assms by (simp add: ring_rep_def ring_contents_def)
  then obtain n where n: "?n = Suc n" by (cases ?n) auto
  then have ne: "?h \<noteq> ?t" by (auto simp: ring_count_def)
  have n': "ring_count ((?h + 1) mod 256) ?t = n"
    unfolding succ_mod [OF ok(2)] using n ok ne by (auto simp: ring_count_def split: if_splits)
  have up: "[0 ..< Suc n] = 0 # map Suc [0 ..< n]" by (simp add: upt_conv_Cons map_Suc_upt del: upt_Suc)
  have x: "x = ?b ! ?h" and xs: "xs = map (\<lambda>k. ?b ! ((?h + Suc k) mod 256)) [0 ..< n]"
    using c ok unfolding n up by auto
  have "((?h + 1) mod 256 + k) mod 256 = (?h + Suc k) mod 256" for k
    by (simp add: mod_add_left_eq)
  then have "ring_contents (r\<lparr>scancode_head := (?h + 1) mod 256\<rparr>) = xs"
    using n' xs by (simp add: ring_contents_def)
  moreover have "pop_scancode r = Inr (Some x, r\<lparr>scancode_head := (?h + 1) mod 256\<rparr>)"
    using ok ne x by (simp add: pop_scancode_def add_u64_def U64_LIMIT_def)
  moreover have "ring_ok (r\<lparr>scancode_head := (?h + 1) mod 256\<rparr>)" using ok by (simp add: ring_ok_def)
  ultimately show ?thesis by (auto simp: ring_rep_def)
qed

lemma push_scancode_rep:
  assumes "ring_rep r xs"
  shows "\<exists>r'. push_scancode r x = Inr r' \<and> ring_rep r' (if length xs < 255 then xs @ [x] else xs)"
proof -
  let ?h = "scancode_head r" and ?t = "scancode_tail r" and ?b = "scancode_buf r"
  have ok: "length ?b = 256" "?h < 256" "?t < 256" using assms by (auto simp: ring_rep_def ring_ok_def)
  let ?n = "ring_count ?h ?t"
  have xs: "xs = map (\<lambda>k. ?b ! ((?h + k) mod 256)) [0 ..< ?n]"
    using assms by (simp add: ring_rep_def ring_contents_def)
  have a: "add_u64 ?t 1 = Inr (?t + 1)" using ok by (simp add: U64_LIMIT_def)
  show ?thesis
  proof (cases "(?t + 1) mod 256 = ?h")
    case True
    then have "?n = 255" using ok unfolding succ_mod [OF ok(3)] by (auto simp: ring_count_def split: if_splits)
    then show ?thesis using assms xs True unfolding push_scancode_def a by simp
  next
    case False
    let ?r = "r\<lparr>scancode_buf := ?b[?t := x], scancode_tail := (?t + 1) mod 256\<rparr>"
    have n': "ring_count ?h ((?t + 1) mod 256) = Suc ?n" and lt: "?n < 255"
      using ok False unfolding succ_mod [OF ok(3)] by (auto simp: ring_count_def split: if_splits)
    have old: "(?h + k) mod 256 \<noteq> ?t" if "k < ?n" for k
      using ok that lt wrap_add [of ?h k] by (auto simp: ring_count_def split: if_splits)
    have new: "(?h + ?n) mod 256 = ?t"
      using ok lt wrap_add [of ?h ?n] by (auto simp: ring_count_def split: if_splits)
    have "?b[?t := x] ! ((?h + k) mod 256) = ?b ! ((?h + k) mod 256)" if "k < ?n" for k
      using old [OF that] by simp
    then have "ring_contents ?r = xs @ [x]"
      unfolding ring_contents_def using ok n' new by (simp add: xs)
    moreover have "ring_ok ?r" using ok by (simp add: ring_ok_def)
    moreover have "push_scancode r x = Inr ?r" using ok False unfolding push_scancode_def a by simp
    ultimately show ?thesis using lt xs by (auto simp: ring_rep_def)
  qed
qed

interpretation sc: bounded_fifo push_scancode pop_scancode ring_rep 255
proof unfold_locales
  show "\<exists>r'. push_scancode r x = Inr r' \<and> ring_rep r' (if length xs < 255 then xs @ [x] else xs)"
    if "ring_rep r xs" for r xs x using that by (rule push_scancode_rep)
  show "pop_scancode r = Inr (None, r)" if "ring_rep r []" for r using that by (rule pop_scancode_Nil)
  show "\<exists>r'. pop_scancode r = Inr (Some x, r') \<and> ring_rep r' xs" if "ring_rep r (x # xs)" for r x xs
    using that by (rule pop_scancode_Cons)
  show "length xs \<le> 255" if "ring_rep r xs" for r xs
    using that by (auto simp: ring_rep_def ring_contents_def ring_ok_def ring_count_def)
qed

subsection \<open>The line discipline\<close>

definition console_ok :: "console \<Rightarrow> bool" where
  "console_ok c \<longleftrightarrow> length (con_line_buf c) = 256 \<and> length (con_ready_buf c) = 256 \<and>
     con_line_len c \<le> 256 \<and> con_ready_len c \<le> 256"

definition typed :: "ring \<Rightarrow> u8 list" where
  "typed r = List.map_filter decode_scancode (ring_contents r)"

fun accept_all :: "console \<Rightarrow> u8 list \<Rightarrow> console res" where
  "accept_all c [] = Inr c"
| "accept_all c (ch # chs) = rbind (accept_char c ch) (\<lambda>c'. accept_all c' chs)"

fun console_gets :: "nat \<Rightarrow> console \<Rightarrow> ring \<Rightarrow> ((u8 option list \<times> console \<times> ring) res) option" where
  "console_gets 0 c r = Some (Inr ([], c, r))"
| "console_gets (Suc n) c r =
     (case console_get c r of
        None \<Rightarrow> None
      | Some (Inl e) \<Rightarrow> Some (Inl e)
      | Some (Inr (v, c1, r1)) \<Rightarrow>
          (case console_gets n c1 r1 of
             None \<Rightarrow> None
           | Some (Inl e) \<Rightarrow> Some (Inl e)
           | Some (Inr (vs, c2, r2)) \<Rightarrow> Some (Inr (v # vs, c2, r2))))"

lemma accept_all_append [simp]: "accept_all c (xs @ ys) = rbind (accept_all c xs) (\<lambda>c'. accept_all c' ys)"
proof (induction xs arbitrary: c)
  case (Cons x xs)
  then show ?case by (cases "accept_char c x") simp_all
qed simp

lemma drain_accepts:
  "ring_rep r xs \<Longrightarrow> \<exists>r'. ring_rep r' [] \<and>
     drain_scancodes c r = Some (rbind (accept_all c (List.map_filter decode_scancode xs)) (\<lambda>c'. Inr (c', r')))"
proof (induction xs arbitrary: c r)
  case Nil
  then show ?case
    using pop_scancode_Nil [OF Nil] by (intro exI [of _ r]) (simp add: drain_scancodes.simps [of c r])
next
  case (Cons x xs)
  obtain r1 where r1: "pop_scancode r = Inr (Some x, r1)" "ring_rep r1 xs"
    using pop_scancode_Cons [OF Cons.prems] by blast
  show ?case
  proof (cases "decode_scancode x")
    case None
    then show ?thesis using Cons.IH [OF r1(2), of c] r1(1)
      by (simp add: drain_scancodes.simps [of c r] List.map_filter_simps)
  next
    case (Some ch)
    show ?thesis
    proof (cases "accept_char c ch")
      case (Inl e)
      then show ?thesis using Cons.IH [OF r1(2), of c] r1(1) Some
        by (auto simp: drain_scancodes.simps [of c r] List.map_filter_simps)
    next
      case (Inr c')
      then show ?thesis using Cons.IH [OF r1(2), of c'] r1(1) Some
        by (simp add: drain_scancodes.simps [of c r] List.map_filter_simps)
    qed
  qed
qed

lemma accept_char_ok:
  assumes "console_ok c"
  shows "\<exists>c'. accept_char c ch = Inr c' \<and> console_ok c' \<and> (ch = 10 \<longrightarrow> con_line_len c' = 0)"
  using assms by (auto simp: accept_char_def console_ok_def Let_def)

lemma accept_all_ok: "console_ok c \<Longrightarrow> \<exists>c'. accept_all c chs = Inr c' \<and> console_ok c'"
proof (induction chs arbitrary: c)
  case (Cons ch chs)
  then show ?case using accept_char_ok [OF Cons.prems, of ch] by fastforce
qed simp

lemma take_update_snoc: "n < length xs \<Longrightarrow> take (Suc n) (xs[n := y]) = take n xs @ [y]"
  by (simp add: take_Suc_conv_app_nth)

lemma accept_text:
  "console_ok c \<Longrightarrow> 10 \<notin> set w \<Longrightarrow> con_line_len c + length w \<le> 256 \<Longrightarrow>
   \<exists>c'. accept_all c w = Inr c' \<and> console_ok c' \<and> con_line_len c' = con_line_len c + length w \<and>
     take (con_line_len c') (con_line_buf c') = take (con_line_len c) (con_line_buf c) @ w \<and>
     con_serial c' = con_serial c @ w"
proof (induction w arbitrary: c)
  case (Cons ch w)
  let ?c = "c\<lparr>con_line_buf := (con_line_buf c)[con_line_len c := ch], con_line_len := con_line_len c + 1,
     con_serial := con_serial c @ [ch]\<rparr>"
  have a: "accept_char c ch = Inr ?c" using Cons.prems by (simp add: accept_char_def console_ok_def)
  have "console_ok ?c" using Cons.prems by (simp add: console_ok_def)
  with Cons.IH [of ?c] a Cons.prems show ?case by (auto simp: take_update_snoc console_ok_def)
qed simp

lemma accept_line:
  assumes "console_ok c" "con_line_len c = 0" "10 \<notin> set w" "length w < 256"
  shows "\<exists>c'. accept_all c (w @ [10]) = Inr c' \<and> console_ok c' \<and> con_ready_pos c' = 0 \<and> con_line_len c' = 0 \<and>
     con_ready_len c' = length w + 1 \<and> take (length w + 1) (con_ready_buf c') = w @ [10] \<and>
     con_serial c' = con_serial c @ w @ [10]"
proof -
  obtain c1 where c1: "accept_all c w = Inr c1" "console_ok c1" "con_line_len c1 = length w"
    "take (length w) (con_line_buf c1) = w" "con_serial c1 = con_serial c @ w"
    using accept_text [OF assms(1,3)] assms(2,4) by auto
  then show ?thesis
    using assms(4) by (auto simp: accept_char_def console_ok_def Let_def take_update_snoc overwrite_def)
qed

lemma gets_ready:
  "console_ok c \<Longrightarrow> ring_rep r [] \<Longrightarrow> con_ready_pos c + length w = con_ready_len c \<Longrightarrow>
   drop (con_ready_pos c) (take (con_ready_len c) (con_ready_buf c)) = w \<Longrightarrow>
   \<exists>c'. console_gets (Suc (length w)) c r = Some (Inr (map Some w @ [None], c', r))"
proof (induction w arbitrary: c)
  case Nil
  then have t: "take_ready c = Inr (None, c)" by (simp add: take_ready_def)
  obtain r' where r': "ring_rep r' []" "drain_scancodes c r = Some (Inr (c, r'))"
    using drain_accepts [OF Nil.prems(2), of c] by (auto simp: List.map_filter_simps)
  have "drain_scancodes c r = Some (Inr (c, r))"
    using pop_scancode_Nil [OF Nil.prems(2)] by (simp add: drain_scancodes.simps [of c r])
  then show ?case using t by (simp add: console_get_def)
next
  case (Cons ch w)
  let ?c = "c\<lparr>con_ready_pos := con_ready_pos c + 1\<rparr>"
  have p: "con_ready_pos c < con_ready_len c" using Cons.prems(3) by simp
  have b: "con_ready_buf c ! con_ready_pos c = ch" "drop (Suc (con_ready_pos c)) (take (con_ready_len c) (con_ready_buf c)) = w"
    using Cons.prems(1,4) p by (auto simp: console_ok_def Cons_nth_drop_Suc [symmetric])
  have t: "take_ready c = Inr (Some ch, ?c)"
    using p b(1) Cons.prems(1) by (auto simp: take_ready_def console_ok_def)
  then have g: "console_get c r = Some (Inr (Some ch, ?c, r))" by (simp add: console_get_def)
  obtain c' where "console_gets (Suc (length w)) ?c r = Some (Inr (map Some w @ [None], c', r))"
    using Cons.IH [of ?c] Cons.prems b(2) by (auto simp: console_ok_def)
  with g show ?case by (simp del: console_gets.simps(2) add: console_gets.simps(2) [of "Suc (length w)"])
qed

lemma get_after_drain:
  assumes "con_ready_len c \<le> con_ready_pos c" "drain_scancodes c r = Some (Inr (c2, r2))"
    and "console_ok c2" "con_ready_pos c2 < con_ready_len c2"
  shows "console_gets (Suc n) c r = console_gets (Suc n) c2 r2"
proof -
  have "console_get c r = console_get c2 r2"
    using assms by (simp add: console_get_def take_ready_def console_ok_def)
  then show ?thesis by simp
qed

subsection \<open>Properties\<close>

text \<open>
  The scancode ring is a first-in-first-out queue of 255 entries: after any burst of
  keyboard interrupts, popping returns the first 255 scancodes in order and then nothing.
\<close>

theorem scancode_ring_fifo:
  "\<exists>r r'. push_all push_scancode ring_empty codes = Inr r \<and>
     pop_n pop_scancode n r =
       Inr (map Some (take n (take 255 codes)) @ replicate (n - length (take 255 codes)) None, r')"
proof (rule sc.push_then_pop)
  show "ring_rep ring_empty []" by (simp add: ring_rep_def ring_ok_def ring_contents_def ring_count_def ring_empty_def)
qed

text \<open>
  The console delivers one line per drain: when the pending scancodes decode to some
  complete lines \<open>pre\<close> followed by a line \<open>w\<close> of at most 255 characters and its newline, the
  reads return exactly \<open>w\<close> and the newline, then nothing. The earlier lines \<open>pre\<close> are lost.
\<close>

theorem console_delivers_last_line:
  assumes "console_ok c" "con_line_len c = 0" "con_ready_len c \<le> con_ready_pos c" "ring_ok r"
    and "typed r = pre @ w @ [10]" "pre = [] \<or> last pre = 10" "10 \<notin> set w" "length w < 256"
  shows "\<exists>c' r'. console_gets (length w + 2) c r = Some (Inr (map Some (w @ [10]) @ [None], c', r'))"
proof -
  obtain r2 where r2: "ring_rep r2 []"
    "drain_scancodes c r = Some (rbind (accept_all c (pre @ w @ [10])) (\<lambda>c'. Inr (c', r2)))"
    using drain_accepts [of r "ring_contents r" c] assms(4,5) by (auto simp: ring_rep_def typed_def)
  have "\<exists>c1. accept_all c pre = Inr c1 \<and> console_ok c1 \<and> con_line_len c1 = 0"
  proof (cases pre rule: rev_cases)
    case Nil
    then show ?thesis using assms(1,2) by simp
  next
    case (snoc qs q)
    then have "q = 10" using assms(6) by simp
    moreover obtain c0 where "accept_all c qs = Inr c0" "console_ok c0" using accept_all_ok [OF assms(1)] by blast
    ultimately show ?thesis using accept_char_ok [of c0 10] snoc by auto
  qed
  then obtain c1 where c1: "accept_all c pre = Inr c1" "console_ok c1" "con_line_len c1 = 0" by blast
  obtain c2 where c2: "accept_all c1 (w @ [10]) = Inr c2" "console_ok c2" "con_ready_pos c2 = 0"
    "con_ready_len c2 = length w + 1" "take (length w + 1) (con_ready_buf c2) = w @ [10]"
    using accept_line [OF c1(2,3) assms(7,8)] by blast
  have d: "drain_scancodes c r = Some (Inr (c2, r2))" using r2(2) c1(1) c2(1) by simp
  have "console_gets (Suc (length (w @ [10]))) c r = console_gets (Suc (length (w @ [10]))) c2 r2"
    using get_after_drain [OF assms(3) d c2(2)] c2(3,4) by simp
  moreover obtain c' where "console_gets (Suc (length (w @ [10]))) c2 r2 = Some (Inr (map Some (w @ [10]) @ [None], c', r2))"
    using gets_ready [OF c2(2) r2(1), of "w @ [10]"] c2(3-5) by auto
  moreover have "length w + 2 = Suc (length (w @ [10]))" by simp
  ultimately show ?thesis by metis
qed

definition example_ring :: ring where
  "example_ring = \<lparr>scancode_buf = [0x1E, 0x1C, 0x9E, 0x30, 0x1C] @ replicate 251 0, scancode_head = 0, scancode_tail = 5\<rparr>"

theorem console_delivers_last_line_witness:
  "\<exists>c' r'. console_gets (length [98 :: u8] + 2) console_new example_ring = Some (Inr (map Some ([98] @ [10]) @ [None], c', r'))"
proof (rule console_delivers_last_line [where pre = "[97, 10]"])
  have "[0 ..< 5] = [0, 1, 2, 3, 4 :: nat]" by (simp add: upt_rec)
  then have "ring_contents example_ring = [0x1E, 0x1C, 0x9E, 0x30, 0x1C]"
    by (simp add: ring_contents_def ring_count_def example_ring_def)
  moreover have "decode_scancode 0x1E = Some 97" "decode_scancode 0x1C = Some 10" "decode_scancode 0x9E = None"
    "decode_scancode 0x30 = Some 98"
    by (simp_all add: decode_scancode_def SCANCODE_TO_ASCII_def)
  ultimately show "typed example_ring = [97, 10] @ [98] @ [10]" by (simp add: typed_def List.map_filter_simps)
qed (simp_all add: console_ok_def console_new_def example_ring_def ring_ok_def)

end
