(* ===== verification/Context.thy ===== *)
theory Context
  imports Task
begin

text \<open>
  The assembly of the kernel: the context switch \<^verbatim>\<open>switch_to\<close> (\<^verbatim>\<open>arch/context.rs\<close>), the system-call entry
  \<^verbatim>\<open>syscall_entry\<close> (\<^verbatim>\<open>arch/syscall.rs\<close>) and the trampoline of new tasks (\<^verbatim>\<open>process/task.rs\<close>), run on a
  processor with the registers and the instructions they use. A field of a task is at an offset the compiler
  chooses, so the offsets are arguments; what a \<^verbatim>\<open>call\<close> does is a function of the environment.
\<close>

unbundle bit_operations_syntax

datatype reg = RAX | RBX | RCX | RDX | RSI | RDI | RBP | RSP | R8 | R9 | R10 | R11 | R12 | R13 | R14 | R15

record cpu =
  regs :: "reg \<Rightarrow> u64"
  mem :: memory
  rip :: u64
  zf :: bool
  if_flag :: bool
  cr3 :: u64
  gs_base :: u64
  kernel_gs_base :: u64

datatype instr =
    Push reg | Pop reg | PushGs u64
  | Mov reg reg | MovImm32 reg u32
  | Load reg reg u64 | Store reg u64 reg        \<comment> \<open>\<^verbatim>\<open>mov r, [b + off]\<close> and \<^verbatim>\<open>mov [b + off], r\<close>\<close>
  | LoadGs reg u64 | StoreGs u64 reg
  | Lea reg reg u64 | Shr reg nat
  | Test reg reg | Cmp reg reg | Jz nat | Label nat
  | LoadCr3 reg | StoreCr3 reg | Wrmsr | Swapgs | Sti
  | Call string | Ret | Sysretq

definition load :: "cpu \<Rightarrow> u64 \<Rightarrow> u64" where
  "load s a = load_u64 (mem s) (unat a)"

definition store :: "u64 \<Rightarrow> u64 \<Rightarrow> cpu \<Rightarrow> cpu" where
  "store a v s = s\<lparr>mem := store_u64 (mem s) (unat a) v\<rparr>"

definition set_reg :: "reg \<Rightarrow> u64 \<Rightarrow> cpu \<Rightarrow> cpu" where
  "set_reg r v s = s\<lparr>regs := (regs s)(r := v)\<rparr>"

definition push :: "u64 \<Rightarrow> cpu \<Rightarrow> cpu" where
  "push v s = (let a = regs s RSP - 8 in set_reg RSP a (store a v s))"

definition IA32_KERNEL_GS_BASE :: u32 where
  "IA32_KERNEL_GS_BASE = 0xC0000102"

text \<open>The effect of an instruction that does not jump.\<close>

fun step :: "(string \<Rightarrow> cpu \<Rightarrow> cpu) \<Rightarrow> instr \<Rightarrow> cpu \<Rightarrow> cpu" where
  "step e (Push r) s = push (regs s r) s"
| "step e (Pop r) s = (let v = load s (regs s RSP) in set_reg r v (set_reg RSP (regs s RSP + 8) s))"
| "step e (PushGs off) s = push (load s (gs_base s + off)) s"
| "step e (Mov d r) s = set_reg d (regs s r) s"
| "step e (MovImm32 d v) s = set_reg d (ucast v) s"
| "step e (Load d b off) s = set_reg d (load s (regs s b + off)) s"
| "step e (Store b off r) s = store (regs s b + off) (regs s r) s"
| "step e (LoadGs d off) s = set_reg d (load s (gs_base s + off)) s"
| "step e (StoreGs off r) s = store (gs_base s + off) (regs s r) s"
| "step e (Lea d b off) s = set_reg d (regs s b + off) s"
| "step e (Shr d n) s = set_reg d (drop_bit n (regs s d)) (s\<lparr>zf := (drop_bit n (regs s d) = 0)\<rparr>)"
| "step e (Test a b) s = s\<lparr>zf := (regs s a AND regs s b = 0)\<rparr>"
| "step e (Cmp a b) s = s\<lparr>zf := (regs s a - regs s b = 0)\<rparr>"
| "step e (LoadCr3 d) s = set_reg d (cr3 s) s"
| "step e (StoreCr3 r) s = s\<lparr>cr3 := regs s r\<rparr>"
| "step e Wrmsr s =
     (if ucast (regs s RCX) = IA32_KERNEL_GS_BASE
      then s\<lparr>kernel_gs_base := push_bit 32 (regs s RDX) OR (regs s RAX AND mask 32)\<rparr> else s)"
| "step e Swapgs s = s\<lparr>gs_base := kernel_gs_base s, kernel_gs_base := gs_base s\<rparr>"
| "step e Sti s = s\<lparr>if_flag := True\<rparr>"
| "step e (Call f) s = e f s"
| "step e (Label l) s = s"
| "step e _ s = s"

fun skip_to :: "nat \<Rightarrow> instr list \<Rightarrow> instr list" where
  "skip_to l [] = []"
| "skip_to l (i # is) = (if i = Label l then is else skip_to l is)"

lemma skip_to_shorter: "length (skip_to l is) \<le> length is"
  by (induction "is") auto

text \<open>All jumps are forward; the code ends at a \<^verbatim>\<open>ret\<close> or \<^verbatim>\<open>sysretq\<close>.\<close>

function exec :: "(string \<Rightarrow> cpu \<Rightarrow> cpu) \<Rightarrow> instr list \<Rightarrow> cpu \<Rightarrow> cpu" where
  "exec e [] s = s"
| "exec e (i # is) s =
     (case i of
        Jz l \<Rightarrow> if zf s then exec e (skip_to l is) s else exec e is s
      | Ret \<Rightarrow> (set_reg RSP (regs s RSP + 8) s)\<lparr>rip := load s (regs s RSP)\<rparr>
      | Sysretq \<Rightarrow> s\<lparr>rip := regs s RCX, if_flag := bit (regs s R11) 9\<rparr>
      | _ \<Rightarrow> exec e is (step e i s))"
  by pat_completeness auto
termination
  by (relation "measure (\<lambda>(e, is, s). length is)") (simp_all add: le_imp_less_Suc skip_to_shorter)

subsection \<open>The code\<close>

definition switch_to :: "u64 \<Rightarrow> u64 \<Rightarrow> u64 \<Rightarrow> instr list" where
  "switch_to rsp_off cr3_off scratch_off =
     [Push RBX, Push RBP, Push R12, Push R13, Push R14, Push R15,
      Test RDI RDI, Jz 1,
      Store RDI rsp_off RSP,
      Label 1,
      Load RSP RSI rsp_off,
      Load RAX RSI cr3_off,
      Test RAX RAX, Jz 2,
      LoadCr3 RCX, Cmp RAX RCX, Jz 2,
      StoreCr3 RAX,
      Label 2,
      Lea RAX RSI scratch_off, Mov RDX RAX, Shr RDX 32, MovImm32 RCX 0xC0000102, Wrmsr,
      Pop R15, Pop R14, Pop R13, Pop R12, Pop RBP, Pop RBX,
      Ret]"

definition task_trampoline :: "instr list" where
  "task_trampoline = [Sti, Ret]"

definition syscall_entry :: "instr list" where
  "syscall_entry =
     [Swapgs,
      StoreGs 0 RSP, LoadGs RSP 8,
      PushGs 0,
      Push RAX, Push RCX, Push RDX, Push RSI, Push RDI, Push R8, Push R9, Push R10, Push R11,
      Push RBX, Push RBP, Push R12, Push R13, Push R14, Push R15,
      Mov RDI RAX, Mov RSI RSP, Call ''syscall_handler'',
      Store RSP 112 RAX, Mov RDI RSP, Call ''deliver_pending_signal'',
      Pop R15, Pop R14, Pop R13, Pop R12, Pop RBP, Pop RBX,
      Pop R11, Pop R10, Pop R9, Pop R8, Pop RDI, Pop RSI, Pop RDX, Pop RCX, Pop RAX, Pop RSP,
      Swapgs, Sysretq]"

subsection \<open>Straight-line runs\<close>

fun straight :: "instr \<Rightarrow> bool" where
  "straight (Jz l) = False"
| "straight Ret = False"
| "straight Sysretq = False"
| "straight _ = True"

lemma exec_straight: "straight i \<Longrightarrow> exec e (i # is) s = exec e is (step e i s)"
  by (cases i) simp_all

lemma exec_append: "\<forall>i\<in>set xs. straight i \<Longrightarrow> exec e (xs @ ys) s = exec e ys (exec e xs s)"
proof (induction xs arbitrary: s)
  case (Cons i xs)
  then have "straight i" by simp
  then show ?case using Cons by (simp only: append_Cons exec_straight) simp
qed simp

lemma set_reg_simps [simp]:
  "regs (set_reg r v s) = (regs s)(r := v)" "mem (set_reg r v s) = mem s" "cr3 (set_reg r v s) = cr3 s" "zf (set_reg r v s) = zf s"
  "gs_base (set_reg r v s) = gs_base s" "kernel_gs_base (set_reg r v s) = kernel_gs_base s" "if_flag (set_reg r v s) = if_flag s"
  "rip (set_reg r v s) = rip s" "load (set_reg r v s) a = load s a"
  by (simp_all add: set_reg_def load_def)

lemma store_simps [simp]:
  "regs (store a v s) = regs s" "mem (store a v s) = store_u64 (mem s) (unat a) v" "cr3 (store a v s) = cr3 s" "zf (store a v s) = zf s"
  "gs_base (store a v s) = gs_base s" "kernel_gs_base (store a v s) = kernel_gs_base s" "if_flag (store a v s) = if_flag s"
  "rip (store a v s) = rip s"
  by (simp_all add: store_def)

text \<open>
  A word of memory and the words a run of pushes leaves on the stack, from the stack pointer upwards.
\<close>

definition stack_words :: "memory \<Rightarrow> nat \<Rightarrow> nat \<Rightarrow> u64 list" where
  "stack_words m a n = map (\<lambda>i. load_u64 m (a + 8 * i)) [0 ..< n]"

lemma stack_words_Suc: "stack_words m a (Suc n) = load_u64 m a # stack_words m (a + 8) n"
  unfolding stack_words_def by (simp add: upt_conv_Cons map_Suc_upt [symmetric] comp_def ac_simps del: upt_Suc)

lemma length_stack_words [simp]: "length (stack_words m a n) = n"
  by (simp add: stack_words_def)

lemma stack_words_cong:
  "(\<And>x. a \<le> x \<Longrightarrow> x < a + 8 * n \<Longrightarrow> m' x = m x) \<Longrightarrow> stack_words m' a n = stack_words m a n"
  unfolding stack_words_def by (intro map_cong load_u64_cong) auto

lemma unat_sub: "k \<le> unat w \<Longrightarrow> k < 2 ^ 64 \<Longrightarrow> unat (w - word_of_nat k) = unat w - k" for w :: u64
  by (subst unat_sub) (simp_all add: word_le_nat_alt unat_of_nat take_bit_nat_eq_self)

definition same_system :: "cpu \<Rightarrow> cpu \<Rightarrow> bool" where
  "same_system s s' \<longleftrightarrow> cr3 s' = cr3 s \<and> gs_base s' = gs_base s \<and> kernel_gs_base s' = kernel_gs_base s \<and>
     if_flag s' = if_flag s \<and> rip s' = rip s"

definition pushed :: "reg list \<Rightarrow> cpu \<Rightarrow> cpu \<Rightarrow> bool" where
  "pushed rs s s' \<longleftrightarrow> unat (regs s' RSP) = unat (regs s RSP) - 8 * length rs \<and> (\<forall>r. r \<noteq> RSP \<longrightarrow> regs s' r = regs s r) \<and>
     stack_words (mem s') (unat (regs s' RSP)) (length rs) = rev (map (regs s) rs) \<and>
     (\<forall>a. a < unat (regs s RSP) - 8 * length rs \<or> unat (regs s RSP) \<le> a \<longrightarrow> mem s' a = mem s a) \<and> same_system s s'"

lemma pushedD:
  assumes "pushed rs s s'"
  shows "unat (regs s' RSP) = unat (regs s RSP) - 8 * length rs" "r \<noteq> RSP \<Longrightarrow> regs s' r = regs s r"
    "stack_words (mem s') (unat (regs s' RSP)) (length rs) = rev (map (regs s) rs)"
    "a < unat (regs s RSP) - 8 * length rs \<or> unat (regs s RSP) \<le> a \<Longrightarrow> mem s' a = mem s a" "same_system s s'"
  using assms unfolding pushed_def by blast+

lemma push_all: "RSP \<notin> set rs \<Longrightarrow> 8 * length rs \<le> unat (regs s RSP) \<Longrightarrow> pushed rs s (exec e (map Push rs) s)"
proof (induction rs rule: rev_induct)
  case Nil
  then show ?case by (simp add: pushed_def stack_words_def same_system_def)
next
  case (snoc r rs)
  let ?p = "unat (regs s RSP)" and ?n = "length rs"
  let ?s1 = "exec e (map Push rs) s"
  let ?s2 = "push (regs ?s1 r) ?s1"
  have "pushed rs s ?s1" using snoc by simp
  note s1 = pushedD [OF this]
  have top: "unat (regs ?s1 RSP - 8) = ?p - 8 * length (rs @ [r])"
    using unat_sub [of 8 "regs ?s1 RSP"] s1(1) snoc.prems(2) by simp
  have room: "?p - 8 * length (rs @ [r]) + 8 = ?p - 8 * ?n" using snoc.prems(2) by simp
  have sp: "unat (regs ?s2 RSP) = ?p - 8 * length (rs @ [r])" using top by (simp add: push_def Let_def)
  have "load_u64 (mem ?s2) (unat (regs ?s2 RSP)) = regs s r"
    using s1(2) [of r] snoc.prems(1) by (auto simp: push_def Let_def)
  moreover have "stack_words (mem ?s2) (?p - 8 * ?n) ?n = stack_words (mem ?s1) (?p - 8 * ?n) ?n"
    using top room by (intro stack_words_cong) (auto simp: push_def Let_def)
  ultimately have "stack_words (mem ?s2) (unat (regs ?s2 RSP)) (Suc ?n) = rev (map (regs s) (rs @ [r]))"
    using s1(1,3) sp room by (simp add: stack_words_Suc)
  moreover have "exec e (map Push (rs @ [r])) s = ?s2"
    using exec_append [of "map Push rs" e "[Push r]" s] by simp
  moreover have "mem ?s2 a = mem s a" if "a < ?p - 8 * length (rs @ [r]) \<or> ?p \<le> a" for a
  proof -
    have out: "a < unat (regs ?s1 RSP - 8) \<or> unat (regs ?s1 RSP - 8) + 8 \<le> a" "a < ?p - 8 * ?n \<or> ?p \<le> a"
      unfolding top room using that room by linarith+
    have "mem ?s2 a = mem ?s1 a" using store_u64_other [OF out(1)] by (simp add: push_def Let_def)
    then show ?thesis using s1(4) [OF out(2)] by simp
  qed
  moreover have "regs ?s2 q = regs s q" if "q \<noteq> RSP" for q using s1(2) [OF that] that by (simp add: push_def Let_def)
  moreover have "same_system s ?s2" using s1(5) by (simp add: push_def Let_def same_system_def)
  ultimately show ?case using sp by (simp add: pushed_def)
qed

definition popped :: "reg list \<Rightarrow> cpu \<Rightarrow> cpu \<Rightarrow> bool" where
  "popped rs s s' \<longleftrightarrow> unat (regs s' RSP) = unat (regs s RSP) + 8 * length rs \<and>
     map (regs s') rs = stack_words (mem s) (unat (regs s RSP)) (length rs) \<and>
     (\<forall>r. r \<noteq> RSP \<longrightarrow> r \<notin> set rs \<longrightarrow> regs s' r = regs s r) \<and> mem s' = mem s \<and> same_system s s'"

lemma poppedD:
  assumes "popped rs s s'"
  shows "unat (regs s' RSP) = unat (regs s RSP) + 8 * length rs"
    "map (regs s') rs = stack_words (mem s) (unat (regs s RSP)) (length rs)"
    "r \<noteq> RSP \<Longrightarrow> r \<notin> set rs \<Longrightarrow> regs s' r = regs s r" "mem s' = mem s" "same_system s s'"
  using assms unfolding popped_def by blast+

lemma pop_all:
  "RSP \<notin> set rs \<Longrightarrow> distinct rs \<Longrightarrow> unat (regs s RSP) + 8 * length rs < 2 ^ 64 \<Longrightarrow> popped rs s (exec e (map Pop rs) s)"
proof (induction rs arbitrary: s)
  case Nil
  then show ?case by (simp add: popped_def stack_words_def same_system_def)
next
  case (Cons r rs)
  let ?s1 = "step e (Pop r) s"
  have "unat (regs s RSP + 8) = unat (regs s RSP) + 8"
    using Cons.prems(3) by (subst unat_add_lem [THEN iffD1]) auto
  then have p: "unat (regs ?s1 RSP) = unat (regs s RSP) + 8" using Cons.prems(1) by (simp add: Let_def)
  let ?s' = "exec e (map Pop rs) ?s1"
  have "popped rs ?s1 ?s'" using Cons p by auto
  note r = poppedD [OF this]
  have q: "regs ?s' q = regs ?s1 q" if "q \<noteq> RSP" "q \<notin> set rs" for q using r(3) [OF that] .
  have "exec e (map Pop (r # rs)) s = ?s'" by simp
  moreover have "map (regs ?s') (r # rs) = stack_words (mem s) (unat (regs s RSP)) (Suc (length rs))"
    using r(2) p q [of r] Cons.prems(1,2) by (auto simp: stack_words_Suc load_def Let_def)
  moreover have "\<forall>q. q \<noteq> RSP \<longrightarrow> q \<notin> set (r # rs) \<longrightarrow> regs ?s' q = regs s q" using q by (simp add: Let_def)
  ultimately show ?case using r(1,4,5) p by (simp add: popped_def same_system_def Let_def)
qed

subsection \<open>The context switch\<close>

abbreviation callee_saved :: "reg list" where
  "callee_saved \<equiv> [RBX, RBP, R12, R13, R14, R15]"

definition switch_mid :: "u64 \<Rightarrow> u64 \<Rightarrow> u64 \<Rightarrow> instr list" where
  "switch_mid rsp_off cr3_off scratch_off =
     [Test RDI RDI, Jz 1, Store RDI rsp_off RSP, Label 1, Load RSP RSI rsp_off, Load RAX RSI cr3_off,
      Test RAX RAX, Jz 2, LoadCr3 RCX, Cmp RAX RCX, Jz 2, StoreCr3 RAX, Label 2,
      Lea RAX RSI scratch_off, Mov RDX RAX, Shr RDX 32, MovImm32 RCX 0xC0000102, Wrmsr]"

lemma switch_to_parts:
  "switch_to ro co so = map Push callee_saved @ switch_mid ro co so @ map Pop (rev callee_saved) @ [Ret]"
  by (simp add: switch_to_def switch_mid_def)

lemma msr_join: "push_bit 32 (drop_bit 32 w) OR (w AND mask 32) = w" for w :: u64
  by (rule bit_eqI) (auto simp: bit_simps)

lemmas exec_simps = exec.simps Let_def IA32_KERNEL_GS_BASE_def msr_join

lemma save_rsp_run:
  "exec e (Test RDI RDI # Jz 1 # Store RDI ro RSP # Label 1 # rest) s =
   exec e rest (if regs s RDI = 0 then s\<lparr>zf := True\<rparr> else store (regs s RDI + ro) (regs s RSP) (s\<lparr>zf := False\<rparr>))"
  by (simp add: store_def)

lemma load_run: "exec e (Load d b off # rest) s = exec e rest (set_reg d (load s (regs s b + off)) s)"
  by simp

lemma load_cr3_run:
  "exec e (Test RAX RAX # Jz 2 # LoadCr3 RCX # Cmp RAX RCX # Jz 2 # StoreCr3 RAX # Label 2 # rest) s =
   exec e rest (if regs s RAX = 0 then s\<lparr>zf := True\<rparr>
     else (set_reg RCX (cr3 s) s)\<lparr>zf := (regs s RAX = cr3 s), cr3 := regs s RAX\<rparr>)"
proof (cases "regs s RAX = cr3 s")
  case True
  then have "(set_reg RCX (cr3 s) s)\<lparr>zf := True, cr3 := regs s RAX\<rparr> = (set_reg RCX (cr3 s) s)\<lparr>zf := True\<rparr>"
    by (cases s) (simp add: set_reg_def)
  then show ?thesis using True by (simp add: set_reg_def)
qed (simp add: set_reg_def)

lemma gs_run:
  "exec e (Lea RAX RSI so # Mov RDX RAX # Shr RDX 32 # MovImm32 RCX 0xC0000102 # Wrmsr # rest) s =
   exec e rest (s\<lparr>zf := (drop_bit 32 (regs s RSI + so) = 0),
     regs := (regs s)(RAX := regs s RSI + so, RDX := drop_bit 32 (regs s RSI + so), RCX := 0xC0000102),
     kernel_gs_base := regs s RSI + so\<rparr>)"
  by (simp add: exec_simps set_reg_def fun_upd_twist)

lemma switch_mid_run:
  "\<exists>s'. exec e (switch_mid ro co so @ rest) s = exec e rest s' \<and>
     mem s' = (if regs s RDI = 0 then mem s else store_u64 (mem s) (unat (regs s RDI + ro)) (regs s RSP)) \<and>
     regs s' RSP = load_u64 (mem s') (unat (regs s RSI + ro)) \<and> (\<forall>r. r \<notin> {RAX, RCX, RDX, RSP} \<longrightarrow> regs s' r = regs s r) \<and>
     cr3 s' = (let c = load_u64 (mem s') (unat (regs s RSI + co)) in if c = 0 then cr3 s else c) \<and>
     kernel_gs_base s' = regs s RSI + so \<and> gs_base s' = gs_base s \<and> if_flag s' = if_flag s"
  unfolding switch_mid_def append_Cons append_Nil save_rsp_run
    load_run load_cr3_run gs_run
  by (rule exI, rule conjI, rule refl, simp add: load_def Let_def)

fun separate :: "(nat \<times> nat) list \<Rightarrow> bool" where
  "separate [] \<longleftrightarrow> True"
| "separate ((a, n) # rs) \<longleftrightarrow> list_all (\<lambda>(b, k). a + n \<le> b \<or> b + k \<le> a) rs \<and> separate rs"

lemma mem_pops: "mem (exec e (map Pop rs @ [Ret]) s) = mem s"
  by (induction rs arbitrary: s) (simp_all add: Let_def)

text \<open>What a switch leaves in memory for the outgoing task.\<close>

lemma switch_saves:
  fixes s ro co so e
  defines "p \<equiv> unat (regs s RSP)" and "A \<equiv> unat (regs s RDI + ro)" and "m' \<equiv> mem (exec e (switch_to ro co so) s)"
  assumes "48 \<le> p" "regs s RDI \<noteq> 0" "separate [(p - 48, 48), (A, 8)]"
  shows "stack_words m' (p - 48) 6 = rev (map (regs s) callee_saved)" "unat (load_u64 m' A) = p - 48"
    "\<And>a. (a < p - 48 \<or> p \<le> a) \<Longrightarrow> (a < A \<or> A + 8 \<le> a) \<Longrightarrow> m' a = mem s a"
proof -
  define u where "u = exec e (map Push callee_saved) s"
  have "pushed callee_saved s u" unfolding u_def by (rule push_all) (use assms(4) in \<open>simp_all add: p_def\<close>)
  note s1 = pushedD [OF this]
  have split: "exec e (switch_to ro co so) s = exec e (switch_mid ro co so @ map Pop (rev callee_saved) @ [Ret]) u"
    unfolding switch_to_parts u_def by (rule exec_append) simp
  obtain s2 where "exec e (switch_mid ro co so @ map Pop (rev callee_saved) @ [Ret]) u = exec e (map Pop (rev callee_saved) @ [Ret]) s2"
    "mem s2 = (if regs u RDI = 0 then mem u else store_u64 (mem u) (unat (regs u RDI + ro)) (regs u RSP))"
    using switch_mid_run [of e ro co so "map Pop (rev callee_saved) @ [Ret]" u] by blast
  then have m': "m' = store_u64 (mem u) A (regs u RSP)"
    using split assms(5) s1(2) [of RDI] unfolding m'_def mem_pops by (simp add: A_def mem_pops del: rev.simps list.map)
  have rsp: "unat (regs u RSP) = p - 48" using s1(1) by (simp add: p_def)
  have sep: "p - 48 + 48 \<le> A \<or> A + 8 \<le> p - 48" using assms(6) by simp
  have "stack_words m' (p - 48) 6 = stack_words (mem u) (p - 48) 6"
    using sep by (intro stack_words_cong) (auto simp: m')
  then show "stack_words m' (p - 48) 6 = rev (map (regs s) callee_saved)" using s1(3) rsp by (simp add: eval_nat_numeral)
  show "unat (load_u64 m' A) = p - 48" using rsp by (simp add: m')
  show "m' a = mem s a" if "a < p - 48 \<or> p \<le> a" "a < A \<or> A + 8 \<le> a" for a
    using s1(4) [of a] that by (auto simp: m' p_def)
qed

text \<open>How a switch resumes the incoming task from what memory then holds.\<close>

lemma switch_resumes:
  fixes s ro co so e
  defines "s' \<equiv> exec e (switch_to ro co so) s"
  defines "q \<equiv> unat (load_u64 (mem s') (unat (regs s RSI + ro)))"
  assumes "48 \<le> unat (regs s RSP)" "q + 56 < 2 ^ 64"
  shows "map (regs s') (rev callee_saved) = stack_words (mem s') q 6" "rip s' = load_u64 (mem s') (q + 48)"
    "unat (regs s' RSP) = q + 56" "kernel_gs_base s' = regs s RSI + so" "gs_base s' = gs_base s" "if_flag s' = if_flag s"
    "cr3 s' = (let c = load_u64 (mem s') (unat (regs s RSI + co)) in if c = 0 then cr3 s else c)"
proof -
  define u where "u = exec e (map Push callee_saved) s"
  have "pushed callee_saved s u" unfolding u_def by (rule push_all) (use assms(3) in simp_all)
  note s1 = pushedD [OF this]
  have split: "exec e (switch_to ro co so) s = exec e (switch_mid ro co so @ map Pop (rev callee_saved) @ [Ret]) u"
    unfolding switch_to_parts u_def by (rule exec_append) simp
  obtain s2 where s2: "exec e (switch_mid ro co so @ map Pop (rev callee_saved) @ [Ret]) u = exec e (map Pop (rev callee_saved) @ [Ret]) s2"
    "regs s2 RSP = load_u64 (mem s2) (unat (regs u RSI + ro))"
    "cr3 s2 = (let c = load_u64 (mem s2) (unat (regs u RSI + co)) in if c = 0 then cr3 u else c)"
    "kernel_gs_base s2 = regs u RSI + so" "gs_base s2 = gs_base u" "if_flag s2 = if_flag u"
    using switch_mid_run [of e ro co so "map Pop (rev callee_saved) @ [Ret]" u] by blast
  have s': "s' = exec e (map Pop (rev callee_saved) @ [Ret]) s2" using split s2(1) by (simp add: s'_def)
  then have mem: "mem s' = mem s2" by (simp only: mem_pops)
  have q: "unat (regs s2 RSP) = q" using s2(2) s1(2) [of RSI] mem by (simp add: q_def)
  define w where "w = exec e (map Pop (rev callee_saved)) s2"
  have "popped (rev callee_saved) s2 w" unfolding w_def by (rule pop_all) (use assms(4) q in simp_all)
  note s3 = poppedD [OF this]
  have fin: "s' = (set_reg RSP (regs w RSP + 8) w)\<lparr>rip := load w (regs w RSP)\<rparr>"
    unfolding s' w_def by (subst exec_append) simp_all
  have rsp3: "unat (regs w RSP) = q + 48" using s3(1) q by simp
  then have "unat (regs w RSP + 8) = q + 56" using assms(4) by (subst unat_add_lem [THEN iffD1]) auto
  then show "unat (regs s' RSP) = q + 56" by (simp add: fin)
  have "map (regs s') (rev callee_saved) = map (regs w) (rev callee_saved)" by (simp add: fin)
  also have "\<dots> = stack_words (mem s') q 6" using s3(2) q mem by (simp add: eval_nat_numeral)
  finally show "map (regs s') (rev callee_saved) = stack_words (mem s') q 6" .
  show "rip s' = load_u64 (mem s') (q + 48)" using rsp3 s3(4) mem by (simp add: fin load_def)
  show "kernel_gs_base s' = regs s RSI + so" "gs_base s' = gs_base s" "if_flag s' = if_flag s"
    using s3(5) s2(4-6) s1(2) [of RSI] s1(5) by (simp_all add: fin same_system_def)
  show "cr3 s' = (let c = load_u64 (mem s') (unat (regs s RSI + co)) in if c = 0 then cr3 s else c)"
    using s3(5) s2(3) s1(2) [of RSI] s1(5) mem by (simp add: fin same_system_def Let_def)
qed

subsection \<open>Properties of the context switch\<close>

text \<open>
  C25. A task that is switched out and later switched back in returns from its call of \<^verbatim>\<open>switch_to\<close> as if
  nothing had happened: with its return address, its stack pointer and all callee-saved registers, its own
  page table if it has one, and the kernel stack slot of system calls (\<^verbatim>\<open>KERNEL_GS_BASE\<close>) pointing at
  itself. In between the machine may do anything that leaves the task's saved stack words and the fields
  \<^verbatim>\<open>rsp\<close> and \<^verbatim>\<open>cr3\<close> of the task alone. Here \<open>s\<close> is the processor at the call that switches the task at
  \<open>regs s RDI\<close> out, and \<open>s2\<close> at the call that switches it in.
\<close>

theorem context_switch_round_trip:
  fixes ro co so :: u64
  defines "code \<equiv> switch_to ro co so"
  assumes "p = unat (regs s RSP)" "48 \<le> p" "p + 8 < 2 ^ 64" "regs s RDI \<noteq> 0"
    and "p2 = unat (regs s2 RSP)" "48 \<le> p2" "regs s2 RDI \<noteq> 0" "regs s2 RSI = regs s RDI"
    and sep: "separate [(p - 48, 56), (unat (regs s RDI + ro), 8), (unat (regs s RDI + co), 8), (p2 - 48, 48), (unat (regs s2 RDI + ro), 8)]"
    and kept: "\<forall>a. (p - 48 \<le> a \<and> a < p + 8) \<or> (unat (regs s RDI + ro) \<le> a \<and> a < unat (regs s RDI + ro) + 8) \<or>
       (unat (regs s RDI + co) \<le> a \<and> a < unat (regs s RDI + co) + 8) \<longrightarrow> mem s2 a = mem (exec e code s) a"
  shows "\<exists>s3. exec e code s2 = s3 \<and> (\<forall>r\<in>set callee_saved. regs s3 r = regs s r) \<and> unat (regs s3 RSP) = p + 8 \<and>
     rip s3 = load_u64 (mem s) p \<and> kernel_gs_base s3 = regs s RDI + so \<and>
     cr3 s3 = (let c = load_u64 (mem s) (unat (regs s RDI + co)) in if c = 0 then cr3 s2 else c)"
proof -
  let ?A = "unat (regs s RDI + ro)" and ?B = "unat (regs s RDI + co)" and ?C = "unat (regs s2 RDI + ro)"
  let ?m = "mem (exec e code s)" and ?s3 = "exec e code s2"
  have bound: "p - 48 + 56 = p + 8" "p - 48 + 48 = p" "p2 - 48 + 48 = p2" using assms(3,7) by simp_all
  have d: "p + 8 \<le> ?A \<or> ?A + 8 \<le> p - 48" "p + 8 \<le> ?B \<or> ?B + 8 \<le> p - 48" "p + 8 \<le> p2 - 48 \<or> p2 \<le> p - 48"
    "p + 8 \<le> ?C \<or> ?C + 8 \<le> p - 48" "?A + 8 \<le> ?B \<or> ?B + 8 \<le> ?A" "?A + 8 \<le> p2 - 48 \<or> p2 \<le> ?A" "?A + 8 \<le> ?C \<or> ?C + 8 \<le> ?A"
    "?B + 8 \<le> p2 - 48 \<or> p2 \<le> ?B" "?B + 8 \<le> ?C \<or> ?C + 8 \<le> ?B" "p2 \<le> ?C \<or> ?C + 8 \<le> p2 - 48"
    using sep by (simp_all add: bound)
  have sv: "separate [(p - 48, 48), (?A, 8)]" "separate [(p2 - 48, 48), (?C, 8)]" using d(1,10) bound(2,3) by auto
  note out = switch_saves [where s = s and ro = ro and co = co and so = so and e = e, folded code_def assms(2), OF assms(3,5) sv(1)]
  note out2 = switch_saves(3) [where s = s2 and ro = ro and co = co and so = so and e = e, folded code_def assms(6), OF assms(7,8) sv(2)]
  have m3: "mem ?s3 a = ?m a" if a: "(p - 48 \<le> a \<and> a < p + 8) \<or> (?A \<le> a \<and> a < ?A + 8) \<or> (?B \<le> a \<and> a < ?B + 8)" for a
  proof -
    have "a < p2 - 48 \<or> p2 \<le> a" using a d(3,6,8) by linarith
    moreover have "a < ?C \<or> ?C + 8 \<le> a" using a d(4,7,9) by linarith
    ultimately show ?thesis using out2 [of a] kept a by metis
  qed
  have "load_u64 (mem ?s3) ?A = load_u64 ?m ?A" by (rule load_u64_cong, rule m3) simp
  then have q: "unat (load_u64 (mem ?s3) (unat (regs s2 RSI + ro))) = p - 48" using out(2) assms(9) by simp
  note r = switch_resumes [where s = s2 and ro = ro and co = co and so = so and e = e, folded code_def, unfolded q bound(1,2), OF assms(7) [unfolded assms(6)] assms(4)]
  have "stack_words (mem ?s3) (p - 48) 6 = stack_words ?m (p - 48) 6"
    by (rule stack_words_cong, rule m3) (use assms(3) in linarith)
  then have regs: "map (regs ?s3) (rev callee_saved) = rev (map (regs s) callee_saved)" using r(1) out(1) by metis
  have m0: "mem ?s3 a = mem s a" if "(p \<le> a \<and> a < p + 8) \<or> (?B \<le> a \<and> a < ?B + 8)" for a
  proof -
    have "a < p - 48 \<or> p \<le> a" "a < ?A \<or> ?A + 8 \<le> a" using that d(1,2,5) by linarith+
    moreover have "(p - 48 \<le> a \<and> a < p + 8) \<or> (?A \<le> a \<and> a < ?A + 8) \<or> (?B \<le> a \<and> a < ?B + 8)" using that by linarith
    ultimately show ?thesis using m3 [of a] out(3) [of a] by metis
  qed
  have "load_u64 (mem ?s3) p = load_u64 (mem s) p" "load_u64 (mem ?s3) ?B = load_u64 (mem s) ?B"
    by (rule load_u64_cong, rule m0, simp)+
  then show ?thesis using regs r(2-4,7) assms(9) by simp
qed

definition example_cpu :: cpu where
  "example_cpu = \<lparr>regs = (\<lambda>r. case r of RSP \<Rightarrow> 0x1000 | RDI \<Rightarrow> 0x2000 | RSI \<Rightarrow> 0x4000 | RBX \<Rightarrow> 7 | _ \<Rightarrow> 0), mem = (\<lambda>_. 0), rip = 0,
     zf = False, if_flag = False, cr3 = 0, gs_base = 0, kernel_gs_base = 0\<rparr>"

theorem context_switch_round_trip_witness:
  "\<exists>s2 s3. mem s2 = mem (exec (\<lambda>_ s. s) (switch_to 32 40 96) example_cpu) \<and> regs s2 RSI = 0x2000 \<and> regs s2 RBX = 0 \<and>
     exec (\<lambda>_ s. s) (switch_to 32 40 96) s2 = s3 \<and> regs s3 RBX = 7 \<and> unat (regs s3 RSP) = 0x1008"
proof -
  let ?e = "\<lambda>_ s. s" and ?code = "switch_to 32 40 96"
  let ?r2 = "\<lambda>r. case r of RSP \<Rightarrow> 0x3000 | RDI \<Rightarrow> 0x4000 | RSI \<Rightarrow> 0x2000 | _ \<Rightarrow> 0"
  define s2 where "s2 = example_cpu\<lparr>mem := mem (exec ?e ?code example_cpu), regs := ?r2\<rparr>"
  have r: "regs s2 = ?r2" "mem s2 = mem (exec ?e ?code example_cpu)" by (simp_all add: s2_def)
  have x: "regs example_cpu RSP = 0x1000" "regs example_cpu RDI = 0x2000" "regs example_cpu RBX = 7" by (simp_all add: example_cpu_def)
  have "\<exists>s3. exec ?e ?code s2 = s3 \<and> (\<forall>r\<in>set callee_saved. regs s3 r = regs example_cpu r) \<and> unat (regs s3 RSP) = 0x1000 + 8 \<and>
     rip s3 = load_u64 (mem example_cpu) 0x1000 \<and> kernel_gs_base s3 = regs example_cpu RDI + 96 \<and>
     cr3 s3 = (let c = load_u64 (mem example_cpu) (unat (regs example_cpu RDI + 40)) in if c = 0 then cr3 s2 else c)"
    by (rule context_switch_round_trip [of _ _ "0x3000"]) (simp_all add: x r)
  then have "regs (exec ?e ?code s2) RBX = 7 \<and> unat (regs (exec ?e ?code s2) RSP) = 0x1008" using x(3) by simp
  then show ?thesis using r by (intro exI [of _ s2] exI [of _ "exec ?e ?code s2"]) simp
qed

subsection \<open>System-call entry and exit\<close>

lemma stack_words_last: "stack_words m a (Suc n) = stack_words m a n @ [load_u64 m (a + 8 * n)]"
  by (simp add: stack_words_def)

text \<open>The registers of a trap frame below the user stack pointer, in the order they are saved.\<close>

abbreviation saved_regs :: "reg list" where
  "saved_regs \<equiv> [RAX, RCX, RDX, RSI, RDI, R8, R9, R10, R11, RBX, RBP, R12, R13, R14, R15]"

lemma syscall_entry_parts:
  "syscall_entry = [Swapgs, StoreGs 0 RSP, LoadGs RSP 8, PushGs 0] @ map Push saved_regs @
     [Mov RDI RAX, Mov RSI RSP, Call ''syscall_handler'', Store RSP 112 RAX, Mov RDI RSP, Call ''deliver_pending_signal''] @
     map Pop (rev saved_regs) @ [Pop RSP, Swapgs, Sysretq]"
  by (simp add: syscall_entry_def)

text \<open>The calling convention: a call keeps the stack pointer, and the kernel code that is called no segment base.\<close>

definition call_law :: "(string \<Rightarrow> cpu \<Rightarrow> cpu) \<Rightarrow> bool" where
  "call_law e \<longleftrightarrow> (\<forall>f u. regs (e f u) RSP = regs u RSP \<and> gs_base (e f u) = gs_base u \<and> kernel_gs_base (e f u) = kernel_gs_base u)"

lemma syscall_saves:
  fixes s
  assumes "K = unat (kernel_gs_base s)" "K + 16 < 2 ^ 64" "T = unat (load_u64 (mem s) (K + 8))" "128 \<le> T"
  obtains u where "exec e (syscall_entry) s = exec e ([Mov RDI RAX, Mov RSI RSP, Call ''syscall_handler'', Store RSP 112 RAX, Mov RDI RSP,
      Call ''deliver_pending_signal''] @ map Pop (rev saved_regs) @ [Pop RSP, Swapgs, Sysretq]) u"
    "unat (regs u RSP) = T - 128" "\<And>r. r \<noteq> RSP \<Longrightarrow> regs u r = regs s r"
    "stack_words (mem u) (T - 128) 16 = rev (map (regs s) (RSP # saved_regs))"
    "gs_base u = kernel_gs_base s" "kernel_gs_base u = gs_base s"
proof -
  define t where "t = exec e [Swapgs, StoreGs 0 RSP, LoadGs RSP 8, PushGs 0] s"
  have k8: "unat (kernel_gs_base s + 8) = K + 8" using assms(1,2) by (subst unat_add_lem [THEN iffD1]) auto
  have ld: "load_u64 (store_u64 (mem s) K v) (K + 8) = load_u64 (mem s) (K + 8)" for v by (rule load_store_u64_other) simp
  let ?top = "load_u64 (mem s) (K + 8)"
  have t8: "unat (?top - 8) = T - 8" using unat_sub [of 8 ?top] assms(3,4) by simp
  have t: "regs t RSP = ?top - 8" "r \<noteq> RSP \<Longrightarrow> regs t r = regs s r" "load_u64 (mem t) (T - 8) = regs s RSP"
      "gs_base t = kernel_gs_base s" "kernel_gs_base t = gs_base s" for r
    using k8 ld t8 assms(1,3) by (simp_all add: t_def push_def load_def Let_def)
  define u where "u = exec e (map Push saved_regs) t"
  have "pushed saved_regs t u" unfolding u_def by (rule push_all) (use t(1) t8 assms(4) in simp_all)
  note u = pushedD [OF this]
  have sp: "unat (regs u RSP) = T - 128" using u(1) t(1) t8 assms(4) by simp
  have "load_u64 (mem u) (T - 8) = load_u64 (mem t) (T - 8)"
    by (rule load_u64_cong, rule u(4)) (use t(1) t8 in simp)
  moreover have "stack_words (mem u) (T - 128) 16 = stack_words (mem u) (T - 128) 15 @ [load_u64 (mem u) (T - 8)]"
    using stack_words_last [of "mem u" "T - 128" 15] assms(4) by simp
  moreover have len: "length saved_regs = 15" by simp
  have "stack_words (mem u) (T - 128) 15 = rev (map (regs t) saved_regs)" using u(3) [unfolded len sp] .
  moreover have "map (regs t) saved_regs = map (regs s) saved_regs" using t(2) by simp
  ultimately have "stack_words (mem u) (T - 128) 16 = rev (map (regs s) (RSP # saved_regs))" using t(3) by simp
  moreover
  let ?rest = "[Mov RDI RAX, Mov RSI RSP, Call ''syscall_handler'', Store RSP 112 RAX, Mov RDI RSP,
      Call ''deliver_pending_signal''] @ map Pop (rev saved_regs) @ [Pop RSP, Swapgs, Sysretq]"
  have "exec e syscall_entry s = exec e (map Push saved_regs @ ?rest) t"
    unfolding syscall_entry_parts t_def by (rule exec_append) simp
  moreover have "exec e (map Push saved_regs @ ?rest) t = exec e ?rest u" unfolding u_def by (rule exec_append) simp
  moreover have "\<And>r. r \<noteq> RSP \<Longrightarrow> regs u r = regs s r" using u(2) t(2) by simp
  ultimately show thesis using sp u(5) t(4,5) by (intro that [of u]) (simp_all only: same_system_def)
qed

text \<open>The state after the two calls, from the state \<open>u\<close> in which the trap frame has been saved.\<close>

definition after_calls :: "(string \<Rightarrow> cpu \<Rightarrow> cpu) \<Rightarrow> cpu \<Rightarrow> cpu" where
  "after_calls e u =
     (let v = e ''syscall_handler'' (set_reg RSI (regs u RSP) (set_reg RDI (regs u RAX) u))
      in e ''deliver_pending_signal'' (set_reg RDI (regs v RSP) (store (regs v RSP + 112) (regs v RAX) v)))"

lemma syscall_returns:
  assumes law: "call_law e" and sp: "unat (regs u RSP) = T - 128" "128 \<le> T" "T < 2 ^ 64"
  defines "v \<equiv> after_calls e u"
  defines "s' \<equiv> exec e ([Mov RDI RAX, Mov RSI RSP, Call ''syscall_handler'', Store RSP 112 RAX, Mov RDI RSP,
      Call ''deliver_pending_signal''] @ map Pop (rev saved_regs) @ [Pop RSP, Swapgs, Sysretq]) u"
  shows "map (regs s') (rev (RSP # saved_regs)) = stack_words (mem v) (T - 128) 16" "rip s' = regs s' RCX"
    "gs_base s' = kernel_gs_base u" "kernel_gs_base s' = gs_base u" "if_flag s' = bit (regs s' R11) 9"
proof -
  have s': "s' = exec e (map Pop (rev saved_regs) @ [Pop RSP, Swapgs, Sysretq]) v"
    unfolding s'_def v_def after_calls_def Let_def append_Cons append_Nil by (simp only: exec_straight straight.simps step.simps set_reg_simps store_simps fun_upd_apply reg.distinct if_False)
  have v: "unat (regs v RSP) = T - 128" "gs_base v = gs_base u" "kernel_gs_base v = kernel_gs_base u"
    using law sp(1) by (simp_all add: v_def after_calls_def call_law_def Let_def)
  define w where "w = exec e (map Pop (rev saved_regs)) v"
  have "popped (rev saved_regs) v w" unfolding w_def by (rule pop_all) (use v(1) sp(3) in simp_all)
  note w = poppedD [OF this]
  have len: "length (rev saved_regs) = 15" by simp
  have rsp: "unat (regs w RSP) = T - 8" using w(1) v(1) sp(2) by simp
  have fin: "s' = exec e [Pop RSP, Swapgs, Sysretq] w" unfolding s' w_def by (rule exec_append) simp
  have regs: "regs s' r = (if r = RSP then load_u64 (mem v) (T - 8) else regs w r)" for r
    using rsp w(4) by (simp add: fin load_def Let_def)
  have "stack_words (mem v) (T - 128) 16 = stack_words (mem v) (T - 128) 15 @ [load_u64 (mem v) (T - 8)]"
    using stack_words_last [of "mem v" "T - 128" 15] sp(2) by simp
  moreover have "map (regs s') (rev saved_regs) = map (regs w) (rev saved_regs)" using regs by simp
  moreover have "map (regs w) (rev saved_regs) = stack_words (mem v) (T - 128) 15" using w(2) [unfolded len v(1)] .
  ultimately show "map (regs s') (rev (RSP # saved_regs)) = stack_words (mem v) (T - 128) 16"
    using regs [of RSP] by simp
  show "rip s' = regs s' RCX" "if_flag s' = bit (regs s' R11) 9" by (simp_all add: fin Let_def)
  show "gs_base s' = kernel_gs_base u" "kernel_gs_base s' = gs_base u"
    using w(5) v(2,3) by (simp_all add: fin same_system_def Let_def)
qed


definition example_syscall :: cpu where
  "example_syscall = example_cpu\<lparr>mem := store_u64 (\<lambda>_. 0) 0x5008 0x9000, kernel_gs_base := 0x5000\<rparr>"


subsection \<open>Switching inside a system call\<close>

text \<open>
  C36. After a switch inside a system call the next system call runs on another task's kernel stack. In a
  system call of the task at \<open>A\<close> the base \<^verbatim>\<open>GS\<close> is that task's scratch area. When the kernel then switches to a
  task at \<open>B\<close> that is itself inside a system call, and \<open>B\<close> leaves it through the end of \<^verbatim>\<open>syscall_entry\<close>,
  \<^verbatim>\<open>KERNEL_GS_BASE\<close> is the scratch area of \<open>A\<close>: the next \<^verbatim>\<open>syscall\<close> of \<open>B\<close> saves the user stack pointer there and
  loads the kernel stack pointer of \<open>A\<close>. Here \<open>s\<close> is the processor at the switch, \<open>s2\<close> the processor
  before the last two instructions of \<open>B\<close>'s system call, and \<open>s4\<close> the processor at its next system call, when
  neither kernel nor user code has changed the segment bases.
\<close>

theorem switch_in_syscall_exposes_stack:
  assumes "regs s RDI = A" "regs s RSI = B" "48 \<le> unat (regs s RSP)" "gs_base s = A + so"
    and "unat (load_u64 (mem (exec e (switch_to ro co so) s)) (unat (B + ro))) + 56 < 2 ^ 64"
    and "gs_base s2 = gs_base (exec e (switch_to ro co so) s)" "kernel_gs_base s2 = kernel_gs_base (exec e (switch_to ro co so) s)"
    and "s3 = exec e (drop 41 syscall_entry) s2"
    and "gs_base s4 = gs_base s3" "kernel_gs_base s4 = kernel_gs_base s3" "unat (A + so) + 16 < 2 ^ 64"
  shows "kernel_gs_base s3 = A + so \<and>
     regs (exec e (take 3 syscall_entry) s4) RSP = load_u64 (mem s4) (unat (A + so) + 8) \<and>
     load_u64 (mem (exec e (take 3 syscall_entry) s4)) (unat (A + so)) = regs s4 RSP"
proof -
  have "unat (load_u64 (mem (exec e (switch_to ro co so) s)) (unat (regs s RSI + ro))) + 56 < 2 ^ 64" using assms(2,5) by simp
  note r = switch_resumes [where s = s and ro = ro and co = co and so = so and e = e, OF assms(3) this]
  have tail: "drop 41 syscall_entry = [Swapgs, Sysretq]" "take 3 syscall_entry = [Swapgs, StoreGs 0 RSP, LoadGs RSP 8]"
    by (simp_all add: syscall_entry_def)
  have k: "kernel_gs_base s3 = A + so" using assms(4,6,7,8) r(4,5) by (simp add: tail)
  have "unat (A + so + 8) = unat (A + so) + 8" using assms(11) by (subst unat_add_lem [THEN iffD1]) auto
  then have "load_u64 (store_u64 m (unat (A + so)) w) (unat (A + so + 8)) = load_u64 m (unat (A + so) + 8)" for m w
    by (simp add: load_store_u64_other)
  then show ?thesis using k assms(10) by (simp add: tail load_def)
qed

theorem switch_in_syscall_exposes_stack_witness:
  "\<exists>s s2 s3 s4. gs_base s = 0x2000 + 96 \<and> regs s RDI = 0x2000 \<and> regs s RSI = 0x4000 \<and>
     gs_base s2 = gs_base (exec (\<lambda>_ s. s) (switch_to 32 40 96) s) \<and> s3 = exec (\<lambda>_ s. s) (drop 41 syscall_entry) s2 \<and>
     kernel_gs_base s3 = 0x2000 + 96 \<and> kernel_gs_base s3 \<noteq> 0x4000 + 96 \<and>
     regs (exec (\<lambda>_ s. s) (take 3 syscall_entry) s4) RSP = load_u64 (mem s4) (0x2060 + 8)"
proof -
  let ?e = "\<lambda>_ s. s :: cpu" and ?s = "example_cpu\<lparr>gs_base := 0x2000 + 96\<rparr>"
  define s2 where "s2 = exec ?e (switch_to 32 40 96) ?s"
  define s3 where "s3 = exec ?e (drop 41 syscall_entry) s2"
  have x: "regs ?s RDI = 0x2000" "regs ?s RSI = 0x4000" "48 \<le> unat (regs ?s RSP)" "gs_base ?s = 0x2000 + 96"
    by (simp_all add: example_cpu_def)
  have "unat (0x4000 + 32 :: u64) = 0x4020" by simp
  have "separate [(unat (regs ?s RSP) - 48, 48), (unat (regs ?s RDI + 32), 8)]" by (simp add: example_cpu_def)
  note sv = switch_saves(3) [where s = ?s and ro = 32 and co = 40 and so = 96 and e = ?e, OF x(3) _ this]
  have "load_u64 (mem s2) (unat (0x4000 + 32 :: u64)) = load_u64 (mem ?s) (unat (0x4000 + 32 :: u64))"
    unfolding s2_def by (rule load_u64_cong, rule sv) (simp_all add: example_cpu_def)
  also have "\<dots> = 0" by (simp add: example_cpu_def load_u64_def eval_nat_numeral)
  finally have "unat (load_u64 (mem s2) (unat (0x4000 + 32 :: u64))) + 56 < 2 ^ 64" by simp
  from switch_in_syscall_exposes_stack [OF x this [unfolded s2_def] refl refl s3_def [unfolded s2_def] refl refl]
  have "kernel_gs_base s3 = 0x2000 + 96 \<and> regs (exec ?e (take 3 syscall_entry) s3) RSP = load_u64 (mem s3) (unat (0x2000 + 96 :: u64) + 8)"
    by simp
  then show ?thesis using x s2_def s3_def by (intro exI [of _ ?s] exI [of _ s2] exI [of _ s3] exI [of _ s3]) simp
qed

end
