(* ===== verification/Signal.thy ===== *)
theory Signal
  imports Lifecycle Context
begin

text \<open>
  Signal delivery (\<^verbatim>\<open>deliver_pending_signal\<close> of \<^verbatim>\<open>process/signal.rs\<close>) and the system calls on signals
  (\<^verbatim>\<open>SYS_KILL\<close>, \<^verbatim>\<open>SYS_SIGNAL\<close> and \<^verbatim>\<open>SYS_SIGRETURN\<close> of \<^verbatim>\<open>syscall/dispatch.rs\<close>). The memory is the address space
  of the running task.
\<close>

record trap_frame =
  f_r15 :: u64
  f_r14 :: u64
  f_r13 :: u64
  f_r12 :: u64
  f_rbp :: u64
  f_rbx :: u64
  f_r11 :: u64
  f_r10 :: u64
  f_r9 :: u64
  f_r8 :: u64
  f_rdi :: u64
  f_rsi :: u64
  f_rdx :: u64
  f_rcx :: u64
  f_rax :: u64
  f_user_rsp :: u64

text \<open>\<^verbatim>\<open>#[repr(C)]\<close>: the fields are consecutive 64-bit words in declaration order.\<close>

definition frame_fields :: "trap_frame \<Rightarrow> u64 list" where
  "frame_fields f = [f_r15 f, f_r14 f, f_r13 f, f_r12 f, f_rbp f, f_rbx f, f_r11 f, f_r10 f, f_r9 f, f_r8 f,
     f_rdi f, f_rsi f, f_rdx f, f_rcx f, f_rax f, f_user_rsp f]"

fun write_words :: "memory \<Rightarrow> nat \<Rightarrow> u64 list \<Rightarrow> memory" where
  "write_words m a [] = m"
| "write_words m a (w # ws) = write_words (store_u64 m a w) (a + 8) ws"

definition write_frame :: "memory \<Rightarrow> nat \<Rightarrow> trap_frame \<Rightarrow> memory" where
  "write_frame m a f = write_words m a (frame_fields f)"

definition read_frame :: "memory \<Rightarrow> nat \<Rightarrow> trap_frame" where
  "read_frame m a =
     (let w = \<lambda>i. load_u64 m (a + 8 * i)
      in \<lparr>f_r15 = w 0, f_r14 = w 1, f_r13 = w 2, f_r12 = w 3, f_rbp = w 4, f_rbx = w 5, f_r11 = w 6, f_r10 = w 7,
          f_r9 = w 8, f_r8 = w 9, f_rdi = w 10, f_rsi = w 11, f_rdx = w 12, f_rcx = w 13, f_rax = w 14, f_user_rsp = w 15\<rparr>)"

definition TRAMPOLINE_PAD :: nat where
  "TRAMPOLINE_PAD = 16"

definition SYS_SIGRETURN_NR :: u8 where
  "SYS_SIGRETURN_NR = 54"

definition TRAMPOLINE :: "u8 list" where
  "TRAMPOLINE = [0xB8, SYS_SIGRETURN_NR, 0, 0, 0, 0x0F, 0x05, 0xEB, 0xFE, 0x90]"

text \<open>
  Delivery returns to the system-call exit with a new frame, or the task exits and does not return.
\<close>

datatype 'v delivery = Delivered "'v kernel" memory trap_frame | Exited "'v kernel"

definition push_signal_frame :: "memory \<Rightarrow> trap_frame \<Rightarrow> u8 \<Rightarrow> nat \<Rightarrow> (memory \<times> trap_frame) res" where
  "push_signal_frame m frame signum handler =
     (let old_rsp = unat (f_user_rsp frame); frame_size = 128
      in if old_rsp < frame_size + TRAMPOLINE_PAD + 8 then Inl Overflow
         else let new_rsp = (old_rsp - frame_size - TRAMPOLINE_PAD - 8) div 16 * 16;
                  tramp_addr = new_rsp + 8;
                  saved_addr = new_rsp + 8 + TRAMPOLINE_PAD;
                  m1 = write_frame m saved_addr frame;
                  m2 = write_bytes m1 tramp_addr TRAMPOLINE;
                  m3 = write_bytes m2 (tramp_addr + length TRAMPOLINE) (replicate (TRAMPOLINE_PAD - length TRAMPOLINE) 0x90);
                  m4 = store_u64 m3 new_rsp (word_of_nat tramp_addr)
              in Inr (m4, frame\<lparr>f_rcx := word_of_nat handler, f_user_rsp := word_of_nat new_rsp, f_rdi := ucast signum\<rparr>))"

definition deliver_pending_signal :: "'v kernel \<Rightarrow> memory \<Rightarrow> trap_frame \<Rightarrow> 'v delivery res" where
  "deliver_pending_signal k m frame =
     rbind (current_tid k) (\<lambda>tid.
     case table_get (task_table k) tid of
       None \<Rightarrow> Inr (Delivered k m frame)
     | Some t \<Rightarrow>
         rbind (next_pending (t_signals (arcs k t))) (\<lambda>r.
         case r of
           None \<Rightarrow> Inr (Delivered k m frame)
         | Some (signum, handler) \<Rightarrow>
             (let k1 = upd_task k t (\<lambda>x. x\<lparr>t_signals := clear_pending (t_signals x) signum\<rparr>)
              in if handler = 0 then rbind (lifecycle_exit k1 (- int (unat signum))) (\<lambda>k2. Inr (Exited k2))
                 else rbind (push_signal_frame m frame signum handler) (\<lambda>(m', frame').
                      Inr (Delivered k1 m' frame')))))"

subsection \<open>System calls on signals\<close>

definition EFAULT :: int where
  "EFAULT = -14"

definition ENOENT :: int where
  "ENOENT = -2"

definition EBADF :: int where
  "EBADF = -9"

definition sys_kill :: "'v kernel \<Rightarrow> nat \<Rightarrow> u8 \<Rightarrow> int \<times> 'v kernel" where
  "sys_kill k target_pid signum =
     (if unat signum \<ge> MAX_SIGNALS then (EFAULT, k)
      else case find_pid k target_pid of
             None \<Rightarrow> (ENOENT, k)
           | Some t \<Rightarrow>
               (let k1 = upd_task k t (\<lambda>x. x\<lparr>t_signals := set_pending (t_signals x) signum\<rparr>)
                in (0, if t_state (arcs k t) = Blocked then unblock_tid k1 t else k1)))"

definition sys_signal :: "'v kernel \<Rightarrow> u8 \<Rightarrow> nat \<Rightarrow> (int \<times> 'v kernel) res" where
  "sys_signal k signum handler =
     (if unat signum \<ge> MAX_SIGNALS then Inr (EFAULT, k)
      else rbind (current_tid k) (\<lambda>tid.
           case table_get (task_table k) tid of
             None \<Rightarrow> Inr (EBADF, k)
           | Some t \<Rightarrow> Inr (0, upd_task k t (\<lambda>x. x\<lparr>t_signals := set_handler (t_signals x) signum handler\<rparr>))))"

text \<open>The frame is replaced by the saved one; the result of the call is its \<^verbatim>\<open>rax\<close>.\<close>

definition sys_sigreturn :: "memory \<Rightarrow> trap_frame \<Rightarrow> (u64 \<times> trap_frame) res" where
  "sys_sigreturn m frame =
     rbind (add_u64 (unat (f_user_rsp frame)) 16) (\<lambda>saved_ptr.
     let saved = read_frame m saved_ptr in Inr (f_rax saved, saved))"

subsection \<open>Pending signals\<close>

lemma trailing_zeros_from_bound:
  "\<exists>i<n. bit w i \<Longrightarrow> trailing_zeros_from n w < n \<and> bit w (trailing_zeros_from n w) \<and>
     (\<forall>j<trailing_zeros_from n w. \<not> bit w j)"
proof (induction n arbitrary: w)
  case (Suc n)
  show ?case
  proof (cases "bit w 0")
    case False
    obtain i where i: "i < Suc n" "bit w i" using Suc.prems by blast
    then obtain i' where i': "i = Suc i'" using False by (cases i) auto
    then have "\<exists>i<n. bit (drop_bit 1 w) i" using i by (intro exI [of _ i']) (simp add: bit_drop_bit_eq)
    note ih = Suc.IH [OF this]
    have "\<not> bit w j" if "j < Suc (trailing_zeros_from n (drop_bit 1 w))" for j
      using that ih False by (cases j) (auto simp: bit_drop_bit_eq)
    then show ?thesis using ih False by (auto simp: bit_drop_bit_eq)
  qed simp
qed simp

lemma trailing_zeros_lowest:
  assumes "w \<noteq> 0"
  shows "trailing_zeros w < 32" "bit w (trailing_zeros w)" "j < trailing_zeros w \<Longrightarrow> \<not> bit w j"
proof -
  obtain i where "bit w i" using assms bit_eq_iff [of w 0] by auto
  moreover from this have "i < 32" using bit_imp_le_length [of w i] by simp
  ultimately have "\<exists>i<32. bit w i" by blast
  from trailing_zeros_from_bound [OF this]
  show "trailing_zeros w < 32" "bit w (trailing_zeros w)" "j < trailing_zeros w \<Longrightarrow> \<not> bit w j"
    by (simp_all add: trailing_zeros_def)
qed

definition signals_ok :: "signal_state \<Rightarrow> bool" where
  "signals_ok s \<longleftrightarrow> length (sg_handlers s) = MAX_SIGNALS"

lemma next_pending_Some:
  assumes "signals_ok s" "sg_pending s \<noteq> 0"
  obtains signum where "next_pending s = Inr (Some (signum, sg_handlers s ! unat signum))" "unat signum = trailing_zeros (sg_pending s)"
    "unat signum < 32"
proof -
  note tz = trailing_zeros_lowest [OF assms(2)]
  have "unat (word_of_nat (trailing_zeros (sg_pending s)) :: u8) = trailing_zeros (sg_pending s)"
    using tz(1) by (simp add: unat_of_nat)
  then show thesis using tz assms
    by (intro that [of "word_of_nat (trailing_zeros (sg_pending s))"]) (simp_all add: next_pending_def signals_ok_def MAX_SIGNALS_def)
qed

lemma pending_cleared:
  "unat signum < 32 \<Longrightarrow> bit (sg_pending (clear_pending s signum)) j \<longleftrightarrow> bit (sg_pending s) j \<and> j \<noteq> unat signum"
  by (auto simp: clear_pending_def MAX_SIGNALS_def bit_simps dest: bit_imp_le_length)

subsection \<open>Frames in memory\<close>

lemma write_words_other: "x < a \<or> a + 8 * length ws \<le> x \<Longrightarrow> write_words m a ws x = m x"
  by (induction ws arbitrary: m a) auto

lemma write_words_nth: "i < length ws \<Longrightarrow> load_u64 (write_words m a ws) (a + 8 * i) = ws ! i"
proof (induction ws arbitrary: m a i)
  case (Cons w ws)
  show ?case
  proof (cases i)
    case 0
    have "load_u64 (write_words (store_u64 m a w) (a + 8) ws) a = load_u64 (store_u64 m a w) a"
      by (rule load_u64_cong, rule write_words_other) simp
    then show ?thesis using 0 by simp
  next
    case (Suc j)
    then show ?thesis using Cons.IH [of j "store_u64 m a w" "a + 8"] Cons.prems by (simp add: ac_simps)
  qed
qed simp

lemma read_write_frame: "read_frame (write_frame m a f) a = f"
proof -
  have "load_u64 (write_frame m a f) (a + 8 * i) = frame_fields f ! i" if "i < 16" for i
    using that write_words_nth [of i "frame_fields f" m a] by (simp add: write_frame_def frame_fields_def)
  from this [of 0] this [of 1] this [of 2] this [of 3] this [of 4] this [of 5] this [of 6] this [of 7] this [of 8]
    this [of 9] this [of 10] this [of 11] this [of 12] this [of 13] this [of 14] this [of 15]
  show ?thesis by (simp add: read_frame_def Let_def frame_fields_def)
qed

lemma read_frame_cong: "(\<And>x. a \<le> x \<Longrightarrow> x < a + 128 \<Longrightarrow> m' x = m x) \<Longrightarrow> read_frame m' a = read_frame m a"
proof -
  assume c: "\<And>x. a \<le> x \<Longrightarrow> x < a + 128 \<Longrightarrow> m' x = m x"
  have "load_u64 m' (a + 8 * i) = load_u64 m (a + 8 * i)" if "i < 16" for i
    by (rule load_u64_cong, rule c) (use that in auto)
  from this [of 0] this [of 1] this [of 2] this [of 3] this [of 4] this [of 5] this [of 6] this [of 7] this [of 8]
    this [of 9] this [of 10] this [of 11] this [of 12] this [of 13] this [of 14] this [of 15]
  show ?thesis by (simp add: read_frame_def Let_def)
qed

subsection \<open>Delivery and return\<close>

lemma push_signal_frame_ok:
  assumes "r = unat (f_user_rsp frame)" "152 \<le> r"
  defines "n \<equiv> (r - 152) div 16 * 16"
  obtains m' where "push_signal_frame m frame signum handler =
      Inr (m', frame\<lparr>f_rcx := word_of_nat handler, f_user_rsp := word_of_nat n, f_rdi := ucast signum\<rparr>)"
    "n + 152 \<le> r" "r - 152 - n < 16" "n < 2 ^ 64 - 152" "read_frame m' (n + 24) = frame" "load_u64 m' n = word_of_nat (n + 8)"
    "read_bytes m' (n + 8) 10 = TRAMPOLINE" "\<And>x. x < n \<or> n + 152 \<le> x \<Longrightarrow> m' x = m x"
proof -
  let ?m1 = "write_frame m (n + 24) frame"
  let ?m2 = "write_bytes ?m1 (n + 8) TRAMPOLINE"
  let ?m3 = "write_bytes ?m2 (n + 8 + 10) (replicate 6 0x90)"
  let ?m4 = "store_u64 ?m3 n (word_of_nat (n + 8))"
  have len: "length TRAMPOLINE = 10" by (simp add: TRAMPOLINE_def)
  have ff: "length (frame_fields frame) = 16" by (simp add: frame_fields_def)
  have n: "n + 152 \<le> r" "r - 152 - n < 16" using assms(2) by (simp_all add: n_def)
  have "r < 2 ^ 64" using unsigned_less [of "f_user_rsp frame", where 'a = nat] assms(1) by simp
  then have b: "n < 2 ^ 64 - 152" using n(1) by simp
  have p: "push_signal_frame m frame signum handler =
      Inr (?m4, frame\<lparr>f_rcx := word_of_nat handler, f_user_rsp := word_of_nat n, f_rdi := ucast signum\<rparr>)"
    using assms(2) len by (simp add: push_signal_frame_def TRAMPOLINE_PAD_def Let_def n_def assms(1) [symmetric] ac_simps)
  have "read_frame ?m4 (n + 24) = read_frame ?m1 (n + 24)"
    by (rule read_frame_cong) (simp add: len)
  then have f: "read_frame ?m4 (n + 24) = frame" by (simp add: read_write_frame)
  have "read_bytes ?m4 (n + 8) 10 = read_bytes ?m2 (n + 8) 10" by (rule read_bytes_cong) simp
  then have t: "read_bytes ?m4 (n + 8) 10 = TRAMPOLINE" using read_write_bytes [of ?m1 "n + 8" TRAMPOLINE] len by simp
  have o: "?m4 x = m x" if "x < n \<or> n + 152 \<le> x" for x
    using that write_words_other [of x "n + 24" "frame_fields frame" m] ff by (auto simp: len write_frame_def)
  show thesis by (rule that [OF p n b f _ t o]) simp_all
qed

text \<open>
  C27. A signal handler returns to where the signal interrupted. Let a task in a system call have a pending
  signal, the lowest of which has a handler, and room on its user stack. Delivery does not fail; it clears
  exactly that signal, makes the call return to the handler with the signal number as its argument, on a
  16-byte aligned stack below the old one, where it changes no byte outside the 152 bytes it pushes. When the
  handler has returned to the trampoline, whose bytes are the call of \<^verbatim>\<open>SYS_SIGRETURN\<close>, and has not written to
  the saved frame, that call puts back the frame the signal interrupted, the result of the interrupted system
  call included.
\<close>

theorem signal_round_trip:
  assumes "current_tid k = Inr tid" "tid \<in> task_table k" "signals_ok (t_signals (arcs k tid))" "sg_pending (t_signals (arcs k tid)) \<noteq> 0"
    and "signum = trailing_zeros (sg_pending (t_signals (arcs k tid)))" "handler = sg_handlers (t_signals (arcs k tid)) ! signum"
    and "0 < handler" "152 \<le> unat (f_user_rsp frame)"
  shows "signum < MAX_SIGNALS \<and> (\<exists>k' m' frame' n. deliver_pending_signal k m frame = Inr (Delivered k' m' frame') \<and>
     (\<forall>j. bit (sg_pending (t_signals (arcs k' tid))) j \<longleftrightarrow> bit (sg_pending (t_signals (arcs k tid))) j \<and> j \<noteq> signum) \<and>
     frame' = frame\<lparr>f_rcx := word_of_nat handler, f_user_rsp := word_of_nat n, f_rdi := word_of_nat signum\<rparr> \<and>
     16 dvd n \<and> n + 152 \<le> unat (f_user_rsp frame) \<and> (\<forall>x. x < n \<or> n + 152 \<le> x \<longrightarrow> m' x = m x) \<and>
     load_u64 m' n = word_of_nat (n + 8) \<and> read_bytes m' (n + 8) 10 = TRAMPOLINE \<and>
     (\<forall>m2 frame2. f_user_rsp frame2 = word_of_nat (n + 8) \<longrightarrow> (\<forall>x. n + 24 \<le> x \<and> x < n + 152 \<longrightarrow> m2 x = m' x) \<longrightarrow>
        sys_sigreturn m2 frame2 = Inr (f_rax frame, frame)))"
proof -
  let ?s = "t_signals (arcs k tid)"
  obtain sg where sg: "next_pending ?s = Inr (Some (sg, sg_handlers ?s ! unat sg))" "unat sg = signum" "unat sg < 32"
    using next_pending_Some [OF assms(3,4)] assms(5) by metis
  let ?k = "upd_task k tid (\<lambda>x. x\<lparr>t_signals := clear_pending (t_signals x) sg\<rparr>)"
  define n where "n = (unat (f_user_rsp frame) - 152) div 16 * 16"
  obtain m' where p: "push_signal_frame m frame sg handler =
      Inr (m', frame\<lparr>f_rcx := word_of_nat handler, f_user_rsp := word_of_nat n, f_rdi := ucast sg\<rparr>)"
    "n + 152 \<le> unat (f_user_rsp frame)" "n < 2 ^ 64 - 152" "read_frame m' (n + 24) = frame" "load_u64 m' n = word_of_nat (n + 8)"
    "read_bytes m' (n + 8) 10 = TRAMPOLINE" "\<And>x. x < n \<or> n + 152 \<le> x \<Longrightarrow> m' x = m x"
    by (rule push_signal_frame_ok [OF refl assms(8), folded n_def, of m sg handler]) (rule that)
  have u: "(ucast sg :: u64) = word_of_nat signum" unfolding sg(2) [symmetric] by simp
  have d: "deliver_pending_signal k m frame =
      Inr (Delivered ?k m' (frame\<lparr>f_rcx := word_of_nat handler, f_user_rsp := word_of_nat n, f_rdi := word_of_nat signum\<rparr>))"
    using assms(1,2,6,7) sg(1,2) p(1) u by (simp add: deliver_pending_signal_def table_get_def Let_def)
  have c: "bit (sg_pending (t_signals (arcs ?k tid))) j \<longleftrightarrow> bit (sg_pending ?s) j \<and> j \<noteq> signum" for j
    using pending_cleared [OF sg(3), of ?s j] sg(2) by (simp add: upd_task_def)
  have ret: "sys_sigreturn m2 frame2 = Inr (f_rax frame, frame)"
    if "f_user_rsp frame2 = word_of_nat (n + 8)" "\<forall>x. n + 24 \<le> x \<and> x < n + 152 \<longrightarrow> m2 x = m' x" for m2 frame2
  proof -
    have "unat (f_user_rsp frame2) = n + 8" unfolding that(1) by (subst unat_of_nat) (use p(3) in simp)
    moreover have "read_frame m2 (n + 24) = frame" using read_frame_cong [of "n + 24" m2 m'] that(2) p(4) by simp
    ultimately show ?thesis using p(3) by (simp add: sys_sigreturn_def add_u64_def U64_LIMIT_def ac_simps)
  qed
  have "16 dvd n" by (simp add: n_def)
  then show ?thesis using sg(2,3) d c p(2,5-7) ret unfolding MAX_SIGNALS_def by blast
qed

text \<open>The boot task with signal 3 pending and a handler at \<open>0x400000\<close>.\<close>

theorem signal_round_trip_witness:
  "\<exists>(k :: unit kernel) k' m' frame' n. sg_pending (t_signals (arcs k 1)) = 8 \<and>
     deliver_pending_signal k (\<lambda>_. 0) (read_frame (\<lambda>_. 255) 0\<lparr>f_user_rsp := 0x7000\<rparr>) = Inr (Delivered k' m' frame') \<and>
     f_rcx frame' = 0x400000 \<and> f_rdi frame' = 3 \<and> f_user_rsp frame' = word_of_nat n \<and>
     sys_sigreturn m' (frame'\<lparr>f_user_rsp := word_of_nat (n + 8)\<rparr>) =
       Inr (f_rax (read_frame (\<lambda>_. 255) 0), read_frame (\<lambda>_. 255) 0\<lparr>f_user_rsp := 0x7000\<rparr>)"
proof -
  let ?sig = "\<lparr>sg_pending = 8, sg_handlers = (replicate 32 0)[3 := 0x400000]\<rparr>"
  let ?f = "read_frame (\<lambda>_. 255) 0\<lparr>f_user_rsp := 0x7000\<rparr>"
  obtain k0 :: "unit kernel" where k0: "sched_inv k0" "current k0 = Some 1" "task_table k0 = {1, 2}"
    using sched_init_ok [of "\<lambda>_. 0" "0x10000" "0x40000" "()" "0x1000" "0x2000" "0x3000"] by metis
  define k where "k = upd_task k0 1 (\<lambda>x. x\<lparr>t_signals := ?sig, t_tid := 1\<rparr>)"
  have tz: "trailing_zeros 8 = 3" by code_simp
  have k: "current_tid k = Inr 1" "1 \<in> task_table k" "t_signals (arcs k 1) = ?sig"
    using k0 by (simp_all add: k_def upd_task_def current_tid_def)
  have r: "152 \<le> unat (f_user_rsp ?f)" by simp
  have ok: "signals_ok (t_signals (arcs k 1))" "sg_pending (t_signals (arcs k 1)) \<noteq> 0" using k(3) by (simp_all add: signals_ok_def MAX_SIGNALS_def)
  have h: "3 = trailing_zeros (sg_pending (t_signals (arcs k 1)))" "0x400000 = sg_handlers (t_signals (arcs k 1)) ! 3"
    using k(3) tz by simp_all
  from signal_round_trip [OF k(1,2) ok h _ r, of "\<lambda>_. 0"]
  obtain k' m' frame' n where d: "deliver_pending_signal k (\<lambda>_. 0) ?f = Inr (Delivered k' m' frame')"
    "frame' = ?f\<lparr>f_rcx := word_of_nat 0x400000, f_user_rsp := word_of_nat n, f_rdi := word_of_nat 3\<rparr>"
    "\<forall>m2 frame2. f_user_rsp frame2 = word_of_nat (n + 8) \<longrightarrow> (\<forall>x. n + 24 \<le> x \<and> x < n + 152 \<longrightarrow> m2 x = m' x) \<longrightarrow>
        sys_sigreturn m2 frame2 = Inr (f_rax ?f, ?f)" by auto
  have "sys_sigreturn m' (frame'\<lparr>f_user_rsp := word_of_nat (n + 8)\<rparr>) = Inr (f_rax ?f, ?f)" by (rule d(3) [rule_format]) simp_all
  moreover have "f_rax ?f = f_rax (read_frame (\<lambda>_. 255) 0)" by simp
  ultimately show ?thesis using d(1,2) k(3) by (intro exI [of _ k] exI [of _ k'] exI [of _ m'] exI [of _ frame'] exI [of _ n]) simp
qed

end
