(* ===== verification/Syscalls.thy ===== *)
theory Syscalls
  imports Ipc Console VmmFork Loader Signal Security Vfs
begin

text \<open>
  The system-call dispatcher of \<^verbatim>\<open>syscall/dispatch.rs\<close>: one definition per arm of the match, over the state of
  all the components it calls. A call that waits gives up the processor inside its loop and is entered again
  when the task runs next; \<open>Waiting n\<close> is that point, with the number of bytes transferred so far.
\<close>

unbundle bit_operations_syntax

subsection \<open>System-call numbers\<close>

definition SYS_FORK :: nat where "SYS_FORK = 0"
definition SYS_EXIT :: nat where "SYS_EXIT = 1"
definition SYS_WAITPID :: nat where "SYS_WAITPID = 2"
definition SYS_GETPID :: nat where "SYS_GETPID = 3"
definition SYS_GETPPID :: nat where "SYS_GETPPID = 4"
definition SYS_CLONE :: nat where "SYS_CLONE = 5"
definition SYS_GETTID :: nat where "SYS_GETTID = 6"
definition SYS_JOIN :: nat where "SYS_JOIN = 7"
definition SYS_YIELD :: nat where "SYS_YIELD = 8"
definition SYS_MUTEX_LOCK :: nat where "SYS_MUTEX_LOCK = 9"
definition SYS_MUTEX_TRYLOCK :: nat where "SYS_MUTEX_TRYLOCK = 10"
definition SYS_MUTEX_UNLOCK :: nat where "SYS_MUTEX_UNLOCK = 11"
definition SYS_CONDVAR_WAIT :: nat where "SYS_CONDVAR_WAIT = 12"
definition SYS_CONDVAR_SIGNAL :: nat where "SYS_CONDVAR_SIGNAL = 13"
definition SYS_CONDVAR_BROADCAST :: nat where "SYS_CONDVAR_BROADCAST = 14"
definition SYS_TRYLOCK :: nat where "SYS_TRYLOCK = 15"
definition SYS_GETRESOURCE :: nat where "SYS_GETRESOURCE = 16"
definition SYS_BRK :: nat where "SYS_BRK = 17"
definition SYS_MPROTECT :: nat where "SYS_MPROTECT = 18"
definition SYS_READ :: nat where "SYS_READ = 19"
definition SYS_WRITE :: nat where "SYS_WRITE = 20"
definition SYS_IOCTL :: nat where "SYS_IOCTL = 21"
definition SYS_OPEN_DEV :: nat where "SYS_OPEN_DEV = 22"
definition SYS_CLOSE_DEV :: nat where "SYS_CLOSE_DEV = 23"
definition SYS_OPEN :: nat where "SYS_OPEN = 24"
definition SYS_CLOSE :: nat where "SYS_CLOSE = 25"
definition SYS_SEEK :: nat where "SYS_SEEK = 26"
definition SYS_CREATE :: nat where "SYS_CREATE = 27"
definition SYS_DELETE :: nat where "SYS_DELETE = 28"
definition SYS_RENAME :: nat where "SYS_RENAME = 30"
definition SYS_MKDIR :: nat where "SYS_MKDIR = 31"
definition SYS_RMDIR :: nat where "SYS_RMDIR = 32"
definition SYS_GETDENTS :: nat where "SYS_GETDENTS = 33"
definition SYS_STAT :: nat where "SYS_STAT = 34"
definition SYS_CHMOD :: nat where "SYS_CHMOD = 35"
definition SYS_CHOWN :: nat where "SYS_CHOWN = 36"
definition SYS_MARK_SHARED :: nat where "SYS_MARK_SHARED = 39"
definition SYS_MSG_SEND :: nat where "SYS_MSG_SEND = 40"
definition SYS_MSG_RECV :: nat where "SYS_MSG_RECV = 41"
definition SYS_SHM_OPEN :: nat where "SYS_SHM_OPEN = 42"
definition SYS_SHM_CLOSE :: nat where "SYS_SHM_CLOSE = 43"
definition SYS_PIPE_CREATE :: nat where "SYS_PIPE_CREATE = 44"
definition SYS_PIPE_READ :: nat where "SYS_PIPE_READ = 45"
definition SYS_PIPE_WRITE :: nat where "SYS_PIPE_WRITE = 46"
definition SYS_PIPE_CLOSE :: nat where "SYS_PIPE_CLOSE = 47"
definition SYS_LOGIN :: nat where "SYS_LOGIN = 48"
definition SYS_LOGOUT :: nat where "SYS_LOGOUT = 49"
definition SYS_ACCESS :: nat where "SYS_ACCESS = 50"
definition SYS_GRANT :: nat where "SYS_GRANT = 51"
definition SYS_REVOKE :: nat where "SYS_REVOKE = 52"
definition SYS_KILL :: nat where "SYS_KILL = 53"
definition SYS_SIGRETURN :: nat where "SYS_SIGRETURN = 54"
definition SYS_SIGNAL :: nat where "SYS_SIGNAL = 55"

lemmas syscall_numbers =
  SYS_FORK_def SYS_EXIT_def SYS_WAITPID_def SYS_GETPID_def SYS_GETPPID_def SYS_CLONE_def SYS_GETTID_def SYS_JOIN_def SYS_YIELD_def
  SYS_MUTEX_LOCK_def SYS_MUTEX_TRYLOCK_def SYS_MUTEX_UNLOCK_def SYS_CONDVAR_WAIT_def SYS_CONDVAR_SIGNAL_def SYS_CONDVAR_BROADCAST_def
  SYS_TRYLOCK_def SYS_GETRESOURCE_def SYS_BRK_def SYS_MPROTECT_def SYS_READ_def SYS_WRITE_def SYS_IOCTL_def SYS_OPEN_DEV_def
  SYS_CLOSE_DEV_def SYS_OPEN_def SYS_CLOSE_def SYS_SEEK_def SYS_CREATE_def SYS_DELETE_def SYS_RENAME_def SYS_MKDIR_def SYS_RMDIR_def
  SYS_GETDENTS_def SYS_STAT_def SYS_CHMOD_def SYS_CHOWN_def SYS_MARK_SHARED_def SYS_MSG_SEND_def SYS_MSG_RECV_def SYS_SHM_OPEN_def
  SYS_SHM_CLOSE_def SYS_PIPE_CREATE_def SYS_PIPE_READ_def SYS_PIPE_WRITE_def SYS_PIPE_CLOSE_def SYS_LOGIN_def SYS_LOGOUT_def
  SYS_ACCESS_def SYS_GRANT_def SYS_REVOKE_def SYS_KILL_def SYS_SIGRETURN_def SYS_SIGNAL_def

subsection \<open>Error codes\<close>

definition ENOSYS :: int where "ENOSYS = -38"
definition EAGAIN :: int where "EAGAIN = -11"
definition EPIPE :: int where "EPIPE = -32"
definition EMSGSIZE :: int where "EMSGSIZE = -90"
definition EACCES :: int where "EACCES = -13"
definition EEXIST :: int where "EEXIST = -17"
definition ENOTDIR :: int where "ENOTDIR = -20"
definition EISDIR :: int where "EISDIR = -21"
definition EBUSY :: int where "EBUSY = -16"
definition EROFS :: int where "EROFS = -30"
definition ENODEV :: int where "ENODEV = -19"

fun fs_err :: "fs_error \<Rightarrow> int" where
  "fs_err NotFound = ENOENT"
| "fs_err AlreadyExists = EEXIST"
| "fs_err PermissionDenied = EACCES"
| "fs_err Locked = EBUSY"
| "fs_err IsShared = EROFS"
| "fs_err NotOpen = EBADF"
| "fs_err InvalidPath = EFAULT"
| "fs_err NotADirectory = ENOTDIR"
| "fs_err IsADirectory = EISDIR"
| "fs_err NotMounted = ENODEV"

fun ipc_err :: "ipc_error \<Rightarrow> int" where
  "ipc_err Closed = EPIPE"
| "ipc_err WouldBlock = EAGAIN"
| "ipc_err TooLarge = EMSGSIZE"

text \<open>\<^verbatim>\<open>u64 as isize\<close>: the two's-complement reading.\<close>

definition as_isize :: "nat \<Rightarrow> int" where
  "as_isize n = (if n < 2 ^ 63 then int n else int n - 2 ^ 64)"

subsection \<open>The state behind the calls\<close>

text \<open>
  \<open>s_mem\<close> is memory as the address space in use shows it, outside the window on physical memory, which belongs
  to \<open>s_space\<close> with the page table in use. \<open>s_tables\<close> holds the page tables of the other address spaces by
  their top-level frames.
\<close>

record ('d, 'pt) sys =
  s_k :: "vmm kernel"
  s_ids :: id_counters
  s_mem :: memory
  s_resources :: "queued_resource handle_table"
  s_ipc :: "ipc_channel handle_table"
  s_shm :: "string \<rightharpoonup> shared_mem"
  s_fs :: "'d logical_fs"
  s_devices :: device_table
  s_console :: console
  s_ring :: ring
  s_access :: rbac
  s_space :: "'pt space"
  s_tables :: "nat \<rightharpoonup> 'pt"
  s_kernel_l4 :: "bool list option"
  s_cr3 :: nat

text \<open>
  What the dispatcher takes from outside: the volume, the hash, the Unicode tables, the page tables, whether an
  address is canonical, the kernel stack the allocator returns, the address of the task trampoline, the
  undefined padding of a structure, and the depth up to which directories are followed.
\<close>

record ('d, 'pt) sys_env =
  e_fat :: "'d fat_ops"
  e_sha :: "u8 list \<Rightarrow> u8 list"
  e_lower :: "path \<Rightarrow> path"
  e_lossy :: "u8 list \<Rightarrow> string"
  e_phys :: phys_ops
  e_pt :: "('pt, free_list \<times> memory) pt_ops"
  e_table_at :: "memory \<Rightarrow> nat \<Rightarrow> 'pt"
  e_virt_ok :: "nat \<Rightarrow> bool"
  e_stack :: nat
  e_trampoline :: nat
  e_padding :: "u8 list"
  e_fuel :: nat

datatype sys_out = Ret int | Waiting nat | NoReturn

definition current_uid_gid :: "'v kernel \<Rightarrow> (nat \<times> nat) res" where
  "current_uid_gid k =
     rbind (current_tid k) (\<lambda>tid.
     case table_get (task_table k) tid of
       Some t \<Rightarrow> Inr (t_uid (arcs k t), t_gid (arcs k t))
     | None \<Rightarrow> Inr (0, 0))"

definition CONSOLE_DEV :: nat where
  "CONSOLE_DEV = 0"

fun console_read :: "nat \<Rightarrow> console \<Rightarrow> ring \<Rightarrow> (u8 list \<times> console \<times> ring) res option" where
  "console_read 0 c r = Some (Inr ([], c, r))"
| "console_read (Suc n) c r =
     (case console_get c r of
        None \<Rightarrow> None
      | Some (Inl e) \<Rightarrow> Some (Inl e)
      | Some (Inr (None, c', r')) \<Rightarrow> Some (Inr ([], c', r'))
      | Some (Inr (Some ch, c', r')) \<Rightarrow> map_option (\<lambda>x. rbind x (\<lambda>(bs, s). Inr (ch # bs, s))) (console_read n c' r'))"

definition dev_read :: "nat \<Rightarrow> nat \<Rightarrow> console \<Rightarrow> ring \<Rightarrow> (int \<times> u8 list \<times> console \<times> ring) res option" where
  "dev_read dev_idx len c r =
     (if dev_idx = CONSOLE_DEV
      then map_option (\<lambda>x. rbind x (\<lambda>(bs, s). Inr (if bs = [] then EAGAIN else as_isize (length bs), bs, s))) (console_read len c r)
      else Some (Inr (ENODEV, [], c, r)))"

definition dev_write :: "nat \<Rightarrow> u8 list \<Rightarrow> console \<Rightarrow> int \<times> console" where
  "dev_write dev_idx buf c =
     (if dev_idx = CONSOLE_DEV then (as_isize (length buf), fold (\<lambda>b c. console_put c b) buf c) else (ENODEV, c))"

definition str_from_user :: "memory \<Rightarrow> nat \<Rightarrow> nat \<Rightarrow> u8 list option" where
  "str_from_user m ptr len =
     (if ptr = 0 \<or> len = 0 then None
      else let s = read_bytes m ptr len in if utf8 s then Some s else None)"

subsection \<open>Processes, threads and scheduling\<close>

definition sys_waitpid :: "('d, 'pt) sys \<Rightarrow> nat \<Rightarrow> (sys_out \<times> ('d, 'pt) sys) res" where
  "sys_waitpid s pid =
     rbind (wait_round (s_k s) pid) (\<lambda>(r, k). Inr (case r of Some c \<Rightarrow> Ret c | None \<Rightarrow> Waiting 0, s\<lparr>s_k := k\<rparr>))"

definition sys_join :: "('d, 'pt) sys \<Rightarrow> nat \<Rightarrow> (sys_out \<times> ('d, 'pt) sys) res" where
  "sys_join s tid =
     rbind (wait_tid_round (s_k s) tid) (\<lambda>(r, k). Inr (case r of Some c \<Rightarrow> Ret c | None \<Rightarrow> Waiting 0, s\<lparr>s_k := k\<rparr>))"

definition sys_exit :: "('d, 'pt) sys \<Rightarrow> nat \<Rightarrow> (sys_out \<times> ('d, 'pt) sys) res" where
  "sys_exit s code = rbind (lifecycle_exit (s_k s) (sint (word_of_nat code :: u32))) (\<lambda>k. Inr (NoReturn, s\<lparr>s_k := k\<rparr>))"

definition sys_clone :: "('d, 'pt) sys_env \<Rightarrow> ('d, 'pt) sys \<Rightarrow> nat \<Rightarrow> nat \<Rightarrow> nat \<Rightarrow> (int \<times> ('d, 'pt) sys) res" where
  "sys_clone E s flags entry priority =
     (if \<not> bit flags 8 then Inr (ENOSYS, s)
      else rbind (current_tid (s_k s)) (\<lambda>curr_tid.
           case table_get (task_table (s_k s)) curr_tid of
             None \<Rightarrow> Inr (EBADF, s)
           | Some t \<Rightarrow>
               (let parent = arcs (s_k s) t;
                    (x, ids, m) = clone_thread parent (s_ids s) (s_mem s) (e_stack E) vmm_new (e_trampoline E) entry (priority mod 256);
                    x' = (if bit flags 11 then x\<lparr>t_signals := (t_signals x)\<lparr>sg_handlers := sg_handlers (t_signals parent)\<rparr>\<rparr> else x)
                in Inr (as_isize (t_tid x'), s\<lparr>s_k := spawn (s_k s) x', s_ids := ids, s_mem := m\<rparr>))))"

text \<open>
  \<^verbatim>\<open>SYS_FORK\<close>: the child gets a table with the kernel half, the pages of the parent copy-on-write, and a kernel
  stack of its own.
\<close>

definition sys_fork :: "('d, 'pt) sys_env \<Rightarrow> ('d, 'pt) sys \<Rightarrow> nat \<Rightarrow> (int \<times> ('d, 'pt) sys) res" where
  "sys_fork E s entry =
     rbind (current_tid (s_k s)) (\<lambda>curr_tid.
     rbind (clone_kernel_half (e_phys E) (e_table_at E) (s_kernel_l4 s) (s_cr3 s) (s_space s)) (\<lambda>(child_l4, child_pt, sp1).
     case table_get (task_table (s_k s)) curr_tid of
       None \<Rightarrow> Inr (EBADF, s\<lparr>s_space := sp1\<rparr>)
     | Some t \<Rightarrow>
         (let parent = arcs (s_k s) t
          in rbind (fork_cow (e_phys E) (e_pt E) (t_vmm parent) (sp_pt sp1) (sp1\<lparr>sp_pt := child_pt\<rparr>)) (\<lambda>(child_vmm, parent_pt, sp2).
             let (child, ids, m) = fork_kernel parent (s_ids s) (s_mem s) (e_stack E) vmm_new (e_trampoline E) entry (t_priority parent);
                 child' = child\<lparr>t_cr3 := child_l4, t_vmm := child_vmm\<rparr>
             in Inr (as_isize (t_pid child'),
                     s\<lparr>s_k := spawn (s_k s) child', s_ids := ids, s_mem := m, s_space := sp2\<lparr>sp_pt := parent_pt\<rparr>,
                       s_tables := (s_tables s)(child_l4 \<mapsto> sp_pt sp2)\<rparr>)))))"

subsection \<open>Locks\<close>

definition sys_getresource :: "('d, 'pt) sys \<Rightarrow> (int \<times> ('d, 'pt) sys) res" where
  "sys_getresource s = rbind (handle_insert (s_resources s) resource_new) (\<lambda>(h, tbl). Inr (as_isize h, s\<lparr>s_resources := tbl\<rparr>))"

text \<open>The object behind a handle is shared; its new value is the one every holder of the handle sees.\<close>

definition handle_put :: "'a handle_table \<Rightarrow> nat \<Rightarrow> 'a \<Rightarrow> 'a handle_table" where
  "handle_put tbl h obj = tbl\<lparr>handle_map := (handle_map tbl)(h \<mapsto> obj)\<rparr>"

definition sys_mutex_lock :: "('d, 'pt) sys \<Rightarrow> nat \<Rightarrow> (sys_out \<times> ('d, 'pt) sys) res" where
  "sys_mutex_lock s h =
     (case handle_get (s_resources s) h of
        None \<Rightarrow> Inr (Ret EBADF, s)
      | Some r \<Rightarrow> rbind (resource_lock_round (s_k s) r) (\<lambda>(got, k, r').
          Inr (if got then Ret 0 else Waiting 0, s\<lparr>s_k := k, s_resources := handle_put (s_resources s) h r'\<rparr>)))"

definition sys_mutex_trylock :: "('d, 'pt) sys \<Rightarrow> nat \<Rightarrow> int \<times> ('d, 'pt) sys" where
  "sys_mutex_trylock s h =
     (case handle_get (s_resources s) h of
        None \<Rightarrow> (EBADF, s)
      | Some r \<Rightarrow> (let (got, r') = resource_try_lock r
                   in (if got then 0 else EAGAIN, s\<lparr>s_resources := handle_put (s_resources s) h r'\<rparr>)))"

definition sys_on_resource :: "(vmm kernel \<Rightarrow> queued_resource \<Rightarrow> vmm kernel \<times> queued_resource) \<Rightarrow>
    ('d, 'pt) sys \<Rightarrow> nat \<Rightarrow> int \<times> ('d, 'pt) sys" where
  "sys_on_resource f s h =
     (case handle_get (s_resources s) h of
        None \<Rightarrow> (EBADF, s)
      | Some r \<Rightarrow> (let (k, r') = f (s_k s) r in (0, s\<lparr>s_k := k, s_resources := handle_put (s_resources s) h r'\<rparr>)))"

definition sys_mutex_unlock :: "('d, 'pt) sys \<Rightarrow> nat \<Rightarrow> int \<times> ('d, 'pt) sys" where
  "sys_mutex_unlock = sys_on_resource resource_unlock"

definition sys_condvar_signal :: "('d, 'pt) sys \<Rightarrow> nat \<Rightarrow> int \<times> ('d, 'pt) sys" where
  "sys_condvar_signal = sys_on_resource resource_signal"

definition sys_condvar_broadcast :: "('d, 'pt) sys \<Rightarrow> nat \<Rightarrow> int \<times> ('d, 'pt) sys" where
  "sys_condvar_broadcast = sys_on_resource resource_broadcast"

text \<open>Waiting releases the lock and blocks; when the task runs again it takes the lock.\<close>

definition sys_condvar_wait :: "('d, 'pt) sys \<Rightarrow> nat \<Rightarrow> nat option \<Rightarrow> (sys_out \<times> ('d, 'pt) sys) res" where
  "sys_condvar_wait s h resumed =
     (case resumed of
        Some _ \<Rightarrow> sys_mutex_lock s h
      | None \<Rightarrow>
          (case handle_get (s_resources s) h of
             None \<Rightarrow> Inr (Ret EBADF, s)
           | Some r \<Rightarrow> rbind (resource_wait (s_k s) r) (\<lambda>(k, r').
               Inr (Waiting 0, s\<lparr>s_k := k, s_resources := handle_put (s_resources s) h r'\<rparr>))))"

subsection \<open>Inter-process communication\<close>

definition sys_pipe_create :: "('d, 'pt) sys \<Rightarrow> (int \<times> ('d, 'pt) sys) res" where
  "sys_pipe_create s = rbind (handle_insert (s_ipc s) (ChPipe pipe_new)) (\<lambda>(h, tbl). Inr (as_isize h, s\<lparr>s_ipc := tbl\<rparr>))"

text \<open>
  The guard of \<^verbatim>\<open>IPC_TABLE\<close> taken in the condition lives to the end of the branch, where the table is locked
  again: with an existing handle the call spins forever.
\<close>

definition sys_pipe_close :: "('d, 'pt) sys \<Rightarrow> nat \<Rightarrow> (int \<times> ('d, 'pt) sys) res" where
  "sys_pipe_close s h =
     rbind (spin_lock (s_k s) False) (\<lambda>(k, locked).
     case handle_get (s_ipc s) h of
       None \<Rightarrow> Inr (EBADF, s\<lparr>s_k := fst (guard_drop k locked)\<rparr>)
     | Some ch \<Rightarrow>
         (let (k1, ch') = ipc_close k ch
          in rbind (spin_lock k1 locked) (\<lambda>(k2, locked2).
             let (k3, _) = guard_drop k2 locked2; (k4, _) = guard_drop k3 True
             in Inr (0, s\<lparr>s_k := k4, s_ipc := handle_remove (s_ipc s) h\<rparr>))))"

text \<open>Reading and writing hold the guard of the table, also while they wait.\<close>

definition sys_pipe_read :: "('d, 'pt) sys \<Rightarrow> nat \<Rightarrow> nat \<Rightarrow> nat \<Rightarrow> nat option \<Rightarrow> (sys_out \<times> ('d, 'pt) sys) res" where
  "sys_pipe_read s h buf_ptr len resumed =
     (if len > 0 \<and> buf_ptr = 0 then Inr (Ret EFAULT, s)
      else let k = (case resumed of None \<Rightarrow> preempt_disable (s_k s) | Some _ \<Rightarrow> s_k s)
           in case handle_get (s_ipc s) h of
                None \<Rightarrow> Inr (Ret EBADF, s\<lparr>s_k := preempt_enable k\<rparr>)
              | Some ch \<Rightarrow>
                  rbind (ipc_recv k ch len) (\<lambda>(r, k', ch').
                  let s' = s\<lparr>s_ipc := handle_put (s_ipc s) h ch'\<rparr>
                  in case r of
                       None \<Rightarrow> Inr (Waiting 0, s'\<lparr>s_k := k'\<rparr>)
                     | Some (Inl e) \<Rightarrow> Inr (Ret (ipc_err e), s'\<lparr>s_k := preempt_enable k'\<rparr>)
                     | Some (Inr bs) \<Rightarrow>
                         Inr (Ret (as_isize (length bs)), s'\<lparr>s_k := preempt_enable k', s_mem := write_bytes (s_mem s) buf_ptr bs\<rparr>)))"

definition ipc_send :: "'v kernel \<Rightarrow> ipc_channel \<Rightarrow> u8 list \<Rightarrow> nat \<Rightarrow> ((ipc_error + unit) option \<times> nat \<times> 'v kernel \<times> ipc_channel) res" where
  "ipc_send k ch data sent =
     (case ch of
        ChPipe p \<Rightarrow> rbind (pipe_send k p data sent) (\<lambda>(r, n, k', p'). Inr (r, n, k', ChPipe p'))
      | ChMsg q \<Rightarrow> rbind (msg_send k q data) (\<lambda>(r, k', q'). Inr (r, 0, k', ChMsg q'))
      | ChShm sh \<Rightarrow> Inr (Some (Inl WouldBlock), 0, k, ch))"

definition sys_pipe_write :: "('d, 'pt) sys \<Rightarrow> nat \<Rightarrow> nat \<Rightarrow> nat \<Rightarrow> nat option \<Rightarrow> (sys_out \<times> ('d, 'pt) sys) res" where
  "sys_pipe_write s h buf_ptr len resumed =
     (if len > 0 \<and> buf_ptr = 0 then Inr (Ret EFAULT, s)
      else let (k, sent) = (case resumed of None \<Rightarrow> (preempt_disable (s_k s), 0) | Some n \<Rightarrow> (s_k s, n))
           in case handle_get (s_ipc s) h of
                None \<Rightarrow> Inr (Ret EBADF, s\<lparr>s_k := preempt_enable k\<rparr>)
              | Some ch \<Rightarrow>
                  rbind (ipc_send k ch (read_bytes (s_mem s) buf_ptr len) sent) (\<lambda>(r, n, k', ch').
                  let s' = s\<lparr>s_ipc := handle_put (s_ipc s) h ch'\<rparr>
                  in case r of
                       None \<Rightarrow> Inr (Waiting n, s'\<lparr>s_k := k'\<rparr>)
                     | Some (Inl e) \<Rightarrow> Inr (Ret (ipc_err e), s'\<lparr>s_k := preempt_enable k'\<rparr>)
                     | Some (Inr _) \<Rightarrow> Inr (Ret 0, s'\<lparr>s_k := preempt_enable k'\<rparr>)))"

definition sys_shm_open :: "('d, 'pt) sys_env \<Rightarrow> ('d, 'pt) sys \<Rightarrow> nat \<Rightarrow> nat \<Rightarrow> nat \<Rightarrow> (int \<times> ('d, 'pt) sys) res" where
  "sys_shm_open E s name_ptr name_len sz =
     (if name_ptr = 0 \<or> name_len = 0 then Inr (EFAULT, s)
      else let name = e_lossy E (read_bytes (s_mem s) name_ptr name_len);
               shm = (case s_shm s name of Some shm \<Rightarrow> shm | None \<Rightarrow> shm_new name sz);
               s1 = s\<lparr>s_shm := (s_shm s)(name \<mapsto> shm)\<rparr>
           in rbind (handle_insert (s_ipc s1) (ChShm shm)) (\<lambda>(h, tbl). Inr (as_isize h, s1\<lparr>s_ipc := tbl\<rparr>)))"

definition sys_shm_close :: "('d, 'pt) sys \<Rightarrow> nat \<Rightarrow> int \<times> ('d, 'pt) sys" where
  "sys_shm_close s h = (0, s\<lparr>s_ipc := handle_remove (s_ipc s) h\<rparr>)"

subsection \<open>Files and devices\<close>

definition fs_ret :: "('d, 'a) fs_result \<Rightarrow> ('a \<Rightarrow> int) \<Rightarrow> ('d, 'pt) sys \<Rightarrow> (int \<times> ('d, 'pt) sys) res" where
  "fs_ret r f s = rbind r (\<lambda>(x, fs). Inr (case x of Inl e \<Rightarrow> fs_err e | Inr a \<Rightarrow> f a, s\<lparr>s_fs := fs\<rparr>))"

text \<open>Calls on a path that user memory holds.\<close>

definition with_path :: "('d, 'pt) sys \<Rightarrow> nat \<Rightarrow> nat \<Rightarrow> (u8 list \<Rightarrow> (int \<times> ('d, 'pt) sys) res) \<Rightarrow> (int \<times> ('d, 'pt) sys) res" where
  "with_path s ptr len f = (case str_from_user (s_mem s) ptr len of None \<Rightarrow> Inr (EFAULT, s) | Some p \<Rightarrow> f p)"

definition sys_open :: "('d, 'pt) sys_env \<Rightarrow> ('d, 'pt) sys \<Rightarrow> nat \<Rightarrow> nat \<Rightarrow> (int \<times> ('d, 'pt) sys) res" where
  "sys_open E s ptr len =
     with_path s ptr len (\<lambda>p.
     rbind (current_pid (s_k s)) (\<lambda>pid.
     rbind (current_uid_gid (s_k s)) (\<lambda>(uid, gid).
     fs_ret (fs_open (e_fat E) (e_lower E) (s_fs s) p pid (word_of_nat uid) (word_of_nat gid)) as_isize s)))"

definition sys_close :: "('d, 'pt) sys \<Rightarrow> nat \<Rightarrow> (int \<times> ('d, 'pt) sys) res" where
  "sys_close s fd = rbind (current_pid (s_k s)) (\<lambda>pid. fs_ret (fs_close (s_fs s) fd pid) (\<lambda>_. 0) s)"

definition sys_read :: "('d, 'pt) sys_env \<Rightarrow> ('d, 'pt) sys \<Rightarrow> nat \<Rightarrow> nat \<Rightarrow> nat \<Rightarrow> (int \<times> ('d, 'pt) sys) res option" where
  "sys_read E s fd buf_ptr len =
     (if len > 0 \<and> buf_ptr = 0 then Some (Inr (EFAULT, s))
      else if fd \<ge> DEV_FD_OFFSET then
        map_option (\<lambda>x. rbind x (\<lambda>(n, bs, c, r). Inr (n, s\<lparr>s_console := c, s_ring := r, s_mem := write_bytes (s_mem s) buf_ptr bs\<rparr>)))
          (dev_read (fd - DEV_FD_OFFSET) len (s_console s) (s_ring s))
      else Some (
        rbind (current_pid (s_k s)) (\<lambda>pid.
        rbind (current_uid_gid (s_k s)) (\<lambda>(uid, gid).
        rbind (fs_read (e_fat E) (s_fs s) fd pid (word_of_nat uid) (word_of_nat gid) len) (\<lambda>(x, fs).
        Inr (case x of Inl e \<Rightarrow> (fs_err e, s\<lparr>s_fs := fs\<rparr>)
             | Inr bs \<Rightarrow> (as_isize (length bs), s\<lparr>s_fs := fs, s_mem := write_bytes (s_mem s) buf_ptr bs\<rparr>)))))))"

definition sys_write :: "('d, 'pt) sys_env \<Rightarrow> ('d, 'pt) sys \<Rightarrow> nat \<Rightarrow> nat \<Rightarrow> nat \<Rightarrow> (int \<times> ('d, 'pt) sys) res" where
  "sys_write E s fd buf_ptr len =
     (if len > 0 \<and> buf_ptr = 0 then Inr (EFAULT, s)
      else let buf = read_bytes (s_mem s) buf_ptr len
           in if fd \<ge> DEV_FD_OFFSET then
                (let (n, c) = dev_write (fd - DEV_FD_OFFSET) buf (s_console s) in Inr (n, s\<lparr>s_console := c\<rparr>))
              else
                rbind (current_pid (s_k s)) (\<lambda>pid.
                rbind (current_uid_gid (s_k s)) (\<lambda>(uid, gid).
                fs_ret (fs_write (e_fat E) (s_fs s) fd pid (word_of_nat uid) (word_of_nat gid) buf) as_isize s)))"

definition sys_seek :: "('d, 'pt) sys \<Rightarrow> nat \<Rightarrow> nat \<Rightarrow> (int \<times> ('d, 'pt) sys) res" where
  "sys_seek s fd offset = rbind (current_pid (s_k s)) (\<lambda>pid. fs_ret (fs_seek (s_fs s) fd pid offset) (\<lambda>_. 0) s)"

definition IOCTL_SET_NONBLOCK :: nat where "IOCTL_SET_NONBLOCK = 1"
definition IOCTL_SET_BLOCK :: nat where "IOCTL_SET_BLOCK = 2"

definition sys_ioctl :: "('d, 'pt) sys \<Rightarrow> nat \<Rightarrow> nat \<Rightarrow> int \<times> ('d, 'pt) sys" where
  "sys_ioctl s fd cmd =
     (if fd < DEV_FD_OFFSET then (ENODEV, s)
      else let idx = fd - DEV_FD_OFFSET
           in case device_get (s_devices s) idx of
                None \<Rightarrow> (ENODEV, s)
              | Some st \<Rightarrow>
                  if cmd = IOCTL_SET_NONBLOCK then (0, s\<lparr>s_devices := (s_devices s)[idx := st\<lparr>ds_blocking := False\<rparr>]\<rparr>)
                  else if cmd = IOCTL_SET_BLOCK then (0, s\<lparr>s_devices := (s_devices s)[idx := st\<lparr>ds_blocking := True\<rparr>]\<rparr>)
                  else (ENOSYS, s))"

definition sys_open_dev :: "('d, 'pt) sys \<Rightarrow> nat \<Rightarrow> nat \<Rightarrow> (int \<times> ('d, 'pt) sys) res" where
  "sys_open_dev s ptr len =
     with_path s ptr len (\<lambda>n.
     case device_find (s_devices s) (map (\<lambda>b. char_of (unat b)) n) of
       Some idx \<Rightarrow> rbind (add_u64 idx DEV_FD_OFFSET) (\<lambda>fd. Inr (as_isize fd, s))
     | None \<Rightarrow> Inr (ENODEV, s))"

definition sys_create :: "('d, 'pt) sys_env \<Rightarrow> ('d, 'pt) sys \<Rightarrow> nat \<Rightarrow> nat \<Rightarrow> (int \<times> ('d, 'pt) sys) res" where
  "sys_create E s ptr len =
     with_path s ptr len (\<lambda>p.
     rbind (current_pid (s_k s)) (\<lambda>pid. fs_ret (fs_create (e_fat E) (e_lower E) (s_fs s) p pid) as_isize s))"

definition sys_delete :: "('d, 'pt) sys_env \<Rightarrow> ('d, 'pt) sys \<Rightarrow> nat \<Rightarrow> nat \<Rightarrow> (int \<times> ('d, 'pt) sys) res" where
  "sys_delete E s ptr len = with_path s ptr len (\<lambda>p. fs_ret (fs_delete (e_fat E) (s_fs s) p) (\<lambda>_. 0) s)"

definition sys_rename :: "('d, 'pt) sys_env \<Rightarrow> ('d, 'pt) sys \<Rightarrow> nat \<Rightarrow> nat \<Rightarrow> nat \<Rightarrow> nat \<Rightarrow> (int \<times> ('d, 'pt) sys) res" where
  "sys_rename E s ptr len ptr' len' =
     with_path s ptr len (\<lambda>old. with_path s ptr' len' (\<lambda>new.
     fs_ret (fs_rename (e_fat E) (e_lower E) (s_fs s) old new) (\<lambda>_. 0) s))"

definition sys_mkdir :: "('d, 'pt) sys_env \<Rightarrow> ('d, 'pt) sys \<Rightarrow> nat \<Rightarrow> nat \<Rightarrow> (int \<times> ('d, 'pt) sys) res" where
  "sys_mkdir E s ptr len = with_path s ptr len (\<lambda>p. fs_ret (fs_mkdir (e_fat E) (e_lower E) (s_fs s) p) (\<lambda>_. 0) s)"

definition sys_rmdir :: "('d, 'pt) sys_env \<Rightarrow> ('d, 'pt) sys \<Rightarrow> nat \<Rightarrow> nat \<Rightarrow> (int \<times> ('d, 'pt) sys) res option" where
  "sys_rmdir E s ptr len =
     (case str_from_user (s_mem s) ptr len of
        None \<Rightarrow> Some (Inr (EFAULT, s))
      | Some p \<Rightarrow> map_option (\<lambda>r. fs_ret r (\<lambda>_. 0) s) (fs_rmdir (e_fuel E) (e_fat E) (s_fs s) p))"

definition sys_chmod :: "('d, 'pt) sys \<Rightarrow> nat \<Rightarrow> nat \<Rightarrow> nat \<Rightarrow> (int \<times> ('d, 'pt) sys) res" where
  "sys_chmod s ptr len mode =
     with_path s ptr len (\<lambda>p.
     let bits = word_of_nat mode :: u8;
         owner = drop_bit 6 bits AND 7; grp = drop_bit 3 bits AND 7; world = bits AND 7
     in fs_ret (fs_chmod (s_fs s) p owner grp world) (\<lambda>_. 0) s)"

definition sys_chown :: "('d, 'pt) sys \<Rightarrow> nat \<Rightarrow> nat \<Rightarrow> nat \<Rightarrow> nat \<Rightarrow> (int \<times> ('d, 'pt) sys) res" where
  "sys_chown s ptr len new_uid new_gid =
     with_path s ptr len (\<lambda>p. Inr (0, s\<lparr>s_fs := fs_chown (s_fs s) p (word_of_nat new_uid) (word_of_nat new_gid)\<rparr>))"

definition sys_mark_shared :: "('d, 'pt) sys \<Rightarrow> nat \<Rightarrow> nat \<Rightarrow> (int \<times> ('d, 'pt) sys) res" where
  "sys_mark_shared s ptr len = with_path s ptr len (\<lambda>p. fs_ret (mark_shared (s_fs s) p) (\<lambda>_. 0) s)"

definition dent_record :: "path \<times> bool \<Rightarrow> u8 list" where
  "dent_record e = take 64 (fst e) @ replicate (64 - length (fst e)) 0 @ [if snd e then 1 else 0]"

definition sys_getdents :: "('d, 'pt) sys_env \<Rightarrow> ('d, 'pt) sys \<Rightarrow> nat \<Rightarrow> nat \<Rightarrow> nat \<Rightarrow> nat \<Rightarrow> (int \<times> ('d, 'pt) sys) res" where
  "sys_getdents E s ptr len buf_ptr buf_len =
     with_path s ptr len (\<lambda>p.
     if buf_len > 0 \<and> buf_ptr = 0 then Inr (EFAULT, s)
     else rbind (fs_getdents (e_fat E) (s_fs s) p) (\<lambda>(x, fs).
          Inr (case x of
                 Inl e \<Rightarrow> (fs_err e, s\<lparr>s_fs := fs\<rparr>)
               | Inr entries \<Rightarrow>
                   (let n = min (length entries) (buf_len div 65)
                    in (as_isize n, s\<lparr>s_fs := fs, s_mem := write_bytes (s_mem s) buf_ptr (concat (map dent_record (take n entries)))\<rparr>)))))"

definition sys_stat :: "('d, 'pt) sys_env \<Rightarrow> ('d, 'pt) sys \<Rightarrow> nat \<Rightarrow> nat \<Rightarrow> nat \<Rightarrow> (int \<times> ('d, 'pt) sys) res" where
  "sys_stat E s ptr len out_ptr =
     with_path s ptr len (\<lambda>p.
     if out_ptr = 0 then Inr (EFAULT, s)
     else rbind (fs_stat (e_fat E) (s_fs s) p) (\<lambda>(x, fs).
          Inr (case x of
                 Inl e \<Rightarrow> (fs_err e, s\<lparr>s_fs := fs\<rparr>)
               | Inr st \<Rightarrow> (0, s\<lparr>s_fs := fs, s_mem := write_to_user (s_mem s) out_ptr (e_padding E) st\<rparr>))))"

subsection \<open>Users and rights\<close>

definition set_uid_gid :: "('d, 'pt) sys \<Rightarrow> nat \<Rightarrow> nat \<Rightarrow> ('d, 'pt) sys res" where
  "set_uid_gid s uid gid =
     rbind (current_tid (s_k s)) (\<lambda>tid.
     case table_get (task_table (s_k s)) tid of
       None \<Rightarrow> Inr s
     | Some t \<Rightarrow> Inr (s\<lparr>s_k := upd_task (s_k s) t (\<lambda>x. x\<lparr>t_uid := uid, t_gid := gid\<rparr>)\<rparr>))"

definition sys_login :: "('d, 'pt) sys_env \<Rightarrow> ('d, 'pt) sys \<Rightarrow> nat \<Rightarrow> nat \<Rightarrow> nat \<Rightarrow> (int \<times> ('d, 'pt) sys) res" where
  "sys_login E s uid_arg pwd_ptr pwd_len =
     (let uid = uid_arg mod 2 ^ 32
      in if pwd_ptr = 0 \<or> pwd_len = 0 then Inr (EFAULT, s)
         else if verify_password (e_sha E) (s_fs s) (word_of_nat uid) (read_bytes (s_mem s) pwd_ptr pwd_len)
         then rbind (set_uid_gid s uid uid) (\<lambda>s'. Inr (0, s'))
         else Inr (EACCES, s))"

definition sys_logout :: "('d, 'pt) sys \<Rightarrow> (int \<times> ('d, 'pt) sys) res" where
  "sys_logout s = rbind (set_uid_gid s 0 0) (\<lambda>s'. Inr (0, s'))"

definition sys_access :: "('d, 'pt) sys \<Rightarrow> nat \<Rightarrow> nat \<Rightarrow> int" where
  "sys_access s domain object = int (unat (access (s_access s) (domain mod 2 ^ 32) object))"

definition sys_grant :: "('d, 'pt) sys \<Rightarrow> nat \<Rightarrow> nat \<Rightarrow> nat \<Rightarrow> (int \<times> ('d, 'pt) sys) res" where
  "sys_grant s target object rights =
     rbind (current_uid_gid (s_k s)) (\<lambda>(uid, _).
     let (r, ac) = grant (s_access s) uid (target mod 2 ^ 32) object (word_of_nat rights)
     in Inr (case r of Some _ \<Rightarrow> 0 | None \<Rightarrow> EACCES, s\<lparr>s_access := ac\<rparr>))"

definition sys_revoke :: "('d, 'pt) sys \<Rightarrow> nat \<Rightarrow> nat \<Rightarrow> nat \<Rightarrow> (int \<times> ('d, 'pt) sys) res" where
  "sys_revoke s target object rights =
     rbind (current_uid_gid (s_k s)) (\<lambda>(uid, _).
     let (r, ac) = revoke (s_access s) uid (target mod 2 ^ 32) object (word_of_nat rights)
     in Inr (case r of Some _ \<Rightarrow> 0 | None \<Rightarrow> EACCES, s\<lparr>s_access := ac\<rparr>))"

subsection \<open>Memory\<close>

definition sys_brk :: "('d, 'pt) sys_env \<Rightarrow> ('d, 'pt) sys \<Rightarrow> nat \<Rightarrow> (int \<times> ('d, 'pt) sys) res" where
  "sys_brk E s new_brk =
     rbind (current_tid (s_k s)) (\<lambda>tid.
     case table_get (task_table (s_k s)) tid of
       None \<Rightarrow> Inr (EBADF, s)
     | Some t \<Rightarrow>
         (let task = arcs (s_k s) t; heap_start = t_heap_start task; old_brk = t_brk task
          in if new_brk = 0 then Inr (as_isize old_brk, s)
             else rbind (add_u64 new_brk 0xFFF) (\<lambda>e.
                  let aligned = e div 4096 * 4096;
                      stack_bottom = USER_STACK_TOP - USER_STACK_SIZE;
                      heap_flags = {PRESENT, WRITABLE, USER_ACCESSIBLE}
                  in if aligned < heap_start \<or> aligned \<ge> stack_bottom then Inr (as_isize old_brk, s)
                     else rbind (if aligned > old_brk then Inr (set_heap_end (t_vmm task) heap_start aligned heap_flags, s_space s)
                                 else if aligned < old_brk then shrink_heap (e_pt E) (t_vmm task) (s_space s) heap_start aligned old_brk heap_flags
                                 else Inr (t_vmm task, s_space s)) (\<lambda>(v, sp).
                          Inr (as_isize aligned, s\<lparr>s_k := upd_task (s_k s) t (\<lambda>x. x\<lparr>t_vmm := v, t_brk := aligned\<rparr>), s_space := sp\<rparr>)))))"

definition sys_mprotect :: "('d, 'pt) sys_env \<Rightarrow> ('d, 'pt) sys \<Rightarrow> nat \<Rightarrow> nat \<Rightarrow> nat \<Rightarrow> (int \<times> ('d, 'pt) sys) res" where
  "sys_mprotect E s addr len prot =
     (if addr mod 4096 \<noteq> 0 \<or> len = 0 then Inr (EFAULT, s)
      else rbind (add_u64 len 0xFFF) (\<lambda>e.
           let aligned_len = e div 4096 * 4096;
               flags = {PRESENT, USER_ACCESSIBLE} \<union> (if bit prot 1 then {WRITABLE} else {})
           in rbind (current_tid (s_k s)) (\<lambda>tid.
              case table_get (task_table (s_k s)) tid of
                None \<Rightarrow> Inr (EBADF, s)
              | Some t \<Rightarrow>
                  if \<not> e_virt_ok E addr then Inl ExpectFailed
                  else rbind (mprotect (e_pt E) (t_vmm (arcs (s_k s) t)) (sp_pt (s_space s)) addr aligned_len flags) (\<lambda>(r, v, pt).
                       Inr (case r of Some _ \<Rightarrow> 0 | None \<Rightarrow> EFAULT,
                            s\<lparr>s_k := upd_task (s_k s) t (\<lambda>x. x\<lparr>t_vmm := v\<rparr>), s_space := (s_space s)\<lparr>sp_pt := pt\<rparr>\<rparr>)))))"

subsection \<open>The dispatcher\<close>

text \<open>Arms that return, arms without a panic, and arms that only give a value.\<close>

type_synonym ('d, 'pt) sys_result = "(sys_out \<times> trap_frame \<times> ('d, 'pt) sys) res option"

definition returns :: "trap_frame \<Rightarrow> (int \<times> ('d, 'pt) sys) res \<Rightarrow> ('d, 'pt) sys_result" where
  "returns frame r = Some (rbind r (\<lambda>(n, s). Inr (Ret n, frame, s)))"

definition may_wait :: "trap_frame \<Rightarrow> (sys_out \<times> ('d, 'pt) sys) res \<Rightarrow> ('d, 'pt) sys_result" where
  "may_wait frame r = Some (rbind r (\<lambda>(out, s). Inr (out, frame, s)))"

definition may_diverge :: "trap_frame \<Rightarrow> (int \<times> ('d, 'pt) sys) res option \<Rightarrow> ('d, 'pt) sys_result" where
  "may_diverge frame r = (case r of None \<Rightarrow> None | Some x \<Rightarrow> returns frame x)"

definition syscall_handler :: "('d, 'pt) sys_env \<Rightarrow> nat \<Rightarrow> trap_frame \<Rightarrow> nat option \<Rightarrow> ('d, 'pt) sys \<Rightarrow> ('d, 'pt) sys_result" where
  "syscall_handler E nr frame resumed s =
     (let arg0 = unat (f_rdi frame); arg1 = unat (f_rsi frame); arg2 = unat (f_rdx frame); arg3 = unat (f_r10 frame); k = s_k s
      in if nr = SYS_GETPID then returns frame (rbind (current_pid k) (\<lambda>pid. Inr (as_isize pid, s)))
         else if nr = SYS_GETPPID then returns frame (Inr (case current_ppid k of Some p \<Rightarrow> as_isize p | None \<Rightarrow> -1, s))
         else if nr = SYS_GETTID then returns frame (rbind (current_tid k) (\<lambda>tid. Inr (as_isize tid, s)))
         else if nr = SYS_YIELD then returns frame (rbind (schedule k) (\<lambda>k'. Inr (0, s\<lparr>s_k := k'\<rparr>)))
         else if nr = SYS_EXIT then may_wait frame (sys_exit s arg0)
         else if nr = SYS_WAITPID then may_wait frame (sys_waitpid s arg0)
         else if nr = SYS_GETRESOURCE then returns frame (sys_getresource s)
         else if nr = SYS_MUTEX_LOCK then may_wait frame (sys_mutex_lock s arg0)
         else if nr = SYS_MUTEX_TRYLOCK \<or> nr = SYS_TRYLOCK then returns frame (Inr (sys_mutex_trylock s arg0))
         else if nr = SYS_MUTEX_UNLOCK then returns frame (Inr (sys_mutex_unlock s arg0))
         else if nr = SYS_CONDVAR_WAIT then may_wait frame (sys_condvar_wait s arg0 resumed)
         else if nr = SYS_CONDVAR_SIGNAL then returns frame (Inr (sys_condvar_signal s arg0))
         else if nr = SYS_CONDVAR_BROADCAST then returns frame (Inr (sys_condvar_broadcast s arg0))
         else if nr = SYS_PIPE_CREATE then returns frame (sys_pipe_create s)
         else if nr = SYS_PIPE_CLOSE then returns frame (sys_pipe_close s arg0)
         else if nr = SYS_PIPE_READ \<or> nr = SYS_MSG_RECV then may_wait frame (sys_pipe_read s arg0 arg1 arg2 resumed)
         else if nr = SYS_PIPE_WRITE \<or> nr = SYS_MSG_SEND then may_wait frame (sys_pipe_write s arg0 arg1 arg2 resumed)
         else if nr = SYS_SHM_OPEN then returns frame (sys_shm_open E s arg0 arg1 arg2)
         else if nr = SYS_SHM_CLOSE then returns frame (Inr (sys_shm_close s arg0))
         else if nr = SYS_OPEN then returns frame (sys_open E s arg0 arg1)
         else if nr = SYS_CLOSE then returns frame (sys_close s arg0)
         else if nr = SYS_READ then may_diverge frame (sys_read E s arg0 arg1 arg2)
         else if nr = SYS_WRITE then returns frame (sys_write E s arg0 arg1 arg2)
         else if nr = SYS_SEEK then returns frame (sys_seek s arg0 arg1)
         else if nr = SYS_IOCTL then returns frame (Inr (sys_ioctl s arg0 arg1))
         else if nr = SYS_OPEN_DEV then returns frame (sys_open_dev s arg0 arg1)
         else if nr = SYS_CLOSE_DEV then returns frame (Inr (0, s))
         else if nr = SYS_CREATE then returns frame (sys_create E s arg0 arg1)
         else if nr = SYS_DELETE then returns frame (sys_delete E s arg0 arg1)
         else if nr = SYS_RENAME then returns frame (sys_rename E s arg0 arg1 arg2 arg3)
         else if nr = SYS_MKDIR then returns frame (sys_mkdir E s arg0 arg1)
         else if nr = SYS_RMDIR then may_diverge frame (sys_rmdir E s arg0 arg1)
         else if nr = SYS_CHMOD then returns frame (sys_chmod s arg0 arg1 arg2)
         else if nr = SYS_CHOWN then returns frame (sys_chown s arg0 arg1 arg2 arg3)
         else if nr = SYS_MARK_SHARED then returns frame (sys_mark_shared s arg0 arg1)
         else if nr = SYS_GETDENTS then returns frame (sys_getdents E s arg0 arg1 arg2 arg3)
         else if nr = SYS_STAT then returns frame (sys_stat E s arg0 arg1 arg2)
         else if nr = SYS_LOGIN then returns frame (sys_login E s arg0 arg1 arg2)
         else if nr = SYS_LOGOUT then returns frame (sys_logout s)
         else if nr = SYS_ACCESS then returns frame (Inr (sys_access s arg0 arg1, s))
         else if nr = SYS_GRANT then returns frame (sys_grant s arg0 arg1 arg2)
         else if nr = SYS_REVOKE then returns frame (sys_revoke s arg0 arg1 arg2)
         else if nr = SYS_CLONE then returns frame (sys_clone E s arg0 arg1 arg2)
         else if nr = SYS_JOIN then may_wait frame (sys_join s arg0)
         else if nr = SYS_FORK then returns frame (sys_fork E s arg0)
         else if nr = SYS_KILL then
           (let (n, k') = sys_kill k arg0 (word_of_nat arg1) in returns frame (Inr (n, s\<lparr>s_k := k'\<rparr>)))
         else if nr = SYS_SIGRETURN then
           Some (rbind (sys_sigreturn (s_mem s) frame) (\<lambda>(rax, frame'). Inr (Ret (sint rax), frame', s)))
         else if nr = SYS_SIGNAL then
           returns frame (rbind (sys_signal k (word_of_nat arg0) arg1) (\<lambda>(n, k'). Inr (n, s\<lparr>s_k := k'\<rparr>)))
         else if nr = SYS_BRK then returns frame (sys_brk E s arg0)
         else if nr = SYS_MPROTECT then returns frame (sys_mprotect E s arg0 arg1 arg2)
         else returns frame (Inr (ENOSYS, s)))"

end
