(* ===== verification/SyscallProps.thy ===== *)
theory SyscallProps
  imports Syscalls VfsSafety
begin

text \<open>
  What the system calls keep and what they let a task do: the bounds of the heap, the agreement of the file
  tables under every call, and calls that change who may do what.
\<close>

unbundle bit_operations_syntax

subsection \<open>A small system\<close>

definition example_task :: "vmm task" where
  "example_task = \<lparr>t_pid = 2, t_tid = 2, t_thread_group = 2, t_state = Running, t_rsp = 0, t_cr3 = 0, t_preempt_count = 0,
     t_priority = 0, t_parent = None, t_children = [], t_exit_code = None, t_vmm = vmm_new, t_kernel_stack_top = 0,
     t_scratch = scratch_new 0, t_user_entry = 0x400000, t_user_stack = 0, t_uid = 5, t_gid = 5, t_heap_start = 0x401000,
     t_brk = 0x401000, t_signals = signals_new, t_kernel_stack = 0\<rparr>"

text \<open>One task with one open file; the path \<^verbatim>\<open>/a\<close> lies at address 16 of its memory.\<close>

definition example_sys :: "(path \<rightharpoonup> u8 list, pt_view) sys" where
  "example_sys = \<lparr>s_k = \<lparr>queues = replicate NUM_QUEUES [], current = Some 2, ticks_remaining = 1, total_ticks = 0, needs_reschedule = False,
       arcs = (\<lambda>_. example_task), task_table = {2}, preempt_count = 0\<rparr>,
     s_ids = \<lparr>next_pid = 3, next_tid = 3\<rparr>, s_mem = (\<lambda>a. if a = 16 then 0x2F else if a = 17 then 0x61 else 0),
     s_resources = handle_table_new, s_ipc = handle_table_new, s_shm = Map.empty,
     s_fs = example_fs\<lparr>perms := [([0x2F, 0x61], \<lparr>pe_uid = 5, pe_gid = 5, pe_owner_rwx = 7, pe_group_rwx = 5, pe_world_rwx = 5\<rparr>)]\<rparr>,
     s_devices = [], s_console = console_new, s_ring = ring_empty, s_access = rbac_new,
     s_space = \<lparr>sp_pt = Map.empty, sp_fl = \<lparr>fl_head = None, fl_count = 0, fl_offset = 0\<rparr>, sp_mem = (\<lambda>_. 0), sp_swap = example_partition (\<lambda>_. 0)\<rparr>,
     s_tables = Map.empty, s_kernel_l4 = None, s_cr3 = 0\<rparr>"

definition example_env :: "(path \<rightharpoonup> u8 list, pt_view) sys_env" where
  "example_env = \<lparr>e_fat = simple_fat, e_sha = (\<lambda>bs. bs), e_lower = (\<lambda>p. p), e_lossy = (\<lambda>bs. []), e_phys = example_phys, e_pt = simple_pt_ops,
     e_table_at = (\<lambda>m f. Map.empty), e_virt_ok = (\<lambda>a. True), e_stack = 0, e_trampoline = 0, e_padding = [0, 0, 0, 0], e_fuel = 8\<rparr>"

definition example_frame :: "nat \<Rightarrow> trap_frame" where
  "example_frame arg = \<lparr>f_r15 = 0, f_r14 = 0, f_r13 = 0, f_r12 = 0, f_rbp = 0, f_rbx = 0, f_r11 = 0, f_r10 = 0, f_r9 = 0, f_r8 = 0,
     f_rdi = word_of_nat arg, f_rsi = 2, f_rdx = 0, f_rcx = 0, f_rax = 0, f_user_rsp = 0\<rparr>"

subsection \<open>The heap\<close>

definition stack_bottom :: nat where
  "stack_bottom = USER_STACK_TOP - USER_STACK_SIZE"

definition brk_ok :: "'v task \<Rightarrow> bool" where
  "brk_ok x \<longleftrightarrow> t_heap_start x \<le> t_brk x \<and> t_brk x mod 4096 = 0 \<and> t_brk x < stack_bottom"

text \<open>The running task, entered in the table under its identifier.\<close>

definition running :: "'v kernel \<Rightarrow> nat \<Rightarrow> bool" where
  "running k t \<longleftrightarrow> current k = Some t \<and> t_tid (arcs k t) = t \<and> t \<in> task_table k"

lemma running_tid: "running k t \<Longrightarrow> current_tid k = Inr t \<and> table_get (task_table k) t = Some t"
  by (simp add: running_def current_tid_def table_get_def)

text \<open>
  C33. The end of the heap stays in bounds. Whatever a task passes to \<^verbatim>\<open>SYS_BRK\<close>, if the call returns then the end
  of its heap lies page-aligned between the start of the heap and the stack, the call returns that address, and
  no other task is touched; a request that fits is granted, rounded up to a page. An argument within a page of
  the end of the 64-bit range makes the rounding overflow, which stops the kernel.
\<close>

theorem brk_bounds:
  assumes t: "running (s_k s) t" "brk_ok (arcs (s_k s) t)"
  shows "(\<forall>r s'. sys_brk E s n = Inr (r, s') \<longrightarrow>
      brk_ok (arcs (s_k s') t) \<and> r = int (t_brk (arcs (s_k s') t)) \<and> t_heap_start (arcs (s_k s') t) = t_heap_start (arcs (s_k s) t) \<and>
      (\<forall>u. u \<noteq> t \<longrightarrow> arcs (s_k s') u = arcs (s_k s) u) \<and>
      (n \<noteq> 0 \<longrightarrow> t_heap_start (arcs (s_k s) t) \<le> (n + 4095) div 4096 * 4096 \<longrightarrow> (n + 4095) div 4096 * 4096 < stack_bottom \<longrightarrow>
         t_brk (arcs (s_k s') t) = (n + 4095) div 4096 * 4096)) \<and>
    (n \<noteq> 0 \<longrightarrow> U64_LIMIT \<le> n + 4095 \<longrightarrow> sys_brk E s n = Inl Overflow)"
proof (intro conjI allI impI)
  let ?x = "arcs (s_k s) t" and ?n = "(n + 4095) div 4096 * 4096"
  note tid = running_tid [OF t(1)]
  have small: "as_isize m = int m" if "m < stack_bottom" for m
    using that by (simp add: as_isize_def stack_bottom_def USER_STACK_TOP_def USER_STACK_SIZE_def)
  fix r s' assume r: "sys_brk E s n = Inr (r, s')"
  have *: "(s_k s' = s_k s \<and> r = as_isize (t_brk ?x) \<and> (n = 0 \<or> ?n < t_heap_start ?x \<or> ?n \<ge> stack_bottom)) \<or>
      (\<exists>v. n \<noteq> 0 \<and> t_heap_start ?x \<le> ?n \<and> ?n < stack_bottom \<and> r = as_isize ?n \<and>
        s_k s' = upd_task (s_k s) t (\<lambda>x. x\<lparr>t_vmm := v, t_brk := ?n\<rparr>))"
    using r tid by (auto simp: sys_brk_def stack_bottom_def Let_def split: if_splits)
  then show "brk_ok (arcs (s_k s') t)" "r = int (t_brk (arcs (s_k s') t))" "t_heap_start (arcs (s_k s') t) = t_heap_start ?x"
    "u \<noteq> t \<Longrightarrow> arcs (s_k s') u = arcs (s_k s) u" for u
    using t(2) small by (auto simp: brk_ok_def upd_task_def)
  show "t_brk (arcs (s_k s') t) = ?n" if "n \<noteq> 0" "t_heap_start ?x \<le> ?n" "?n < stack_bottom"
    using * that by (auto simp: upd_task_def)
next
  assume "n \<noteq> 0" "U64_LIMIT \<le> n + 4095"
  then show "sys_brk E s n = Inl Overflow" using running_tid [OF t(1)] by (simp add: sys_brk_def add_u64_def)
qed

lemma example_running: "running (s_k example_sys) 2"
  by (simp add: running_def example_sys_def example_task_def)

theorem brk_bounds_witness:
  "\<exists>r s'. sys_brk example_env example_sys 0x402001 = Inr (r, s') \<and> t_brk (arcs (s_k s') 2) = 0x403000 \<and> r = 0x403000"
proof -
  have ok: "brk_ok (arcs (s_k example_sys) 2)"
    by (simp add: brk_ok_def example_sys_def example_task_def stack_bottom_def USER_STACK_TOP_def USER_STACK_SIZE_def)
  have "\<exists>r s'. sys_brk example_env example_sys 0x402001 = Inr (r, s')"
    using running_tid [OF example_running]
    by (simp add: sys_brk_def add_u64_def U64_LIMIT_def example_sys_def example_task_def USER_STACK_TOP_def USER_STACK_SIZE_def)
  then obtain r s' where b: "sys_brk example_env example_sys 0x402001 = Inr (r, s')" by blast
  from brk_bounds [OF example_running ok, THEN conjunct1, THEN spec, THEN spec, THEN mp, OF b]
  have "t_brk (arcs (s_k s') 2) = 0x403000" "r = int (t_brk (arcs (s_k s') 2))"
    by (simp_all add: example_sys_def example_task_def stack_bottom_def USER_STACK_TOP_def USER_STACK_SIZE_def)
  with b show ?thesis by auto
qed

subsection \<open>Permissions\<close>

lemma owner_bits: "\<not> can_read (drop_bit 6 (w :: u8) AND 7)"
proof -
  have "bit (drop_bit 6 w AND 7 AND 4) n = False" for n
  proof (cases "n = 2")
    case True
    have "\<not> bit w 8" using bit_imp_le_length [of w 8] by auto
    then show ?thesis using True by (simp add: bit_simps)
  next
    case False
    have "bit (4 :: u8) n \<longleftrightarrow> n = 2" using bit_push_bit_iff [of 2 "1 :: u8" n] by (auto simp: push_bit_eq_mult bit_1_iff)
    then show ?thesis using False by (simp add: bit_simps)
  qed
  then have "drop_bit 6 w AND 7 AND 4 = 0" by (intro bit_eqI) simp
  then show ?thesis by (simp add: can_read_def and.assoc)
qed

text \<open>
  C39. \<^verbatim>\<open>SYS_CHMOD\<close> always takes the read bit from the owner. The mode is cut to eight bits before the three
  groups are extracted, so whatever mode is passed, an owner other than the superuser can no longer read the
  file.
\<close>

theorem chmod_owner_unreadable:
  assumes path: "str_from_user (s_mem s) ptr len = Some p" and entry: "perms_get (perms (s_fs s)) p = Some e" "pe_uid e \<noteq> 0"
    and ok: "bt_ok (perms (s_fs s))"
  shows "\<exists>s'. sys_chmod s ptr len mode = Inr (0, s') \<and> (\<forall>gid. check_perm (s_fs s') p (pe_uid e) gid False = Inl PermissionDenied)"
  using assms owner_bits
  by (simp add: sys_chmod_def with_path_def fs_chmod_def fs_ret_def check_perm_def perms_get_def perms_set_def map_of_bt_insert Let_def)

theorem chmod_owner_unreadable_witness:
  "\<exists>s'. sys_chmod example_sys 16 2 0x1FF = Inr (0, s') \<and> check_perm (s_fs s') [0x2F, 0x61] 5 5 False = Inl PermissionDenied"
proof -
  let ?e = "\<lparr>pe_uid = 5, pe_gid = 5, pe_owner_rwx = 7, pe_group_rwx = 5, pe_world_rwx = 5\<rparr>"
  have p: "str_from_user (s_mem example_sys) 16 2 = Some [0x2F, 0x61]"
  proof -
    have "read_bytes (s_mem example_sys) 16 2 = [0x2F, 0x61]" by (simp add: read_bytes_def example_sys_def upt_rec)
    moreover have "utf8 [0x2F, 0x61]" by simp
    ultimately show ?thesis by (simp add: str_from_user_def)
  qed
  have e: "perms_get (perms (s_fs example_sys)) [0x2F, 0x61] = Some ?e" "pe_uid ?e \<noteq> 0" "bt_ok (perms (s_fs example_sys))"
    by (simp_all add: example_sys_def perms_get_def bt_ok_def)
  from chmod_owner_unreadable [OF p e, of "0x1FF"] show ?thesis by auto
qed

text \<open>
  C38. Logging out makes the task the superuser. After \<^verbatim>\<open>SYS_LOGOUT\<close> the task runs as user 0, for whom every
  permission check passes, whoever it ran as before.
\<close>

theorem logout_is_superuser:
  assumes t: "running (s_k s) t"
  shows "\<exists>s'. syscall_handler E SYS_LOGOUT frame resumed s = Some (Inr (Ret 0, frame, s')) \<and> current_uid_gid (s_k s') = Inr (0, 0) \<and>
    (\<forall>path gid want_write. check_perm (s_fs s') path 0 gid want_write = Inr ())"
  using running_tid [OF t] t
  by (simp add: syscall_handler_def syscall_numbers Let_def returns_def sys_logout_def set_uid_gid_def current_uid_gid_def check_perm_def upd_task_def
      current_tid_def running_def)

theorem logout_is_superuser_witness:
  "\<exists>s'. syscall_handler example_env SYS_LOGOUT (example_frame 0) None example_sys = Some (Inr (Ret 0, example_frame 0, s')) \<and>
     current_uid_gid (s_k s') = Inr (0, 0)"
  using logout_is_superuser [OF example_running, of example_env "example_frame 0" None] by blast

subsection \<open>Every call keeps the file tables in agreement\<close>

definition files_ok :: "('d, 'pt) sys \<Rightarrow> bool" where
  "files_ok s \<longleftrightarrow> opens_ok (fcbs (s_fs s)) (fds (s_fs s))"

named_theorems same_files "system calls that leave the file system alone"

lemma waitpid_files [same_files]: "sys_waitpid s p = Inr (n, s') \<Longrightarrow> s_fs s' = s_fs s"
  by (auto simp: sys_waitpid_def)

lemma join_files [same_files]: "sys_join s p = Inr (n, s') \<Longrightarrow> s_fs s' = s_fs s"
  by (auto simp: sys_join_def)

lemma exit_files [same_files]: "sys_exit s c = Inr (n, s') \<Longrightarrow> s_fs s' = s_fs s"
  by (auto simp: sys_exit_def)

lemma clone_files [same_files]: "sys_clone E s f e p = Inr (n, s') \<Longrightarrow> s_fs s' = s_fs s"
  by (auto simp: sys_clone_def Let_def case_prod_beta split: if_split_asm option.split_asm)

lemma fork_files [same_files]: "sys_fork E s e = Inr (n, s') \<Longrightarrow> s_fs s' = s_fs s"
  by (auto simp: sys_fork_def Let_def case_prod_beta split: option.split_asm)

lemma resource_files [same_files]:
  "sys_getresource s = Inr (n, s') \<Longrightarrow> s_fs s' = s_fs s"
  "sys_mutex_lock s h = Inr (out, s') \<Longrightarrow> s_fs s' = s_fs s"
  "sys_mutex_trylock s h = (n, s') \<Longrightarrow> s_fs s' = s_fs s"
  "sys_on_resource f s h = (n, s') \<Longrightarrow> s_fs s' = s_fs s"
  by (auto simp: sys_getresource_def sys_mutex_lock_def sys_mutex_trylock_def sys_on_resource_def Let_def case_prod_beta split: option.split_asm)

lemma condvar_files [same_files]: "sys_condvar_wait s h r = Inr (out, s') \<Longrightarrow> s_fs s' = s_fs s"
  by (auto simp: sys_condvar_wait_def dest: resource_files split: option.split_asm)

lemma pipe_files [same_files]:
  "sys_pipe_create s = Inr (n, s') \<Longrightarrow> s_fs s' = s_fs s"
  "sys_pipe_close s h = Inr (n, s') \<Longrightarrow> s_fs s' = s_fs s"
  by (auto simp: sys_pipe_create_def sys_pipe_close_def Let_def case_prod_beta split: option.split_asm)

lemma rbindE: "rbind m f = Inr y \<Longrightarrow> (\<And>x. m = Inr x \<Longrightarrow> f x = Inr y \<Longrightarrow> P) \<Longrightarrow> P"
  by auto

lemma pipe_read_files [same_files]: "sys_pipe_read s h b l r = Inr (out, s') \<Longrightarrow> s_fs s' = s_fs s"
  unfolding sys_pipe_read_def Let_def
  by (auto simp del: rbind_eq_Inr elim!: rbindE split: if_split_asm option.split_asm sum.split_asm)

lemma pipe_write_files [same_files]: "sys_pipe_write s h b l r = Inr (out, s') \<Longrightarrow> s_fs s' = s_fs s"
  unfolding sys_pipe_write_def Let_def
  by (auto simp del: rbind_eq_Inr elim!: rbindE split: if_split_asm option.split_asm sum.split_asm)

lemma shm_files [same_files]:
  "sys_shm_open E s p l z = Inr (n, s') \<Longrightarrow> s_fs s' = s_fs s"
  "sys_shm_close s h = (n, s') \<Longrightarrow> s_fs s' = s_fs s"
  by (auto simp: sys_shm_open_def sys_shm_close_def Let_def split: if_split_asm)

lemma device_files [same_files]:
  "sys_ioctl s fd c = (n, s') \<Longrightarrow> s_fs s' = s_fs s"
  "sys_open_dev s p l = Inr (n, s') \<Longrightarrow> s_fs s' = s_fs s"
  by (auto simp: sys_ioctl_def sys_open_dev_def with_path_def Let_def split: if_split_asm option.split_asm)

lemma user_files [same_files]:
  "sys_login E s u p l = Inr (n, s') \<Longrightarrow> s_fs s' = s_fs s"
  "sys_logout s = Inr (n, s') \<Longrightarrow> s_fs s' = s_fs s"
  "sys_grant s d ob r = Inr (n, s') \<Longrightarrow> s_fs s' = s_fs s"
  "sys_revoke s d ob r = Inr (n, s') \<Longrightarrow> s_fs s' = s_fs s"
  by (auto simp: sys_login_def sys_logout_def set_uid_gid_def sys_grant_def sys_revoke_def Let_def case_prod_beta split: if_split_asm option.split_asm)

lemma brk_files [same_files]: "sys_brk E s b = Inr (n, s') \<Longrightarrow> s_fs s' = s_fs s"
  unfolding sys_brk_def Let_def
  by (auto simp del: rbind_eq_Inr elim!: rbindE split: if_split_asm option.split_asm)

lemma mprotect_files [same_files]: "sys_mprotect E s a l p = Inr (n, s') \<Longrightarrow> s_fs s' = s_fs s"
  unfolding sys_mprotect_def Let_def
  by (auto simp del: rbind_eq_Inr elim!: rbindE split: if_split_asm option.split_asm)

text \<open>The file calls, by the lemmas on the file system.\<close>

lemma fs_ret_files:
  assumes "fs_ret r f s = Inr (n, s')" "\<And>x fs'. r = Inr (x, fs') \<Longrightarrow> opens_ok (fcbs fs') (fds fs')"
  shows "files_ok s'"
  using assms by (auto simp: fs_ret_def files_ok_def)

lemma with_path_files:
  assumes "with_path s ptr len f = Inr (n, s')" "files_ok s" "\<And>p. f p = Inr (n, s') \<Longrightarrow> files_ok s'"
  shows "files_ok s'"
  using assms by (auto simp: with_path_def split: option.split_asm)

text \<open>One request of the file system, as its results are passed on.\<close>

lemma step_files:
  assumes ok: "files_ok s" and st: "fs_step F lower req (s_fs s) = after r" and nd: "\<And>p. req \<noteq> Delete p" and r: "r = Inr (x, fs')"
  shows "opens_ok (fcbs fs') (fds fs')"
  using opens_ok_step [of "s_fs s" req F lower fs'] ok st nd by (auto simp: files_ok_def after_eq r)

lemma read_files:
  assumes "files_ok s" "sys_read E s fd b l = Some (Inr (n, s'))"
  shows "files_ok s'"
proof -
  have "opens_ok (fcbs fs') (fds fs')" if "fs_read (e_fat E) (s_fs s) fd pid u g l = Inr (x, fs')" for pid u g x fs'
    by (rule step_files [OF assms(1) _ _ that, where req = "Read fd pid u g l" and F = "e_fat E" and lower = "e_lower E"]) simp_all
  then show ?thesis
    using assms unfolding sys_read_def
    by (auto simp: files_ok_def simp del: rbind_eq_Inr elim!: rbindE split: if_split_asm sum.split_asm)
qed

lemma write_files:
  assumes "files_ok s" "sys_write E s fd b l = Inr (n, s')"
  shows "files_ok s'"
proof -
  have "opens_ok (fcbs fs') (fds fs')" if "fs_write (e_fat E) (s_fs s) fd pid u g bs = Inr (x, fs')" for pid u g x fs' bs
    by (rule step_files [OF assms(1) _ _ that, where req = "Write fd pid u g bs" and F = "e_fat E" and lower = "e_lower E"]) simp_all
  then show ?thesis
    using assms unfolding sys_write_def Let_def
    by (auto simp: files_ok_def case_prod_beta simp del: rbind_eq_Inr elim!: rbindE fs_ret_files [unfolded files_ok_def] split: if_split_asm)
qed

lemma ret_step:
  assumes "files_ok s" "fs_ret r f s = Inr (n, s')" "fs_step F lower req (s_fs s) = after r" "\<And>p. req \<noteq> Delete p"
  shows "files_ok s'"
  using assms(2) step_files [OF assms(1,3,4)] by (rule fs_ret_files) simp

lemma path_call_files:
  assumes ok: "files_ok s"
  shows "sys_open E s p l = Inr (n, s') \<Longrightarrow> files_ok s'" "sys_create E s p l = Inr (n, s') \<Longrightarrow> files_ok s'"
    "sys_mark_shared s p l = Inr (n, s') \<Longrightarrow> files_ok s'" "sys_mkdir E s p l = Inr (n, s') \<Longrightarrow> files_ok s'"
    "sys_chmod s p l m = Inr (n, s') \<Longrightarrow> files_ok s'"
  unfolding sys_open_def sys_create_def sys_mark_shared_def sys_mkdir_def sys_chmod_def Let_def
  by (erule with_path_files [OF _ ok],
      auto simp del: rbind_eq_Inr elim!: rbindE intro: ret_step [OF ok _ fs_step.simps(1)] ret_step [OF ok _ fs_step.simps(6)]
        ret_step [OF ok _ fs_step.simps(8)] ret_step [OF ok _ fs_step.simps(12)] ret_step [OF ok _ fs_step.simps(9)])+

lemma fd_call_files:
  assumes ok: "files_ok s"
  shows "sys_close s fd = Inr (n, s') \<Longrightarrow> files_ok s'" "sys_seek s fd off = Inr (n, s') \<Longrightarrow> files_ok s'"
  unfolding sys_close_def sys_seek_def
  by (auto simp del: rbind_eq_Inr elim!: rbindE intro: ret_step [OF ok _ fs_step.simps(2)] ret_step [OF ok _ fs_step.simps(5)])

lemma rename_files:
  assumes ok: "files_ok s"
  shows "sys_rename E s p l p' l' = Inr (n, s') \<Longrightarrow> files_ok s'"
  unfolding sys_rename_def
  by (erule with_path_files [OF _ ok])+ (auto intro: ret_step [OF ok _ fs_step.simps(11)])

lemma chown_files:
  assumes ok: "files_ok s"
  shows "sys_chown s p l u g = Inr (n, s') \<Longrightarrow> files_ok s'"
  unfolding sys_chown_def
  by (erule with_path_files [OF _ ok]) (use ok in \<open>auto simp: files_ok_def fs_chown_def split: option.splits\<close>)

lemma query_files:
  assumes ok: "files_ok s"
  shows "sys_getdents E s p l b m = Inr (n, s') \<Longrightarrow> files_ok s'" "sys_stat E s p l b = Inr (n, s') \<Longrightarrow> files_ok s'"
proof -
  have "opens_ok (fcbs fs') (fds fs')" if "fs_getdents (e_fat E) (s_fs s) q = Inr (x, fs')" for q x fs'
    by (rule step_files [OF ok fs_step.simps(14) _ that]) simp
  then show "sys_getdents E s p l b m = Inr (n, s') \<Longrightarrow> files_ok s'"
    unfolding sys_getdents_def
    by (elim with_path_files [OF _ ok])
       (use ok in \<open>auto simp: files_ok_def Let_def simp del: rbind_eq_Inr elim!: rbindE split: if_split_asm sum.split_asm\<close>)
  have "opens_ok (fcbs fs') (fds fs')" if "fs_stat (e_fat E) (s_fs s) q = Inr (x, fs')" for q x fs'
    by (rule step_files [OF ok fs_step.simps(15) _ that]) simp
  then show "sys_stat E s p l b = Inr (n, s') \<Longrightarrow> files_ok s'"
    unfolding sys_stat_def
    by (elim with_path_files [OF _ ok])
       (use ok in \<open>auto simp: files_ok_def simp del: rbind_eq_Inr elim!: rbindE split: if_split_asm sum.split_asm\<close>)
qed

lemma rmdir_files:
  assumes ok: "files_ok s" and r: "sys_rmdir E s p l = Some (Inr (n, s'))"
  shows "files_ok s'"
proof (cases "str_from_user (s_mem s) p l")
  case None
  then show ?thesis using r ok by (simp add: sys_rmdir_def)
next
  case (Some q)
  then obtain x where x: "fs_rmdir (e_fuel E) (e_fat E) (s_fs s) q = Some x" "fs_ret x (\<lambda>_. 0) s = Inr (n, s')"
    using r by (auto simp: sys_rmdir_def)
  have "fs_step (e_fat E) (e_lower E) (Rmdir (e_fuel E) q) (s_fs s) = after x" using x(1) by simp
  from ret_step [OF ok x(2) this] show ?thesis by simp
qed

subsection \<open>The dispatcher\<close>

definition keeps_files :: "('d, 'pt) sys_result \<Rightarrow> bool" where
  "keeps_files r \<longleftrightarrow> (\<forall>out frame s'. r = Some (Inr (out, frame, s')) \<longrightarrow> files_ok s')"

lemma keeps_returns: "(\<And>n s'. r = Inr (n, s') \<Longrightarrow> files_ok s') \<Longrightarrow> keeps_files (returns frame r)"
  by (auto simp: keeps_files_def returns_def)

lemma keeps_may_wait: "(\<And>out s'. r = Inr (out, s') \<Longrightarrow> files_ok s') \<Longrightarrow> keeps_files (may_wait frame r)"
  by (auto simp: keeps_files_def may_wait_def)

lemma keeps_may_diverge: "(\<And>n s'. r = Some (Inr (n, s')) \<Longrightarrow> files_ok s') \<Longrightarrow> keeps_files (may_diverge frame r)"
  by (auto simp: keeps_files_def may_diverge_def returns_def split: option.split_asm)

lemma keeps_if: "(c \<Longrightarrow> keeps_files a) \<Longrightarrow> (\<not> c \<Longrightarrow> keeps_files b) \<Longrightarrow> keeps_files (if c then a else b)"
  by simp

lemma same_files_ok: "files_ok s \<Longrightarrow> s_fs s' = s_fs s \<Longrightarrow> files_ok s'"
  by (simp add: files_ok_def)

text \<open>
  C9. System calls keep the file tables well-formed. After any system call but the deletion of a file, in any
  state in which the tables agree, they agree again: each descriptor names a file whose control block is locked
  by the process of the descriptor, and no file has two descriptors.
\<close>

theorem syscalls_keep_files:
  assumes ok: "opens_ok (fcbs (s_fs s)) (fds (s_fs s))" and nr: "nr \<noteq> SYS_DELETE"
    and call: "syscall_handler E nr frame resumed s = Some (Inr (out, frame', s'))"
  shows "opens_ok (fcbs (s_fs s')) (fds (s_fs s'))"
proof -
  have files: "files_ok s" using ok by (simp add: files_ok_def)
  have pure: "s_fs s' = s_fs s \<Longrightarrow> files_ok s'" for s' using files by (rule same_files_ok)
  have "keeps_files (syscall_handler E nr frame resumed s)"
    unfolding syscall_handler_def Let_def case_prod_beta
    by (simp only: nr if_False, intro keeps_if keeps_returns keeps_may_wait keeps_may_diverge)
      (auto simp: keeps_files_def files sys_mutex_unlock_def sys_condvar_signal_def sys_condvar_broadcast_def simp del: rbind_eq_Inr elim!: rbindE
        intro: pure read_files [OF files] write_files [OF files] path_call_files [OF files] fd_call_files [OF files]
          rename_files [OF files] chown_files [OF files] query_files [OF files] rmdir_files [OF files]
        dest: same_files)
  then show ?thesis using call by (simp add: keeps_files_def files_ok_def)
qed

theorem syscalls_keep_files_witness:
  "\<exists>s'. syscall_handler example_env SYS_CLOSE (example_frame 3) None example_sys = Some (Inr (Ret 0, example_frame 3, s')) \<and>
     opens_ok (fcbs (s_fs s')) (fds (s_fs s'))"
proof -
  have ok: "opens_ok (fcbs (s_fs example_sys)) (fds (s_fs example_sys))"
    using opens_ok_reachable [OF example_fs_reachable] by (simp add: example_sys_def)
  have "\<exists>s'. syscall_handler example_env SYS_CLOSE (example_frame 3) None example_sys = Some (Inr (Ret 0, example_frame 3, s'))"
    by (simp add: syscall_handler_def syscall_numbers Let_def returns_def sys_close_def current_pid_def example_sys_def example_task_def
        example_frame_def fs_ret_def fs_close_def example_fs_def table_for_def fd_remove_def fcb_get_def)
  then obtain s' where c: "syscall_handler example_env SYS_CLOSE (example_frame 3) None example_sys = Some (Inr (Ret 0, example_frame 3, s'))" by blast
  have "SYS_CLOSE \<noteq> SYS_DELETE" by (simp add: syscall_numbers)
  from syscalls_keep_files [OF ok this c] c show ?thesis by blast
qed

end
