(* ===== verification/Spec2Isabelle.thy ===== *)
theory Spec2Isabelle
  imports Boot DiskIo IoSched ReaperProps Exec SyscallProps
begin

text \<open>
  AlaphiOS kernel: verification library.
\<close>

end
